theory Spec2Isabelle
  imports Main "HOL-Library.Char_ord"
begin

unbundle bit_operations_syntax

section \<open>Tokens (lexer/token.h)\<close>

text \<open>
  The enumerators of \<^verbatim>\<open>enum class TokenType\<close>, in the order of the header. The prefix
  \<open>TT_\<close> stands for the scope \<^verbatim>\<open>TokenType::\<close> (several enumerators, such as \<^verbatim>\<open>INT\<close>,
  are also enumerators of \<^verbatim>\<open>PrimitiveType\<close>).
\<close>

datatype TokenType =
    TT_STRUCT | TT_VARIANT | TT_ENUM | TT_UNIT
  | TT_ARRAY | TT_MAP | TT_OPTIONAL | TT_REF | TT_ENTITY
  | TT_STR | TT_INT | TT_U8 | TT_U16 | TT_U32 | TT_U64
  | TT_I8 | TT_I16 | TT_I32 | TT_I64 | TT_F32 | TT_F64 | TT_BOOL
  | TT_COLON | TT_COMMA | TT_LBRACE | TT_RBRACE | TT_LANGLE | TT_RANGLE
  | TT_LPAREN | TT_RPAREN
  | TT_IDENTIFIER | TT_STRING_LITERAL | TT_NUMBER_LITERAL | TT_TRUE | TT_FALSE
  | TT_NEWLINE | TT_WHITESPACE | TT_COMMENT | TT_END_OF_FILE | TT_ERROR

text \<open>
  \<^verbatim>\<open>struct Token\<close>. Lines and columns are \<^verbatim>\<open>uint32_t\<close> in the source; they are natural
  numbers here (they only wrap on inputs of more than \<open>2^32\<close> bytes, and no property below
  depends on their value modulo \<open>2^32\<close>).
\<close>

record Token =
  ttype :: TokenType
  lexeme :: string
  line :: nat
  column :: nat
  error_message :: string

text \<open>The constructor \<^verbatim>\<open>Token(TokenType t, lex, ln, col)\<close>.\<close>

definition Token_ctor :: "TokenType \<Rightarrow> string \<Rightarrow> nat \<Rightarrow> nat \<Rightarrow> Token" where
  "Token_ctor t lxm ln col =
     \<lparr>ttype = t, lexeme = lxm, line = ln, column = col, error_message = ''''\<rparr>"

text \<open>The constructor for error tokens, \<^verbatim>\<open>Token(error, ln, col)\<close>.\<close>

definition Token_error_ctor :: "string \<Rightarrow> nat \<Rightarrow> nat \<Rightarrow> Token" where
  "Token_error_ctor err ln col =
     \<lparr>ttype = TT_ERROR, lexeme = '''', line = ln, column = col, error_message = err\<rparr>"

text \<open>\<^verbatim>\<open>std::to_string\<close> on an unsigned number: its decimal digits.\<close>

fun to_string :: "nat \<Rightarrow> string" where
  "to_string n =
     (if n < 10 then [char_of (48 + n)]
      else to_string (n div 10) @ [char_of (48 + n mod 10)])"

declare to_string.simps [simp del]

section \<open>The lexer (lexer/lexer.h, lexer/lexer.cpp)\<close>

text \<open>The data members of \<^verbatim>\<open>class Lexer\<close>.\<close>

record Lexer =
  source :: string
  position :: nat
  peek_position :: nat
  lx_line :: nat
  lx_column :: nat
  lx_errors :: "string list"
  peeked_token :: "Token option"

definition Lexer_ctor :: "string \<Rightarrow> Lexer" where
  "Lexer_ctor src =
     \<lparr>source = src, position = 0, peek_position = 0, lx_line = 1, lx_column = 1,
      lx_errors = [], peeked_token = None\<rparr>"

definition is_at_end :: "Lexer \<Rightarrow> bool" where
  "is_at_end s = (position s \<ge> length (source s))"

definition current_char :: "Lexer \<Rightarrow> char" where
  "current_char s = (if is_at_end s then CHR 0x00 else source s ! position s)"

definition peek_char :: "Lexer \<Rightarrow> nat \<Rightarrow> char" where
  "peek_char s offset =
     (let pos = position s + offset
      in if pos \<ge> length (source s) then CHR 0x00 else source s ! pos)"

definition Lexer_advance :: "Lexer \<Rightarrow> Lexer" where
  "Lexer_advance s =
     (if is_at_end s then s
      else (if source s ! position s = CHR 0x0A
            then s\<lparr>lx_line := lx_line s + 1, lx_column := 1\<rparr>
            else s\<lparr>lx_column := lx_column s + 1\<rparr>)\<lparr>position := position s + 1\<rparr>)"

text \<open>
  Character classification. The comparisons are on byte values; every range test of the
  source is two-sided and within ASCII, so it gives the same answer for a signed and for an
  unsigned \<^verbatim>\<open>char\<close>.
\<close>

definition is_letter :: "char \<Rightarrow> bool" where
  "is_letter c = ((c \<ge> CHR ''a'' \<and> c \<le> CHR ''z'') \<or> (c \<ge> CHR ''A'' \<and> c \<le> CHR ''Z''))"

definition is_digit :: "char \<Rightarrow> bool" where
  "is_digit c = (c \<ge> CHR ''0'' \<and> c \<le> CHR ''9'')"

definition is_hex_digit :: "char \<Rightarrow> bool" where
  "is_hex_digit c =
     (is_digit c \<or> (c \<ge> CHR ''a'' \<and> c \<le> CHR ''f'') \<or> (c \<ge> CHR ''A'' \<and> c \<le> CHR ''F''))"

definition is_whitespace :: "char \<Rightarrow> bool" where
  "is_whitespace c = (c = CHR '' '' \<or> c = CHR 0x09 \<or> c = CHR 0x0D \<or> c = CHR 0x0A)"

text \<open>The keyword table of \<^verbatim>\<open>identify_keyword\<close>.\<close>

definition keyword_table :: "(string \<times> TokenType) list" where
  "keyword_table =
     [(''struct'', TT_STRUCT), (''variant'', TT_VARIANT), (''enum'', TT_ENUM),
      (''unit'', TT_UNIT), (''array'', TT_ARRAY), (''map'', TT_MAP),
      (''optional'', TT_OPTIONAL), (''ref'', TT_REF), (''entity'', TT_ENTITY),
      (''str'', TT_STR), (''int'', TT_INT), (''u8'', TT_U8), (''u16'', TT_U16),
      (''u32'', TT_U32), (''u64'', TT_U64), (''i8'', TT_I8), (''i16'', TT_I16),
      (''i32'', TT_I32), (''i64'', TT_I64), (''f32'', TT_F32), (''f64'', TT_F64),
      (''bool'', TT_BOOL), (''true'', TT_TRUE), (''false'', TT_FALSE)]"

definition identify_keyword :: "string \<Rightarrow> TokenType" where
  "identify_keyword word =
     (case map_of keyword_table word of Some t \<Rightarrow> t | None \<Rightarrow> TT_IDENTIFIER)"

definition Lexer_report_error :: "Lexer \<Rightarrow> string \<Rightarrow> Lexer" where
  "Lexer_report_error s message =
     s\<lparr>lx_errors := lx_errors s @
        [''Line '' @ to_string (lx_line s) @ '', Column '' @ to_string (lx_column s) @
         '': '' @ message]\<rparr>"

definition make_error_token :: "Lexer \<Rightarrow> string \<Rightarrow> Token \<times> Lexer" where
  "make_error_token s message =
     (Token_error_ctor message (lx_line s) (lx_column s), Lexer_report_error s message)"

text \<open>The number of bytes not yet consumed; every loop of the lexer decreases it.\<close>

definition remaining :: "Lexer \<Rightarrow> nat" where
  "remaining s = length (source s) - position s"

lemma remaining_advance: "\<not> is_at_end s \<Longrightarrow> remaining (Lexer_advance s) < remaining s"
  by (simp add: remaining_def Lexer_advance_def is_at_end_def)

lemma position_advance: "position s \<le> position (Lexer_advance s)"
  by (simp add: Lexer_advance_def)

lemma source_advance [simp]: "source (Lexer_advance s) = source s"
  by (simp add: Lexer_advance_def)

lemma peeked_advance [simp]: "peeked_token (Lexer_advance s) = peeked_token s"
  by (simp add: Lexer_advance_def)

text \<open>
  The loop at the head of \<^verbatim>\<open>scan_token\<close>:
  \<^verbatim>\<open>while (!is_at_end() && is_whitespace(current_char()) && current_char() != '\n') advance();\<close>
\<close>

function skip_whitespace :: "Lexer \<Rightarrow> Lexer" where
  "skip_whitespace s =
     (if \<not> is_at_end s \<and> is_whitespace (current_char s) \<and> current_char s \<noteq> CHR 0x0A
      then skip_whitespace (Lexer_advance s) else s)"
  by pat_completeness auto
termination
  by (relation "measure remaining") (auto simp: remaining_advance)

declare skip_whitespace.simps [simp del]

text \<open>
  The loops of the form
  \<^verbatim>\<open>while (!is_at_end() && P(current_char())) { lexeme += current_char(); advance(); }\<close>
  in \<^verbatim>\<open>scan_identifier_or_keyword\<close>, \<^verbatim>\<open>scan_number\<close> and \<^verbatim>\<open>scan_single_line_comment\<close>.
\<close>

function scan_while :: "(char \<Rightarrow> bool) \<Rightarrow> Lexer \<Rightarrow> string \<Rightarrow> Lexer \<times> string" where
  "scan_while P s lx =
     (if \<not> is_at_end s \<and> P (current_char s)
      then scan_while P (Lexer_advance s) (lx @ [current_char s]) else (s, lx))"
  by pat_completeness auto
termination
  by (relation "measure (\<lambda>(P, s, lx). remaining s)") (auto simp: remaining_advance)

declare scan_while.simps [simp del]

definition scan_identifier_or_keyword :: "Lexer \<Rightarrow> Token \<times> Lexer" where
  "scan_identifier_or_keyword s =
     (let token_line = lx_line s; token_column = lx_column s;
          (s1, lx) = scan_while (\<lambda>c. is_letter c \<or> is_digit c \<or> c = CHR ''_'') s []
      in (Token_ctor (identify_keyword lx) lx token_line token_column, s1))"

text \<open>\<^verbatim>\<open>lexeme += current_char(); advance();\<close>\<close>

definition take_char :: "Lexer \<times> string \<Rightarrow> Lexer \<times> string" where
  "take_char sl = (case sl of (s, lx) \<Rightarrow> (Lexer_advance s, lx @ [current_char s]))"

text \<open>
  The blocks of \<^verbatim>\<open>scan_number\<close>, each working on the scanner and the lexeme read so far:
  the sign, the digits after a radix prefix (\<^verbatim>\<open>0x\<close>, \<^verbatim>\<open>0b\<close>, \<^verbatim>\<open>0o\<close>: both prefix characters
  are appended, then the digits accepted by \<open>P\<close>), the fraction and the exponent.
\<close>

definition number_sign :: "Lexer \<times> string \<Rightarrow> Lexer \<times> string" where
  "number_sign sl = (if current_char (fst sl) = CHR ''-'' then take_char sl else sl)"

definition number_radix :: "(char \<Rightarrow> bool) \<Rightarrow> Lexer \<times> string \<Rightarrow> Lexer \<times> string" where
  "number_radix P sl = (case take_char (take_char sl) of (s, lx) \<Rightarrow> scan_while P s lx)"

definition number_fraction :: "Lexer \<times> string \<Rightarrow> Lexer \<times> string" where
  "number_fraction sl =
     (if \<not> is_at_end (fst sl) \<and> current_char (fst sl) = CHR ''.'' \<and>
         is_digit (peek_char (fst sl) 1)
      then (case take_char sl of (s, lx) \<Rightarrow> scan_while is_digit s lx)
      else sl)"

definition number_exponent :: "Lexer \<times> string \<Rightarrow> Lexer \<times> string" where
  "number_exponent sl =
     (if \<not> is_at_end (fst sl) \<and>
         (current_char (fst sl) = CHR ''e'' \<or> current_char (fst sl) = CHR ''E'')
      then (let sl1 = take_char sl;
                sl2 = (if \<not> is_at_end (fst sl1) \<and>
                          (current_char (fst sl1) = CHR ''+'' \<or> current_char (fst sl1) = CHR ''-'')
                       then take_char sl1 else sl1)
            in case sl2 of (s, lx) \<Rightarrow> scan_while is_digit s lx)
      else sl)"

definition scan_number :: "Lexer \<Rightarrow> Token \<times> Lexer" where
  "scan_number s =
     (let token_line = lx_line s; token_column = lx_column s;
          sl1 = number_sign (s, []);
          s1 = fst sl1;
          nxt = peek_char s1 1;
          sl2 =
            (if current_char s1 = CHR ''0'' \<and> \<not> is_at_end s1 \<and>
                (nxt = CHR ''x'' \<or> nxt = CHR ''X'') then
               number_radix is_hex_digit sl1
             else if current_char s1 = CHR ''0'' \<and> \<not> is_at_end s1 \<and>
                (nxt = CHR ''b'' \<or> nxt = CHR ''B'') then
               number_radix (\<lambda>c. c = CHR ''0'' \<or> c = CHR ''1'') sl1
             else if current_char s1 = CHR ''0'' \<and> \<not> is_at_end s1 \<and>
                (nxt = CHR ''o'' \<or> nxt = CHR ''O'') then
               number_radix (\<lambda>c. c \<ge> CHR ''0'' \<and> c \<le> CHR ''7'') sl1
             else
               number_exponent (number_fraction
                 (case sl1 of (t, lx) \<Rightarrow> scan_while is_digit t lx)))
      in (Token_ctor TT_NUMBER_LITERAL (snd sl2) token_line token_column, fst sl2))"

text \<open>
  One iteration of the loop of \<^verbatim>\<open>scan_string\<close>, entered with
  \<^verbatim>\<open>!is_at_end() && current_char() != '"'\<close>: either the function returns an error token
  (\<open>Inl\<close>), or the iteration ends with a new state and lexeme (\<open>Inr\<close>).
  \<^verbatim>\<open>int hex_value\<close> is an \<open>int\<close>; \<^verbatim>\<open>static_cast<char>\<close> keeps its low eight bits.
\<close>

definition hex_digit_value :: "char \<Rightarrow> int" where
  "hex_digit_value c =
     (if c \<ge> CHR ''0'' \<and> c \<le> CHR ''9'' then of_char c - of_char CHR ''0''
      else if c \<ge> CHR ''a'' \<and> c \<le> CHR ''f'' then of_char c - of_char CHR ''a'' + 10
      else if c \<ge> CHR ''A'' \<and> c \<le> CHR ''F'' then of_char c - of_char CHR ''A'' + 10
      else 0)"

definition scan_string_step :: "Lexer \<Rightarrow> string \<Rightarrow> (Token \<times> Lexer) + (Lexer \<times> string)" where
  "scan_string_step s lx =
     (if current_char s = CHR 0x5C then
        (let s1 = Lexer_advance s in
         if is_at_end s1 then Inl (make_error_token s1 ''Unterminated string literal'')
         else
           (let escape = current_char s1 in
            if escape = CHR ''n'' then Inr (Lexer_advance s1, lx @ [CHR 0x0A])
            else if escape = CHR ''t'' then Inr (Lexer_advance s1, lx @ [CHR 0x09])
            else if escape = CHR ''r'' then Inr (Lexer_advance s1, lx @ [CHR 0x0D])
            else if escape = CHR 0x5C then Inr (Lexer_advance s1, lx @ [CHR 0x5C])
            else if escape = CHR 0x22 then Inr (Lexer_advance s1, lx @ [CHR 0x22])
            else if escape = CHR 0x27 then Inr (Lexer_advance s1, lx @ [CHR 0x27])
            else if escape = CHR ''0'' then Inr (Lexer_advance s1, lx @ [CHR 0x00])
            else if escape = CHR ''x'' then
              (let s2 = Lexer_advance s1 in
               if is_at_end s2 \<or> \<not> is_hex_digit (current_char s2) then
                 Inl (make_error_token s2
                        ''Invalid hex escape sequence: missing first hex digit'')
               else
                 (let first = current_char s2;
                      hex_value = push_bit 4 (hex_digit_value first);
                      s3 = Lexer_advance s2
                  in
                    if is_at_end s3 \<or> \<not> is_hex_digit (current_char s3) then
                      Inl (make_error_token s3
                             ''Invalid hex escape sequence: missing second hex digit'')
                    else
                      (let second = current_char s3;
                           hex_value' = hex_value OR hex_digit_value second
                       in Inr (Lexer_advance s3, lx @ [char_of hex_value']))))
            else Inr (Lexer_advance s1, lx @ [escape])))
      else Inr (Lexer_advance s, lx @ [current_char s]))"

lemma remaining_advance_le: "remaining (Lexer_advance s) \<le> remaining s"
  by (auto simp: remaining_def Lexer_advance_def)

lemma scan_string_step_remaining:
  assumes "\<not> is_at_end s" and "scan_string_step s lx = Inr (s', lx')"
  shows "remaining s' < remaining s"
proof -
  have a: "remaining (Lexer_advance s) < remaining s"
    using assms(1) by (rule remaining_advance)
  have b: "remaining (Lexer_advance (Lexer_advance s)) < remaining s"
    using a remaining_advance_le [of "Lexer_advance s"] by simp
  have c: "remaining (Lexer_advance (Lexer_advance (Lexer_advance s))) < remaining s"
    using b remaining_advance_le [of "Lexer_advance (Lexer_advance s)"] by simp
  have d: "remaining (Lexer_advance (Lexer_advance (Lexer_advance (Lexer_advance s))))
             < remaining s"
    using c remaining_advance_le [of "Lexer_advance (Lexer_advance (Lexer_advance s))"]
    by simp
  show ?thesis
    using assms(2) a b c d
    by (auto simp: scan_string_step_def Let_def split: if_splits)
qed

function scan_string_loop :: "Lexer \<Rightarrow> string \<Rightarrow> (Token \<times> Lexer) + (Lexer \<times> string)" where
  "scan_string_loop s lx =
     (if \<not> is_at_end s \<and> current_char s \<noteq> CHR 0x22 then
        (case scan_string_step s lx of
           Inl e \<Rightarrow> Inl e
         | Inr (s', lx') \<Rightarrow> scan_string_loop s' lx')
      else Inr (s, lx))"
  by pat_completeness auto
termination
  by (relation "measure (\<lambda>(s, lx). remaining s)")
     (auto simp: scan_string_step_remaining)

declare scan_string_loop.simps [simp del]

definition scan_string :: "Lexer \<Rightarrow> Token \<times> Lexer" where
  "scan_string s =
     (let token_line = lx_line s; token_column = lx_column s;
          s1 = Lexer_advance s
      in case scan_string_loop s1 [] of
           Inl e \<Rightarrow> e
         | Inr (s2, lx) \<Rightarrow>
             if is_at_end s2 then make_error_token s2 ''Unterminated string literal''
             else (Token_ctor TT_STRING_LITERAL lx token_line token_column,
                   Lexer_advance s2))"

definition scan_single_line_comment :: "Lexer \<Rightarrow> Token \<times> Lexer" where
  "scan_single_line_comment s =
     (let token_line = lx_line s; token_column = lx_column s;
          s1 = Lexer_advance (Lexer_advance s);
          (s2, lx) = scan_while (\<lambda>c. c \<noteq> CHR 0x0A) s1 []
      in (Token_ctor TT_COMMENT lx token_line token_column, s2))"

text \<open>
  The loop of \<^verbatim>\<open>scan_multi_line_comment\<close>; \<open>Inl\<close> is the return from inside the loop (the
  comment is closed), \<open>Inr\<close> the exit at the end of the input.
\<close>

function multi_line_comment_loop :: "Lexer \<Rightarrow> string \<Rightarrow> (Lexer \<times> string) + Lexer" where
  "multi_line_comment_loop s lx =
     (if \<not> is_at_end s then
        (if current_char s = CHR ''*'' \<and> peek_char s 1 = CHR ''/''
         then Inl (Lexer_advance (Lexer_advance s), lx)
         else multi_line_comment_loop (Lexer_advance s) (lx @ [current_char s]))
      else Inr s)"
  by pat_completeness auto
termination
  by (relation "measure (\<lambda>(s, lx). remaining s)") (auto simp: remaining_advance)

declare multi_line_comment_loop.simps [simp del]

definition scan_multi_line_comment :: "Lexer \<Rightarrow> Token \<times> Lexer" where
  "scan_multi_line_comment s =
     (let token_line = lx_line s; token_column = lx_column s;
          s1 = Lexer_advance (Lexer_advance s)
      in case multi_line_comment_loop s1 [] of
           Inl (s2, lx) \<Rightarrow> (Token_ctor TT_COMMENT lx token_line token_column, s2)
         | Inr s2 \<Rightarrow> make_error_token s2 ''Unterminated multi-line comment'')"

definition scan_token :: "Lexer \<Rightarrow> Token \<times> Lexer" where
  "scan_token s0 =
     (let s = skip_whitespace s0 in
      if is_at_end s then (Token_ctor TT_END_OF_FILE [] (lx_line s) (lx_column s), s)
      else
        (let token_line = lx_line s; token_column = lx_column s; c = current_char s in
         if c = CHR 0x0A then
           (Token_ctor TT_NEWLINE [CHR 0x0A] token_line token_column, Lexer_advance s)
         else if c = CHR ''/'' \<and> peek_char s 1 = CHR ''/'' then scan_single_line_comment s
         else if c = CHR ''/'' \<and> peek_char s 1 = CHR ''*'' then scan_multi_line_comment s
         else if c = CHR '':'' then
           (Token_ctor TT_COLON '':'' token_line token_column, Lexer_advance s)
         else if c = CHR '','' then
           (Token_ctor TT_COMMA '','' token_line token_column, Lexer_advance s)
         else if c = CHR ''{'' then
           (Token_ctor TT_LBRACE ''{'' token_line token_column, Lexer_advance s)
         else if c = CHR ''}'' then
           (Token_ctor TT_RBRACE ''}'' token_line token_column, Lexer_advance s)
         else if c = CHR ''<'' then
           (Token_ctor TT_LANGLE ''<'' token_line token_column, Lexer_advance s)
         else if c = CHR ''>'' then
           (Token_ctor TT_RANGLE ''>'' token_line token_column, Lexer_advance s)
         else if c = CHR ''('' then
           (Token_ctor TT_LPAREN ''('' token_line token_column, Lexer_advance s)
         else if c = CHR '')'' then
           (Token_ctor TT_RPAREN '')'' token_line token_column, Lexer_advance s)
         else if c = CHR 0x22 then scan_string s
         else if is_digit c \<or> (c = CHR ''-'' \<and> is_digit (peek_char s 1)) then scan_number s
         else if is_letter c \<or> c = CHR ''_'' then scan_identifier_or_keyword s
         else
           (let error = ''Unexpected character: '' @ [CHR 0x27] @ [c] @ [CHR 0x27]
            in make_error_token (Lexer_advance s) error)))"

definition next_token :: "Lexer \<Rightarrow> Token \<times> Lexer" where
  "next_token s =
     (case peeked_token s of
        Some token \<Rightarrow> (token, s\<lparr>peeked_token := None\<rparr>)
      | None \<Rightarrow> scan_token s)"

definition peek_token :: "Lexer \<Rightarrow> Token \<times> Lexer" where
  "peek_token s =
     (case peeked_token s of
        None \<Rightarrow> (let (t, s') = scan_token s in (t, s'\<lparr>peeked_token := Some t\<rparr>))
      | Some t \<Rightarrow> (t, s))"

definition has_more_tokens :: "Lexer \<Rightarrow> bool" where
  "has_more_tokens s = (\<not> is_at_end s)"


section \<open>The lexer makes progress\<close>

text \<open>
  \<open>lex_step s s'\<close>: scanning went from \<open>s\<close> to \<open>s'\<close> over the same buffer, without touching the
  lookahead slot and without moving backwards.
\<close>

definition lex_step :: "Lexer \<Rightarrow> Lexer \<Rightarrow> bool" where
  "lex_step s s' =
     (source s' = source s \<and> peeked_token s' = peeked_token s \<and> position s \<le> position s')"

lemma lex_step_refl [simp]: "lex_step s s"
  by (simp add: lex_step_def)

lemma lex_step_trans: "lex_step a b \<Longrightarrow> lex_step b c \<Longrightarrow> lex_step a c"
  by (auto simp: lex_step_def)

lemma lex_step_advance [simp]: "lex_step s (Lexer_advance s)"
  by (simp add: lex_step_def position_advance)

lemma position_advance_strict: "\<not> is_at_end s \<Longrightarrow> position (Lexer_advance s) = position s + 1"
  by (simp add: Lexer_advance_def)

lemma lex_step_report_error [simp]: "lex_step s (Lexer_report_error s m)"
  by (simp add: lex_step_def Lexer_report_error_def)

lemma lex_step_make_error_token [simp]: "lex_step s (snd (make_error_token s m))"
  by (simp add: make_error_token_def)

lemma ttype_make_error_token [simp]: "ttype (fst (make_error_token s m)) = TT_ERROR"
  by (simp add: make_error_token_def Token_error_ctor_def)

lemma ttype_Token_ctor [simp]: "ttype (Token_ctor t l a b) = t"
  by (simp add: Token_ctor_def)

lemma skip_whitespace_step: "lex_step s (skip_whitespace s)"
proof (induction s rule: skip_whitespace.induct)
  case (1 s)
  show ?case
  proof (cases "\<not> is_at_end s \<and> is_whitespace (current_char s) \<and> current_char s \<noteq> CHR 0x0A")
    case True
    then have "lex_step (Lexer_advance s) (skip_whitespace (Lexer_advance s))"
      using "1.IH" by simp
    then have "lex_step s (skip_whitespace (Lexer_advance s))"
      using lex_step_advance lex_step_trans by blast
    then show ?thesis
      using True by (subst skip_whitespace.simps) simp
  next
    case False
    then show ?thesis
      by (subst skip_whitespace.simps) auto
  qed
qed

lemma scan_while_step: "lex_step s (fst (scan_while P s lx))"
proof (induction P s lx rule: scan_while.induct)
  case (1 P s lx)
  show ?case
  proof (cases "\<not> is_at_end s \<and> P (current_char s)")
    case True
    then have "lex_step (Lexer_advance s) (fst (scan_while P (Lexer_advance s) (lx @ [current_char s])))"
      using "1.IH" by simp
    then have "lex_step s (fst (scan_while P (Lexer_advance s) (lx @ [current_char s])))"
      using lex_step_advance lex_step_trans by blast
    then show ?thesis
      using True by (subst scan_while.simps) simp
  next
    case False
    then show ?thesis
      by (subst scan_while.simps) auto
  qed
qed

lemma scan_while_strict:
  assumes "\<not> is_at_end s" and "P (current_char s)"
  shows "position s < position (fst (scan_while P s lx))"
proof -
  have "lex_step (Lexer_advance s) (fst (scan_while P (Lexer_advance s) (lx @ [current_char s])))"
    by (rule scan_while_step)
  then have "position (Lexer_advance s) \<le> position (fst (scan_while P s lx))"
    using assms by (subst scan_while.simps) (simp add: lex_step_def)
  then show ?thesis
    using assms(1) by (simp add: position_advance_strict)
qed

lemma scan_while_pair_step: "lex_step (fst sl) (fst (case sl of (s, lx) \<Rightarrow> scan_while P s lx))"
  by (cases sl) (simp add: scan_while_step)

lemma take_char_step: "lex_step (fst sl) (fst (take_char sl))"
  by (cases sl) (simp add: take_char_def)

lemma take_char_strict:
  "\<not> is_at_end (fst sl) \<Longrightarrow> position (fst (take_char sl)) = position (fst sl) + 1"
  by (cases sl) (simp add: take_char_def position_advance_strict)

lemma number_sign_step: "lex_step (fst sl) (fst (number_sign sl))"
  by (simp add: number_sign_def take_char_step)

lemma number_radix_step: "lex_step (fst sl) (fst (number_radix P sl))"
  unfolding number_radix_def
  using lex_step_trans [OF take_char_step [of sl]
          lex_step_trans [OF take_char_step [of "take_char sl"]
            scan_while_pair_step [of "take_char (take_char sl)" P]]]
  by simp

lemma number_radix_strict:
  assumes "\<not> is_at_end (fst sl)"
  shows "position (fst sl) < position (fst (number_radix P sl))"
proof -
  have "lex_step (fst (take_char sl)) (fst (number_radix P sl))"
    unfolding number_radix_def
    using lex_step_trans [OF take_char_step [of "take_char sl"]
            scan_while_pair_step [of "take_char (take_char sl)" P]]
    by simp
  then show ?thesis
    using take_char_strict [OF assms] by (simp add: lex_step_def)
qed

lemma number_fraction_step: "lex_step (fst sl) (fst (number_fraction sl))"
  unfolding number_fraction_def
  using lex_step_trans [OF take_char_step [of sl] scan_while_pair_step [of "take_char sl" is_digit]]
  by simp

lemma number_exponent_step: "lex_step (fst sl) (fst (number_exponent sl))"
proof -
  let ?sl1 = "take_char sl"
  let ?sl2 = "if \<not> is_at_end (fst ?sl1) \<and>
                  (current_char (fst ?sl1) = CHR ''+'' \<or> current_char (fst ?sl1) = CHR ''-'')
              then take_char ?sl1 else ?sl1"
  have a: "lex_step (fst sl) (fst ?sl1)" by (rule take_char_step)
  have b: "lex_step (fst ?sl1) (fst ?sl2)" by (simp add: take_char_step)
  have c: "lex_step (fst ?sl2) (fst (case ?sl2 of (s, lx) \<Rightarrow> scan_while is_digit s lx))"
    by (rule scan_while_pair_step)
  have "lex_step (fst sl) (fst (case ?sl2 of (s, lx) \<Rightarrow> scan_while is_digit s lx))"
    using a b c lex_step_trans by blast
  then show ?thesis
    by (simp add: number_exponent_def Let_def)
qed

lemma scan_number_step: "lex_step s (snd (scan_number s))"
proof -
  let ?sl1 = "number_sign (s, [])"
  have a: "lex_step s (fst ?sl1)"
    using number_sign_step [of "(s, [])"] by simp
  have d: "lex_step (fst ?sl1)
             (fst (number_exponent (number_fraction
                (case ?sl1 of (t, lx) \<Rightarrow> scan_while is_digit t lx))))"
    using lex_step_trans [OF scan_while_pair_step [of ?sl1 is_digit]
            lex_step_trans [OF number_fraction_step number_exponent_step]]
    by blast
  show ?thesis
    unfolding scan_number_def Let_def
    using lex_step_trans [OF a number_radix_step] lex_step_trans [OF a d]
    by simp
qed

lemma scan_number_strict:
  assumes "\<not> is_at_end s"
    and "is_digit (current_char s) \<or> (current_char s = CHR ''-'' \<and> is_digit (peek_char s 1))"
  shows "position s < position (snd (scan_number s))"
proof -
  let ?sl1 = "number_sign (s, [])"
  let ?dec = "case ?sl1 of (t, lx) \<Rightarrow> scan_while is_digit t lx"
  have rest: "lex_step (fst ?dec) (fst (number_exponent (number_fraction ?dec)))"
    using lex_step_trans [OF number_fraction_step number_exponent_step] by blast
  show ?thesis
  proof (cases "current_char s = CHR ''-''")
    case True
    then have "position (fst ?sl1) = position s + 1"
      using assms(1) take_char_strict [of "(s, [])"] by (simp add: number_sign_def)
    moreover have "lex_step (fst ?sl1) (snd (scan_number s))"
      unfolding scan_number_def Let_def
      using number_radix_step lex_step_trans [OF scan_while_pair_step [of ?sl1 is_digit] rest]
      by simp
    ultimately show ?thesis by (simp add: lex_step_def)
  next
    case False
    then have sl1: "?sl1 = (s, [])" by (simp add: number_sign_def)
    have dig: "is_digit (current_char s)" using assms(2) False by simp
    have "position s < position (fst ?dec)"
      using scan_while_strict [OF assms(1), of is_digit, OF dig] by (simp add: sl1)
    then have "position s < position (fst (number_exponent (number_fraction ?dec)))"
      using rest by (simp add: lex_step_def)
    moreover have "\<And>P. position s < position (fst (number_radix P ?sl1))"
      using number_radix_strict [of "(s, [])"] assms(1) by (simp add: sl1)
    ultimately show ?thesis
      unfolding scan_number_def Let_def by simp
  qed
qed


lemma scan_identifier_step: "lex_step s (snd (scan_identifier_or_keyword s))"
  using scan_while_step [of s "\<lambda>c. is_letter c \<or> is_digit c \<or> c = CHR ''_''" "[]"]
  by (auto simp: scan_identifier_or_keyword_def Let_def split: prod.splits)

lemma scan_identifier_strict:
  assumes "\<not> is_at_end s" and "is_letter (current_char s) \<or> current_char s = CHR ''_''"
  shows "position s < position (snd (scan_identifier_or_keyword s))"
  using scan_while_strict [OF assms(1), of "\<lambda>c. is_letter c \<or> is_digit c \<or> c = CHR ''_''" "[]"]
    assms(2)
  by (auto simp: scan_identifier_or_keyword_def Let_def split: prod.splits)

lemma scan_string_step_Inr: "scan_string_step s lx = Inr (s', lx') \<Longrightarrow> lex_step s s'"
proof -
  assume a: "scan_string_step s lx = Inr (s', lx')"
  have 1: "lex_step s (Lexer_advance (Lexer_advance s))"
    using lex_step_trans [OF lex_step_advance lex_step_advance] .
  have 2: "lex_step s (Lexer_advance (Lexer_advance (Lexer_advance (Lexer_advance s))))"
    using lex_step_trans [OF 1 lex_step_trans [OF lex_step_advance lex_step_advance]] .
  show ?thesis
    using a 1 2 by (auto simp: scan_string_step_def Let_def split: if_splits)
qed

lemma position_report_error [simp]: "position (Lexer_report_error s m) = position s"
  by (simp add: Lexer_report_error_def)

lemma make_error_token_eqD:
  "make_error_token u m = (t, s') \<Longrightarrow> ttype t = TT_ERROR \<and> s' = Lexer_report_error u m"
  by (auto simp: make_error_token_def Token_error_ctor_def)

lemma scan_string_step_Inl:
  "scan_string_step s lx = Inl (t, s') \<Longrightarrow> lex_step s s' \<and> ttype t = TT_ERROR"
proof -
  assume a: "scan_string_step s lx = Inl (t, s')"
  have e: "\<And>u m. lex_step s u \<Longrightarrow> lex_step s (Lexer_report_error u m)"
    using lex_step_trans lex_step_report_error by blast
  have 1: "lex_step s (Lexer_advance (Lexer_advance s))"
    using lex_step_trans [OF lex_step_advance lex_step_advance] .
  have 2: "lex_step s (Lexer_advance (Lexer_advance (Lexer_advance s)))"
    using lex_step_trans [OF 1 lex_step_advance] .
  show ?thesis
    using a e [OF lex_step_advance] e [OF 1] e [OF 2]
    by (auto simp: scan_string_step_def Let_def split: if_splits dest!: make_error_token_eqD)
qed

lemma scan_string_loop_step:
  "(case scan_string_loop s lx of
      Inl (t, s') \<Rightarrow> lex_step s s' \<and> ttype t = TT_ERROR
    | Inr (s', lx') \<Rightarrow> lex_step s s')"
proof (induction s lx rule: scan_string_loop.induct)
  case (1 s lx)
  show ?case
  proof (cases "\<not> is_at_end s \<and> current_char s \<noteq> CHR 0x22")
    case False
    then show ?thesis by (subst scan_string_loop.simps) auto
  next
    case True
    show ?thesis
    proof (cases "scan_string_step s lx")
      case (Inl e)
      then show ?thesis
        using True scan_string_step_Inl [of s lx "fst e" "snd e"]
        by (subst scan_string_loop.simps) (auto split: prod.splits)
    next
      case (Inr r)
      obtain s1 lx1 where r: "r = (s1, lx1)" by (cases r)
      have st: "lex_step s s1" using Inr r scan_string_step_Inr by blast
      have ih: "case scan_string_loop s1 lx1 of
                  Inl (t, s') \<Rightarrow> lex_step s1 s' \<and> ttype t = TT_ERROR
                | Inr (s', lx') \<Rightarrow> lex_step s1 s'"
        using "1.IH" [OF True Inr r [symmetric]] by simp
      have eq: "scan_string_loop s lx = scan_string_loop s1 lx1"
        using True Inr r by (subst scan_string_loop.simps) simp
      show ?thesis
        unfolding eq using ih st
        by (auto split: sum.splits prod.splits intro: lex_step_trans)
    qed
  qed
qed

lemma scan_string_strict:
  assumes "\<not> is_at_end s"
  shows "lex_step s (snd (scan_string s)) \<and> position s < position (snd (scan_string s))"
proof -
  let ?s1 = "Lexer_advance s"
  have p: "position ?s1 = position s + 1" using assms by (rule position_advance_strict)
  have a: "lex_step s ?s1" by simp
  have l: "case scan_string_loop ?s1 [] of
             Inl (t, s') \<Rightarrow> lex_step ?s1 s' \<and> ttype t = TT_ERROR
           | Inr (s', lx') \<Rightarrow> lex_step ?s1 s'"
    by (rule scan_string_loop_step)
  have "lex_step ?s1 (snd (scan_string s))"
    using l lex_step_trans [OF _ lex_step_make_error_token] lex_step_trans [OF _ lex_step_advance]
    by (auto simp: scan_string_def Let_def split: sum.splits prod.splits)
  then show ?thesis
    using a p by (auto simp: lex_step_def)
qed

lemma scan_single_line_comment_strict:
  assumes "\<not> is_at_end s"
  shows "lex_step s (snd (scan_single_line_comment s)) \<and>
         position s < position (snd (scan_single_line_comment s))"
proof -
  let ?s1 = "Lexer_advance (Lexer_advance s)"
  have "lex_step (Lexer_advance s) (fst (scan_while (\<lambda>c. c \<noteq> CHR 0x0A) ?s1 []))"
    using lex_step_trans [OF lex_step_advance scan_while_step] .
  then have "lex_step (Lexer_advance s) (snd (scan_single_line_comment s))"
    by (auto simp: scan_single_line_comment_def Let_def split: prod.splits)
  then show ?thesis
    using position_advance_strict [OF assms] by (auto simp: lex_step_def)
qed

lemma multi_line_comment_loop_step:
  "(case multi_line_comment_loop s lx of
      Inl (s', lx') \<Rightarrow> lex_step s s'
    | Inr s' \<Rightarrow> lex_step s s')"
proof (induction s lx rule: multi_line_comment_loop.induct)
  case (1 s lx)
  show ?case
  proof (cases "is_at_end s")
    case True
    then show ?thesis by (subst multi_line_comment_loop.simps) simp
  next
    case False
    show ?thesis
    proof (cases "current_char s = CHR ''*'' \<and> peek_char s 1 = CHR ''/''")
      case True
      then show ?thesis
        using False lex_step_trans [OF lex_step_advance lex_step_advance, of s]
        by (subst multi_line_comment_loop.simps) simp
    next
      case nc: False
      have eq: "multi_line_comment_loop s lx =
                  multi_line_comment_loop (Lexer_advance s) (lx @ [current_char s])"
        using False nc by (subst multi_line_comment_loop.simps) auto
      show ?thesis
        unfolding eq using "1.IH" [OF False nc]
        by (auto split: sum.splits prod.splits intro: lex_step_trans [OF lex_step_advance])
    qed
  qed
qed

lemma scan_multi_line_comment_strict:
  assumes "\<not> is_at_end s"
  shows "lex_step s (snd (scan_multi_line_comment s)) \<and>
         position s < position (snd (scan_multi_line_comment s))"
proof -
  let ?s1 = "Lexer_advance (Lexer_advance s)"
  have l: "case multi_line_comment_loop ?s1 [] of
             Inl (s', lx') \<Rightarrow> lex_step ?s1 s'
           | Inr s' \<Rightarrow> lex_step ?s1 s'"
    by (rule multi_line_comment_loop_step)
  have "lex_step ?s1 (snd (scan_multi_line_comment s))"
    using l lex_step_trans [OF _ lex_step_make_error_token]
    by (auto simp: scan_multi_line_comment_def Let_def split: sum.splits prod.splits)
  then have "lex_step (Lexer_advance s) (snd (scan_multi_line_comment s))"
    using lex_step_trans [OF lex_step_advance] by blast
  then show ?thesis
    using position_advance_strict [OF assms] by (auto simp: lex_step_def)
qed


text \<open>
  \<open>consumes s r\<close>: the scan result \<open>r\<close> (a token and the scanner after it) has read at least
  one byte from \<open>s\<close> and its token is not \<^verbatim>\<open>END_OF_FILE\<close>.
\<close>

definition consumes :: "Lexer \<Rightarrow> Token \<times> Lexer \<Rightarrow> bool" where
  "consumes s r =
     (lex_step s (snd r) \<and> position s < position (snd r) \<and> ttype (fst r) \<noteq> TT_END_OF_FILE)"

lemma identify_keyword_not_eof: "identify_keyword w \<noteq> TT_END_OF_FILE"
  by (simp add: identify_keyword_def keyword_table_def)

lemma consumes_single:
  "\<not> is_at_end s \<Longrightarrow> t \<noteq> TT_END_OF_FILE \<Longrightarrow> consumes s (Token_ctor t l a b, Lexer_advance s)"
  by (simp add: consumes_def position_advance_strict)

lemma consumes_unknown:
  "\<not> is_at_end s \<Longrightarrow> consumes s (make_error_token (Lexer_advance s) m)"
  using lex_step_trans [OF lex_step_advance lex_step_make_error_token, of s m]
  by (simp add: consumes_def position_advance_strict make_error_token_def
        Token_error_ctor_def)

lemma consumes_scan_number:
  "\<not> is_at_end s \<Longrightarrow>
   is_digit (current_char s) \<or> (current_char s = CHR ''-'' \<and> is_digit (peek_char s 1)) \<Longrightarrow>
   consumes s (scan_number s)"
  using scan_number_step [of s] scan_number_strict [of s]
  by (simp add: consumes_def) (simp add: scan_number_def Let_def)

lemma consumes_scan_identifier:
  "\<not> is_at_end s \<Longrightarrow> is_letter (current_char s) \<or> current_char s = CHR ''_'' \<Longrightarrow>
   consumes s (scan_identifier_or_keyword s)"
  using scan_identifier_step [of s] scan_identifier_strict [of s]
  by (simp add: consumes_def)
     (simp add: scan_identifier_or_keyword_def Let_def identify_keyword_not_eof
        split: prod.splits)

lemma consumes_scan_string: "\<not> is_at_end s \<Longrightarrow> consumes s (scan_string s)"
  using scan_string_strict [of s] scan_string_loop_step [of "Lexer_advance s" "[]"]
  by (simp add: consumes_def)
     (auto simp: scan_string_def Let_def split: sum.splits prod.splits)

lemma consumes_scan_single_line_comment:
  "\<not> is_at_end s \<Longrightarrow> consumes s (scan_single_line_comment s)"
  using scan_single_line_comment_strict [of s]
  by (simp add: consumes_def)
     (simp add: scan_single_line_comment_def Let_def split: prod.splits)

lemma consumes_scan_multi_line_comment:
  "\<not> is_at_end s \<Longrightarrow> consumes s (scan_multi_line_comment s)"
  using scan_multi_line_comment_strict [of s]
  by (simp add: consumes_def)
     (auto simp: scan_multi_line_comment_def Let_def split: sum.splits prod.splits)

text \<open>What a call of \<open>scan_token\<close> does to the scanner, by the kind of token it returns.\<close>

lemma scan_token_at_end:
  "is_at_end (skip_whitespace s) \<Longrightarrow>
   ttype (fst (scan_token s)) = TT_END_OF_FILE \<and> snd (scan_token s) = skip_whitespace s"
  by (simp add: scan_token_def Let_def)

lemma scan_token_consumes:
  "\<not> is_at_end (skip_whitespace s) \<Longrightarrow> consumes (skip_whitespace s) (scan_token s)"
  by (simp add: scan_token_def Let_def consumes_single consumes_unknown consumes_scan_number
        consumes_scan_identifier consumes_scan_string consumes_scan_single_line_comment
        consumes_scan_multi_line_comment)


text \<open>What is left to deliver: the unread bytes, and the buffered token if there is one.\<close>

definition lexer_measure :: "Lexer \<Rightarrow> nat" where
  "lexer_measure s = remaining s + (case peeked_token s of None \<Rightarrow> 0 | Some t \<Rightarrow> 1)"

lemma next_token_measure:
  assumes "next_token s = (t, s')" and "ttype t \<noteq> TT_END_OF_FILE"
  shows "lexer_measure s' < lexer_measure s"
proof (cases "peeked_token s")
  case (Some tok)
  then show ?thesis
    using assms(1) by (auto simp: next_token_def lexer_measure_def remaining_def)
next
  case None
  let ?w = "skip_whitespace s"
  have r: "scan_token s = (t, s')" using assms(1) None by (simp add: next_token_def)
  have ne: "\<not> is_at_end ?w"
    using scan_token_at_end [of s] r assms(2) by auto
  have c: "consumes ?w (t, s')"
    using scan_token_consumes [OF ne] r by simp
  have w: "lex_step s ?w" by (rule skip_whitespace_step)
  show ?thesis
    using c w ne None
    by (auto simp: consumes_def lex_step_def lexer_measure_def remaining_def is_at_end_def)
qed

text \<open>
  The loop of the lexer harness (fuzzing/fuzz\_lexer.cpp, tests/performance\_tests.cpp):
  \<^verbatim>\<open>while (true) { auto token = lexer.next_token(); if (token.type == END_OF_FILE) break; }\<close>
  collecting the tokens it reads, the final \<^verbatim>\<open>END_OF_FILE\<close> included.
\<close>

function tokenize :: "Lexer \<Rightarrow> Token list" where
  "tokenize s =
     (case next_token s of
        (t, s') \<Rightarrow> if ttype t = TT_END_OF_FILE then [t] else t # tokenize s')"
  by pat_completeness auto
termination
  by (relation "measure lexer_measure") (auto simp: next_token_measure [OF sym])

declare tokenize.simps [simp del]

text \<open>The scanner after \<open>n\<close> calls of \<open>next_token\<close> on a fresh lexer over \<open>src\<close>.\<close>

definition after_calls :: "string \<Rightarrow> nat \<Rightarrow> Lexer" where
  "after_calls src n = ((\<lambda>s. snd (next_token s)) ^^ n) (Lexer_ctor src)"

text \<open>
  A byte that starts no token: \<open>scan_token\<close> reaches its last branch on it.
\<close>

definition unknown_byte_at :: "Lexer \<Rightarrow> bool" where
  "unknown_byte_at s =
     (\<not> is_at_end s \<and> \<not> is_whitespace (current_char s) \<and>
      \<not> (current_char s = CHR ''/'' \<and> (peek_char s 1 = CHR ''/'' \<or> peek_char s 1 = CHR ''*'')) \<and>
      current_char s \<noteq> CHR '':'' \<and> current_char s \<noteq> CHR '','' \<and>
      current_char s \<noteq> CHR ''{'' \<and> current_char s \<noteq> CHR ''}'' \<and>
      current_char s \<noteq> CHR ''<'' \<and> current_char s \<noteq> CHR ''>'' \<and>
      current_char s \<noteq> CHR ''('' \<and> current_char s \<noteq> CHR '')'' \<and>
      current_char s \<noteq> CHR 0x22 \<and>
      \<not> is_digit (current_char s) \<and>
      \<not> (current_char s = CHR ''-'' \<and> is_digit (peek_char s 1)) \<and>
      \<not> is_letter (current_char s) \<and> current_char s \<noteq> CHR ''_'')"

lemma next_token_no_peek:
  assumes "peeked_token s = None"
  shows "peeked_token (snd (next_token s)) = None \<and> source (snd (next_token s)) = source s \<and>
         position s \<le> position (snd (next_token s))"
proof (cases "is_at_end (skip_whitespace s)")
  case True
  then show ?thesis
    using assms scan_token_at_end [OF True] skip_whitespace_step [of s]
    by (simp add: next_token_def lex_step_def)
next
  case False
  then show ?thesis
    using assms scan_token_consumes [OF False] skip_whitespace_step [of s]
    by (simp add: next_token_def lex_step_def consumes_def)
qed

lemma after_calls_Suc: "after_calls src (Suc n) = snd (next_token (after_calls src n))"
  by (simp add: after_calls_def)

lemma after_calls_inv:
  "peeked_token (after_calls src n) = None \<and> source (after_calls src n) = src"
proof (induction n)
  case 0
  show ?case by (simp add: after_calls_def Lexer_ctor_def)
next
  case (Suc n)
  then show ?case
    using next_token_no_peek [of "after_calls src n"] by (simp add: after_calls_Suc)
qed

lemma next_token_progress:
  assumes "peeked_token s = None"
  shows "ttype (fst (next_token s)) = TT_END_OF_FILE \<or> position s < position (snd (next_token s))"
proof (cases "is_at_end (skip_whitespace s)")
  case True
  then show ?thesis
    using assms scan_token_at_end [OF True] by (simp add: next_token_def)
next
  case False
  then show ?thesis
    using assms scan_token_consumes [OF False] skip_whitespace_step [of s]
    by (simp add: next_token_def lex_step_def consumes_def)
qed

lemma skip_whitespace_at_end: "is_at_end s \<Longrightarrow> skip_whitespace s = s"
  by (subst skip_whitespace.simps) simp

lemma next_token_at_end:
  assumes "peeked_token s = None" and "is_at_end s"
  shows "ttype (fst (next_token s)) = TT_END_OF_FILE \<and> snd (next_token s) = s"
  using assms scan_token_at_end [of s] by (simp add: next_token_def skip_whitespace_at_end)

lemma after_calls_at_end:
  assumes "is_at_end (after_calls src n)"
  shows "after_calls src (n + m) = after_calls src n"
proof (induction m)
  case 0
  show ?case by simp
next
  case (Suc m)
  then show ?case
    using next_token_at_end [of "after_calls src n"] after_calls_inv [of src n] assms
    by (simp add: after_calls_Suc)
qed

lemma errors_advance [simp]: "lx_errors (Lexer_advance s) = lx_errors s"
  by (simp add: Lexer_advance_def)

lemma skip_whitespace_errors: "lx_errors (skip_whitespace s) = lx_errors s"
proof (induction s rule: skip_whitespace.induct)
  case (1 s)
  show ?case
  proof (cases "\<not> is_at_end s \<and> is_whitespace (current_char s) \<and> current_char s \<noteq> CHR 0x0A")
    case True
    then show ?thesis
      using "1.IH" by (subst skip_whitespace.simps) simp
  next
    case False
    then show ?thesis
      by (subst skip_whitespace.simps) auto
  qed
qed

lemma next_token_unknown_byte:
  assumes "peeked_token s = None" and "unknown_byte_at (skip_whitespace s)"
  shows "next_token s =
           make_error_token (Lexer_advance (skip_whitespace s))
             (''Unexpected character: '' @ [CHR 0x27] @ [current_char (skip_whitespace s)] @
              [CHR 0x27])"
  using assms
  by (auto simp: next_token_def scan_token_def Let_def unknown_byte_at_def is_whitespace_def)

lemma tokenize_ends_with_eof:
  "tokenize s \<noteq> [] \<and> ttype (last (tokenize s)) = TT_END_OF_FILE \<and>
   (\<forall>t \<in> set (butlast (tokenize s)). ttype t \<noteq> TT_END_OF_FILE) \<and>
   length (tokenize s) \<le> lexer_measure s + 1"
proof (induction s rule: tokenize.induct)
  case (1 s)
  obtain t s' where r: "next_token s = (t, s')" by (cases "next_token s")
  show ?case
  proof (cases "ttype t = TT_END_OF_FILE")
    case True
    then show ?thesis using r by (subst (1 2 3 4) tokenize.simps) simp
  next
    case False
    have eq: "tokenize s = t # tokenize s'"
      using r False by (subst tokenize.simps) simp
    have ih: "tokenize s' \<noteq> [] \<and> ttype (last (tokenize s')) = TT_END_OF_FILE \<and>
         (\<forall>t \<in> set (butlast (tokenize s')). ttype t \<noteq> TT_END_OF_FILE) \<and>
         length (tokenize s') \<le> lexer_measure s' + 1"
      using "1.IH" [OF r [symmetric] False] .
    show ?thesis
      unfolding eq using ih False next_token_measure [OF r False] by auto
  qed
qed

section \<open>Claims about the lexer\<close>

text \<open>
  Claim C6. For every input byte string \<open>src\<close> and every number \<open>n\<close> of earlier calls, the
  next call of \<^verbatim>\<open>next_token()\<close> either returns \<^verbatim>\<open>END_OF_FILE\<close> or moves the scanning position
  forward by at least one byte, over the same buffer; when the first byte after the skipped
  blanks starts no token, the call returns an \<^verbatim>\<open>ERROR\<close> token, records one diagnostic and
  leaves the scanner one byte further, so that the following calls go on from there; once
  the position has reached the end of the input, this call and every later one return
  \<^verbatim>\<open>END_OF_FILE\<close>; and the loop that tokenizes to exhaustion terminates (\<open>tokenize\<close> is a
  total function, by its termination proof), its last token is \<^verbatim>\<open>END_OF_FILE\<close> and it
  reads at most one token per input byte before it.
\<close>

theorem lexer_totality:
  "(ttype (fst (next_token (after_calls src n))) = TT_END_OF_FILE \<or>
      position (after_calls src n) < position (snd (next_token (after_calls src n)))) \<and>
   source (after_calls src n) = src \<and>
   (unknown_byte_at (skip_whitespace (after_calls src n)) \<longrightarrow>
      ttype (fst (next_token (after_calls src n))) = TT_ERROR \<and>
      position (after_calls src (Suc n)) = position (skip_whitespace (after_calls src n)) + 1 \<and>
      length (lx_errors (after_calls src (Suc n))) = length (lx_errors (after_calls src n)) + 1) \<and>
   (length src \<le> position (after_calls src n) \<longrightarrow>
      (\<forall>m. ttype (fst (next_token (after_calls src (n + m)))) = TT_END_OF_FILE)) \<and>
   tokenize (Lexer_ctor src) \<noteq> [] \<and>
   ttype (last (tokenize (Lexer_ctor src))) = TT_END_OF_FILE \<and>
   length (tokenize (Lexer_ctor src)) \<le> length src + 1"
proof -
  let ?s = "after_calls src n"
  have inv: "peeked_token ?s = None" "source ?s = src"
    using after_calls_inv [of src n] by simp_all
  have a: "ttype (fst (next_token ?s)) = TT_END_OF_FILE \<or>
           position ?s < position (snd (next_token ?s))"
    using next_token_progress [OF inv(1)] .
  have sw: "lx_errors (skip_whitespace ?s) = lx_errors ?s"
    by (rule skip_whitespace_errors)
  have b: "unknown_byte_at (skip_whitespace ?s) \<longrightarrow>
      ttype (fst (next_token ?s)) = TT_ERROR \<and>
      position (after_calls src (Suc n)) = position (skip_whitespace ?s) + 1 \<and>
      length (lx_errors (after_calls src (Suc n))) = length (lx_errors ?s) + 1"
  proof
    assume u: "unknown_byte_at (skip_whitespace ?s)"
    have ne: "\<not> is_at_end (skip_whitespace ?s)" using u by (simp add: unknown_byte_at_def)
    show "ttype (fst (next_token ?s)) = TT_ERROR \<and>
      position (after_calls src (Suc n)) = position (skip_whitespace ?s) + 1 \<and>
      length (lx_errors (after_calls src (Suc n))) = length (lx_errors ?s) + 1"
      unfolding after_calls_Suc next_token_unknown_byte [OF inv(1) u]
      using ne sw
      by (simp add: make_error_token_def Token_error_ctor_def position_advance_strict
            Lexer_report_error_def Lexer_advance_def)
  qed
  have c: "length src \<le> position ?s \<longrightarrow>
      (\<forall>m. ttype (fst (next_token (after_calls src (n + m)))) = TT_END_OF_FILE)"
  proof
    assume "length src \<le> position ?s"
    then have e: "is_at_end ?s" using inv(2) by (simp add: is_at_end_def)
    show "\<forall>m. ttype (fst (next_token (after_calls src (n + m)))) = TT_END_OF_FILE"
      using after_calls_at_end [OF e] next_token_at_end [OF inv(1) e] by simp
  qed
  have d: "tokenize (Lexer_ctor src) \<noteq> [] \<and>
     ttype (last (tokenize (Lexer_ctor src))) = TT_END_OF_FILE \<and>
     length (tokenize (Lexer_ctor src)) \<le> length src + 1"
    using tokenize_ends_with_eof [of "Lexer_ctor src"]
    by (simp add: lexer_measure_def remaining_def Lexer_ctor_def)
  show ?thesis using a inv(2) b c d by blast
qed


text \<open>
  The hypotheses of C6 hold on the input \<^verbatim>\<open>@\<close>: its only byte starts no token, and after one
  call the input is exhausted.
\<close>

theorem lexer_totality_witness:
  "unknown_byte_at (skip_whitespace (after_calls ''@'' 0)) \<and>
   ttype (fst (next_token (after_calls ''@'' 0))) = TT_ERROR \<and>
   position (after_calls ''@'' (Suc 0)) = position (skip_whitespace (after_calls ''@'' 0)) + 1 \<and>
   length ''@'' \<le> position (after_calls ''@'' 1) \<and>
   ttype (fst (next_token (after_calls ''@'' (1 + 2)))) = TT_END_OF_FILE"
proof -
  have u: "unknown_byte_at (skip_whitespace (after_calls ''@'' 0))"
    by code_simp
  have e: "length ''@'' \<le> position (after_calls ''@'' 1)"
    by code_simp
  show ?thesis
    using lexer_totality [of "''@''" 0] lexer_totality [of "''@''" 1] u e by blast
qed

text \<open>
  Claim C10. \<^verbatim>\<open>has_more_tokens()\<close> reports exactly whether the scanning position is still
  inside the buffer, whatever the lookahead slot holds. On the input \<^verbatim>\<open>x\<close>, after
  \<^verbatim>\<open>peek_token()\<close> has buffered the identifier, \<^verbatim>\<open>has_more_tokens()\<close> is false while
  \<^verbatim>\<open>next_token()\<close> still returns the buffered \<^verbatim>\<open>IDENTIFIER\<close> token; before the peek, on the same
  input, it is true.
\<close>

theorem has_more_tokens_ignores_peeked_token:
  "(\<forall>s. has_more_tokens s = (position s < length (source s))) \<and>
   (\<forall>s p. has_more_tokens (s\<lparr>peeked_token := p\<rparr>) = has_more_tokens s) \<and>
   has_more_tokens (Lexer_ctor ''x'') \<and>
   (case peek_token (Lexer_ctor ''x'') of
      (t, s) \<Rightarrow> \<not> has_more_tokens s \<and> peeked_token s = Some t \<and>
                fst (next_token s) = t \<and> ttype t = TT_IDENTIFIER \<and> lexeme t = ''x'' \<and>
                ttype (fst (next_token (snd (next_token s)))) = TT_END_OF_FILE)"
proof -
  have "\<forall>s. has_more_tokens s = (position s < length (source s))"
    by (auto simp add: has_more_tokens_def is_at_end_def)
  moreover have "\<forall>s p. has_more_tokens (s\<lparr>peeked_token := p\<rparr>) = has_more_tokens s"
    by (simp add: has_more_tokens_def is_at_end_def)
  moreover have "has_more_tokens (Lexer_ctor ''x'')"
    by code_simp
  moreover have "case peek_token (Lexer_ctor ''x'') of
      (t, s) \<Rightarrow> \<not> has_more_tokens s \<and> peeked_token s = Some t \<and>
                fst (next_token s) = t \<and> ttype t = TT_IDENTIFIER \<and> lexeme t = ''x'' \<and>
                ttype (fst (next_token (snd (next_token s)))) = TT_END_OF_FILE"
    by code_simp
  ultimately show ?thesis by blast
qed


section \<open>String literals: what the specification says, and what \<open>scan_string\<close> does\<close>

text \<open>
  The specification of string literals, in its own words: the value of a one-character
  escape \<^verbatim>\<open>\c\<close> (\<^verbatim>\<open>\n \t \r \0\<close> are the control characters; \<^verbatim>\<open>\\ \" \'\<close> and every other
  character stand for themselves), the value of a hex digit (case-insensitive), and the
  decoding of the text after the opening quote: \<open>None\<close> when the literal is unterminated or
  an \<^verbatim>\<open>\x\<close> is not followed by two hex digits.
\<close>

definition escape_value :: "char \<Rightarrow> char" where
  "escape_value c =
     (if c = CHR ''n'' then CHR 0x0A
      else if c = CHR ''t'' then CHR 0x09
      else if c = CHR ''r'' then CHR 0x0D
      else if c = CHR ''0'' then CHR 0x00
      else c)"

definition hex_value :: "char \<Rightarrow> nat" where
  "hex_value c =
     (if c \<in> set ''0123456789'' then of_char c - 48
      else if c \<in> set ''abcdef'' then of_char c - 87
      else of_char c - 55)"

definition hex_digits :: "char set" where
  "hex_digits = set ''0123456789abcdefABCDEF''"

fun decode_string :: "string \<Rightarrow> string option" where
  "decode_string [] = None"
| "decode_string (c # cs) =
     (if c = CHR 0x22 then Some []
      else if c = CHR 0x5C then
        (case cs of
           [] \<Rightarrow> None
         | e # r \<Rightarrow>
             if e = CHR ''x'' then
               (case r of
                  h1 # h2 # r' \<Rightarrow>
                    if h1 \<in> hex_digits \<and> h2 \<in> hex_digits
                    then map_option ((#) (char_of (16 * hex_value h1 + hex_value h2)))
                           (decode_string r')
                    else None
                | _ \<Rightarrow> None)
             else map_option ((#) (escape_value e)) (decode_string r))
      else map_option ((#) c) (decode_string cs))"


text \<open>The bytes not yet read.\<close>

definition rest :: "Lexer \<Rightarrow> string" where
  "rest s = drop (position s) (source s)"

lemma is_at_end_rest: "is_at_end s \<longleftrightarrow> rest s = []"
  by (simp add: is_at_end_def rest_def)

lemma rest_Cons:
  assumes "rest s = c # cs"
  shows "\<not> is_at_end s" and "current_char s = c" and "rest (Lexer_advance s) = cs"
proof -
  show ne: "\<not> is_at_end s" using assms by (simp add: is_at_end_rest)
  then have lt: "position s < length (source s)" by (simp add: is_at_end_def)
  have "rest s = source s ! position s # drop (Suc (position s)) (source s)"
    unfolding rest_def using lt by (simp add: Cons_nth_drop_Suc)
  then have c: "source s ! position s = c" and d: "drop (Suc (position s)) (source s) = cs"
    using assms by simp_all
  show "current_char s = c" using ne c by (simp add: current_char_def)
  show "rest (Lexer_advance s) = cs"
    using ne d by (simp add: rest_def Lexer_advance_def)
qed

lemma char_eq_code: "c = d \<longleftrightarrow> (of_char c :: nat) = of_char d"
  by auto

lemma digit_range: "(CHR ''0'' \<le> c \<and> c \<le> CHR ''9'') \<longleftrightarrow> c \<in> set ''0123456789''"
proof -
  define n :: nat where "n = of_char c"
  have "(48 \<le> n \<and> n \<le> 57) =
        (n = 48 \<or> n = 49 \<or> n = 50 \<or> n = 51 \<or> n = 52 \<or> n = 53 \<or> n = 54 \<or> n = 55 \<or>
         n = 56 \<or> n = 57)"
    by arith
  then show ?thesis
    by (simp add: less_eq_char_def char_eq_code [of c] n_def [symmetric])
qed

lemma lower_range: "(CHR ''a'' \<le> c \<and> c \<le> CHR ''f'') \<longleftrightarrow> c \<in> set ''abcdef''"
proof -
  define n :: nat where "n = of_char c"
  have "(97 \<le> n \<and> n \<le> 102) = (n = 97 \<or> n = 98 \<or> n = 99 \<or> n = 100 \<or> n = 101 \<or> n = 102)"
    by arith
  then show ?thesis
    by (simp add: less_eq_char_def char_eq_code [of c] n_def [symmetric])
qed

lemma upper_range: "(CHR ''A'' \<le> c \<and> c \<le> CHR ''F'') \<longleftrightarrow> c \<in> set ''ABCDEF''"
proof -
  define n :: nat where "n = of_char c"
  have "(65 \<le> n \<and> n \<le> 70) = (n = 65 \<or> n = 66 \<or> n = 67 \<or> n = 68 \<or> n = 69 \<or> n = 70)"
    by arith
  then show ?thesis
    by (simp add: less_eq_char_def char_eq_code [of c] n_def [symmetric])
qed

lemma hex_set: "c \<in> hex_digits \<longleftrightarrow> is_hex_digit c"
  unfolding is_hex_digit_def is_digit_def digit_range lower_range upper_range hex_digits_def
  by auto

lemma hex_digit_value_eq:
  assumes "is_hex_digit c"
  shows "hex_digit_value c = int (hex_value c) \<and> hex_value c < 16"
proof -
  define n :: nat where "n = of_char c"
  have i: "(of_char c :: int) = int n" by (simp add: n_def of_nat_of_char)
  have r: "(48 \<le> n \<and> n \<le> 57) \<or> (97 \<le> n \<and> n \<le> 102) \<or> (65 \<le> n \<and> n \<le> 70)"
    using assms by (simp add: is_hex_digit_def is_digit_def less_eq_char_def n_def)
  have d: "c \<in> set ''0123456789'' \<longleftrightarrow> 48 \<le> n \<and> n \<le> 57"
    unfolding digit_range [symmetric] by (simp add: less_eq_char_def n_def)
  have l: "c \<in> set ''abcdef'' \<longleftrightarrow> 97 \<le> n \<and> n \<le> 102"
    unfolding lower_range [symmetric] by (simp add: less_eq_char_def n_def)
  have v: "hex_value c = (if 48 \<le> n \<and> n \<le> 57 then n - 48
                          else if 97 \<le> n \<and> n \<le> 102 then n - 87 else n - 55)"
    unfolding hex_value_def d l by (simp add: n_def)
  have w: "hex_digit_value c = (if 48 \<le> n \<and> n \<le> 57 then int n - 48
                          else if 97 \<le> n \<and> n \<le> 102 then int n - 97 + 10
                          else if 65 \<le> n \<and> n \<le> 70 then int n - 65 + 10 else 0)"
    unfolding hex_digit_value_def i by (simp add: less_eq_char_def n_def)
  show ?thesis unfolding v w using r by auto
qed

lemma push_bit_or_add: "0 \<le> y \<Longrightarrow> y < 16 \<Longrightarrow> push_bit 4 (x::int) OR y = 16 * x + y"
proof -
  assume y: "0 \<le> y" "y < 16"
  have "push_bit 4 x + y = push_bit 4 x OR y"
  proof (rule disjunctive_add)
    fix n
    show "\<not> bit (push_bit 4 x) n \<or> \<not> bit y n"
    proof (cases "n < 4")
      case True
      then show ?thesis by (simp add: bit_push_bit_iff)
    next
      case False
      then have "(16::int) \<le> 2 ^ n" using power_increasing [of 4 n "2::int"] by simp
      then have "y < 2 ^ n" using y by simp
      then have "\<not> bit y n" using y(1) by (simp add: bit_iff_odd)
      then show ?thesis by simp
    qed
  qed
  then show ?thesis by (simp add: push_bit_eq_mult)
qed

lemma hex_combine:
  assumes "is_hex_digit a" and "is_hex_digit b"
  shows "(char_of (push_bit 4 (hex_digit_value a) OR hex_digit_value b) :: char) =
         char_of (16 * hex_value a + hex_value b)"
proof -
  have "push_bit 4 (hex_digit_value a) OR hex_digit_value b =
        int (16 * hex_value a + hex_value b)"
    using hex_digit_value_eq [OF assms(1)] hex_digit_value_eq [OF assms(2)]
    by (simp add: push_bit_or_add)
  then show ?thesis by (simp only: char_of_nat)
qed

text \<open>One iteration of the loop against one item of the body.\<close>

lemma scan_string_step_plain:
  assumes "rest s = c # cs" and "c \<noteq> CHR 0x5C"
  shows "scan_string_step s lx = Inr (Lexer_advance s, lx @ [c])"
  using rest_Cons [OF assms(1)] assms(2) by (simp add: scan_string_step_def)

lemma scan_string_step_dangling:
  assumes "rest s = [CHR 0x5C]"
  shows "\<exists>t s'. scan_string_step s lx = Inl (t, s') \<and> ttype t = TT_ERROR"
  using rest_Cons [OF assms]
  by (simp add: scan_string_step_def Let_def is_at_end_rest make_error_token_def
        Token_error_ctor_def)

lemma scan_string_step_simple:
  assumes "rest s = CHR 0x5C # e # r" and "e \<noteq> CHR ''x''"
  shows "scan_string_step s lx =
           Inr (Lexer_advance (Lexer_advance s), lx @ [escape_value e]) \<and>
         rest (Lexer_advance (Lexer_advance s)) = r"
proof -
  note a = rest_Cons [OF assms(1)]
  note b = rest_Cons [OF a(3)]
  show ?thesis
    using a b assms(2)
    by (auto simp: scan_string_step_def Let_def escape_value_def)
qed

lemma scan_string_step_hex:
  assumes "rest s = CHR 0x5C # CHR ''x'' # h1 # h2 # r"
    and "is_hex_digit h1" and "is_hex_digit h2"
  shows "scan_string_step s lx =
           Inr (Lexer_advance (Lexer_advance (Lexer_advance (Lexer_advance s))),
                lx @ [char_of (16 * hex_value h1 + hex_value h2)]) \<and>
         rest (Lexer_advance (Lexer_advance (Lexer_advance (Lexer_advance s)))) = r"
proof -
  note a = rest_Cons [OF assms(1)]
  note b = rest_Cons [OF a(3)]
  note c = rest_Cons [OF b(3)]
  note d = rest_Cons [OF c(3)]
  show ?thesis
    using a b c d assms(2,3)
    by (simp add: scan_string_step_def Let_def hex_combine)
qed

lemma scan_string_step_bad_hex:
  assumes "rest s = CHR 0x5C # CHR ''x'' # r"
    and "\<not> (\<exists>h1 h2 r'. r = h1 # h2 # r' \<and> is_hex_digit h1 \<and> is_hex_digit h2)"
  shows "\<exists>t s'. scan_string_step s lx = Inl (t, s') \<and> ttype t = TT_ERROR"
proof -
  note a = rest_Cons [OF assms(1)]
  note b = rest_Cons [OF a(3)]
  show ?thesis
  proof (cases r)
    case Nil
    then show ?thesis
      using a b
      by (simp add: scan_string_step_def Let_def is_at_end_rest make_error_token_def
            Token_error_ctor_def)
  next
    case (Cons h1 r1)
    note c = rest_Cons [OF b(3) [unfolded Cons]]
    show ?thesis
    proof (cases "is_hex_digit h1")
      case False
      then show ?thesis
        using a b c
        by (simp add: scan_string_step_def Let_def make_error_token_def Token_error_ctor_def)
    next
      case True
      show ?thesis
      proof (cases r1)
        case Nil
        then show ?thesis
          using a b c True
          by (simp add: scan_string_step_def Let_def is_at_end_rest make_error_token_def
                Token_error_ctor_def)
      next
        case (Cons h2 r2)
        note d = rest_Cons [OF c(3) [unfolded Cons]]
        have "\<not> is_hex_digit h2" using assms(2) True Cons \<open>r = h1 # r1\<close> by simp
        then show ?thesis
          using a b c d True
          by (simp add: scan_string_step_def Let_def make_error_token_def Token_error_ctor_def)
      qed
    qed
  qed
qed


text \<open>
  \<open>loop_agrees s lx r\<close>: the loop of \<^verbatim>\<open>scan_string\<close>, started in \<open>s\<close> with the lexeme \<open>lx\<close>,
  ends as the decoding \<open>r\<close> of the remaining bytes says: at the closing quote with the
  decoded characters appended, or else with an error token or at the end of the input.
\<close>

definition loop_agrees :: "Lexer \<Rightarrow> string \<Rightarrow> string option \<Rightarrow> bool" where
  "loop_agrees s lx r =
     (case r of
        Some str \<Rightarrow> (\<exists>s'. scan_string_loop s lx = Inr (s', lx @ str) \<and> \<not> is_at_end s')
      | None \<Rightarrow>
          (\<exists>t s'. scan_string_loop s lx = Inl (t, s') \<and> ttype t = TT_ERROR) \<or>
          (\<exists>s' lx'. scan_string_loop s lx = Inr (s', lx') \<and> is_at_end s'))"

lemma loop_agrees_Cons:
  "loop_agrees s' (lx @ [c]) r \<Longrightarrow> scan_string_loop s lx = scan_string_loop s' (lx @ [c]) \<Longrightarrow>
   loop_agrees s lx (map_option ((#) c) r)"
  by (cases r) (auto simp: loop_agrees_def)

lemma loop_agrees_error:
  assumes "\<exists>t s'. scan_string_step s lx = Inl (t, s') \<and> ttype t = TT_ERROR"
    and "\<not> is_at_end s" and "current_char s \<noteq> CHR 0x22"
  shows "loop_agrees s lx None"
  using assms by (subst loop_agrees_def, subst scan_string_loop.simps) auto

lemma scan_string_loop_decodes: "loop_agrees s lx (decode_string (rest s))"
proof (induction "length (rest s)" arbitrary: s lx rule: less_induct)
  case less
  show ?case
  proof (cases "rest s")
    case Nil
    then have "is_at_end s" by (simp add: is_at_end_rest)
    then show ?thesis
      unfolding Nil by (subst loop_agrees_def, subst scan_string_loop.simps) simp
  next
    case (Cons c cs)
    note a = rest_Cons [OF Cons]
    show ?thesis
    proof (cases "c = CHR 0x22")
      case True
      then show ?thesis
        unfolding Cons using a
        by (subst loop_agrees_def, subst scan_string_loop.simps) simp
    next
      case nq: False
      have enter: "\<not> is_at_end s \<and> current_char s \<noteq> CHR 0x22" using a nq by simp
      show ?thesis
      proof (cases "c = CHR 0x5C")
        case False
        have st: "scan_string_step s lx = Inr (Lexer_advance s, lx @ [c])"
          using scan_string_step_plain [OF Cons False] .
        have eq: "scan_string_loop s lx = scan_string_loop (Lexer_advance s) (lx @ [c])"
          using enter st by (subst scan_string_loop.simps) simp
        have "loop_agrees (Lexer_advance s) (lx @ [c]) (decode_string cs)"
          using less [of "Lexer_advance s" "lx @ [c]"] a(3) Cons by simp
        then show ?thesis
          unfolding Cons using loop_agrees_Cons [OF _ eq] nq False by simp
      next
        case bs: True
        show ?thesis
        proof (cases cs)
          case Nil
          then show ?thesis
            unfolding Cons
            using loop_agrees_error [OF scan_string_step_dangling] Cons bs enter nq by simp
        next
          case ecs: (Cons e r)
          show ?thesis
          proof (cases "e = CHR ''x''")
            case False
            let ?s2 = "Lexer_advance (Lexer_advance s)"
            have st: "scan_string_step s lx = Inr (?s2, lx @ [escape_value e])"
              and r: "rest ?s2 = r"
              using scan_string_step_simple [of s e r lx] Cons bs ecs False by simp_all
            have eq: "scan_string_loop s lx = scan_string_loop ?s2 (lx @ [escape_value e])"
              using enter st by (subst scan_string_loop.simps) simp
            have "loop_agrees ?s2 (lx @ [escape_value e]) (decode_string r)"
              using less [of ?s2 "lx @ [escape_value e]"] r Cons ecs by simp
            then show ?thesis
              unfolding Cons ecs using loop_agrees_Cons [OF _ eq] nq bs False by simp
          next
            case x: True
            show ?thesis
            proof (cases "\<exists>h1 h2 r'. r = h1 # h2 # r' \<and> is_hex_digit h1 \<and> is_hex_digit h2")
              case False
              have "loop_agrees s lx None"
                using loop_agrees_error [OF scan_string_step_bad_hex [of s r lx]]
                  Cons bs ecs x False enter by simp
              moreover have "decode_string (c # cs) = None"
                using False nq bs ecs x by (auto simp: hex_set split: list.splits)
              ultimately show ?thesis unfolding Cons by simp
            next
              case True
              then obtain h1 h2 r' where r: "r = h1 # h2 # r'"
                and h: "is_hex_digit h1" "is_hex_digit h2" by blast
              let ?s4 = "Lexer_advance (Lexer_advance (Lexer_advance (Lexer_advance s)))"
              let ?ch = "char_of (16 * hex_value h1 + hex_value h2) :: char"
              have st: "scan_string_step s lx = Inr (?s4, lx @ [?ch])" and r4: "rest ?s4 = r'"
                using scan_string_step_hex [of s h1 h2 r' lx] Cons bs ecs x r h by simp_all
              have eq: "scan_string_loop s lx = scan_string_loop ?s4 (lx @ [?ch])"
                using enter st by (subst scan_string_loop.simps) simp
              have "loop_agrees ?s4 (lx @ [?ch]) (decode_string r')"
                using less [of ?s4 "lx @ [?ch]"] r4 Cons ecs r by simp
              then show ?thesis
                unfolding Cons ecs r using loop_agrees_Cons [OF _ eq] nq bs x h
                by (simp add: hex_set)
            qed
          qed
        qed
      qed
    qed
  qed
qed

text \<open>
  Claim C7. Called at a position inside the buffer (on the opening quote),
  \<^verbatim>\<open>scan_string\<close> returns what the specification's decoding of the following bytes says: a
  \<^verbatim>\<open>STRING_LITERAL\<close> token at the position of the opening quote whose lexeme has
  \<^verbatim>\<open>\n \t \r \\ \" \' \0\<close> replaced by their characters, \<^verbatim>\<open>\xHH\<close> by the byte of value
  \<open>16 * H + H\<close> and any other \<^verbatim>\<open>\c\<close> by \<open>c\<close>; and an \<^verbatim>\<open>ERROR\<close> token when the literal is
  unterminated or an \<^verbatim>\<open>\x\<close> is not followed by two hex digits.
\<close>

theorem scan_string_decodes_escapes:
  assumes "position s < length (source s)"
  shows "case decode_string (drop (Suc (position s)) (source s)) of
           Some str \<Rightarrow>
             fst (scan_string s) = Token_ctor TT_STRING_LITERAL str (lx_line s) (lx_column s)
         | None \<Rightarrow> ttype (fst (scan_string s)) = TT_ERROR"
proof -
  have ne: "\<not> is_at_end s" using assms by (simp add: is_at_end_def)
  have r: "rest (Lexer_advance s) = drop (Suc (position s)) (source s)"
    using ne by (simp add: rest_def Lexer_advance_def)
  have "loop_agrees (Lexer_advance s) [] (decode_string (rest (Lexer_advance s)))"
    by (rule scan_string_loop_decodes)
  then show ?thesis
    unfolding r
    by (auto simp: loop_agrees_def scan_string_def Let_def make_error_token_def
          Token_error_ctor_def split: option.splits)
qed

text \<open>The literal \<^verbatim>\<open>"a\n\t\r\\\"\'\0\x4f\xFe\q"\<close>, with every kind of escape.\<close>

definition all_escapes :: string where
  "all_escapes =
     [CHR 0x22, CHR ''a'',
      CHR 0x5C, CHR ''n'', CHR 0x5C, CHR ''t'', CHR 0x5C, CHR ''r'', CHR 0x5C, CHR 0x5C,
      CHR 0x5C, CHR 0x22, CHR 0x5C, CHR 0x27, CHR 0x5C, CHR ''0'',
      CHR 0x5C, CHR ''x'', CHR ''4'', CHR ''f'', CHR 0x5C, CHR ''x'', CHR ''F'', CHR ''e'',
      CHR 0x5C, CHR ''q'', CHR 0x22]"

text \<open>
  The hypothesis of C7 holds on that literal, which decodes to the eleven bytes
  \<^verbatim>\<open>a\<close>, LF, TAB, CR, backslash, double quote, quote, NUL, \<^verbatim>\<open>O\<close>, \<open>0xFE\<close>, \<^verbatim>\<open>q\<close>.
\<close>

theorem scan_string_decodes_escapes_witness:
  "position (Lexer_ctor all_escapes) < length (source (Lexer_ctor all_escapes)) \<and>
   decode_string (drop (Suc (position (Lexer_ctor all_escapes))) (source (Lexer_ctor all_escapes)))
     = Some [CHR ''a'', CHR 0x0A, CHR 0x09, CHR 0x0D, CHR 0x5C, CHR 0x22, CHR 0x27, CHR 0x00,
             CHR ''O'', CHR 0xFE, CHR ''q''] \<and>
   fst (scan_string (Lexer_ctor all_escapes)) =
     Token_ctor TT_STRING_LITERAL
       [CHR ''a'', CHR 0x0A, CHR 0x09, CHR 0x0D, CHR 0x5C, CHR 0x22, CHR 0x27, CHR 0x00,
        CHR ''O'', CHR 0xFE, CHR ''q''] 1 1"
proof -
  have p: "position (Lexer_ctor all_escapes) < length (source (Lexer_ctor all_escapes))"
    by code_simp
  have d: "decode_string
             (drop (Suc (position (Lexer_ctor all_escapes))) (source (Lexer_ctor all_escapes)))
           = Some [CHR ''a'', CHR 0x0A, CHR 0x09, CHR 0x0D, CHR 0x5C, CHR 0x22, CHR 0x27,
                   CHR 0x00, CHR ''O'', CHR 0xFE, CHR ''q'']"
    by code_simp
  have l: "lx_line (Lexer_ctor all_escapes) = 1" "lx_column (Lexer_ctor all_escapes) = 1"
    by (simp_all add: Lexer_ctor_def)
  show ?thesis
    using scan_string_decodes_escapes [OF p] p d l by simp
qed

section \<open>The abstract syntax tree (parser/ast.h)\<close>

text \<open>
  \<^verbatim>\<open>enum class PrimitiveType\<close> and \<^verbatim>\<open>enum class ContainerKind\<close>; the prefixes stand for the
  scopes \<^verbatim>\<open>PrimitiveType::\<close> and \<^verbatim>\<open>ContainerKind::\<close>.
\<close>

datatype PrimitiveType =
    PT_STR | PT_INT | PT_BOOL | PT_UNIT
  | PT_U8 | PT_U16 | PT_U32 | PT_U64
  | PT_I8 | PT_I16 | PT_I32 | PT_I64
  | PT_F32 | PT_F64

datatype ContainerKind = CK_ARRAY | CK_MAP | CK_OPTIONAL

text \<open>
  The classes derived from \<^verbatim>\<open>TypeExprNode\<close>, and \<^verbatim>\<open>FieldNode\<close> and \<^verbatim>\<open>AlternativeNode\<close>. Each
  constructor takes the arguments of the C++ constructor (the line and the column last),
  then the members filled in afterwards. A \<^verbatim>\<open>unique_ptr\<close> that may be null is an \<open>option\<close>:
  the type of an alternative, and the three parameters of a container.
\<close>

datatype TypeExprNode =
    StructTypeNode nat nat "FieldNode list"
  | VariantTypeNode nat nat "AlternativeNode list"
  | EnumTypeNode nat nat "string list"
  | PrimitiveTypeNode PrimitiveType nat nat
  | ContainerTypeNode ContainerKind nat nat
      "TypeExprNode option" "TypeExprNode option" "TypeExprNode option"
  | RefTypeNode nat nat
  | IdentifierTypeNode string nat nat
and FieldNode = FieldNode string nat nat TypeExprNode
and AlternativeNode = AlternativeNode string nat nat "TypeExprNode option"

datatype TypeDefinitionNode =
  TypeDefinitionNode (def_name: string) (def_line: nat) (def_column: nat)
    (def_type: TypeExprNode)

datatype SchemaNode =
  SchemaNode (schema_line: nat) (schema_column: nat) (definitions: "TypeDefinitionNode list")

section \<open>The semantic analyzer (semantic/type\_checker.h, semantic/type\_checker.cpp)\<close>

text \<open>
  The data members of \<^verbatim>\<open>class TypeChecker\<close>. The two \<^verbatim>\<open>unordered_map\<close>s are maps, the two
  \<^verbatim>\<open>unordered_set\<close>s are sets: the code only inserts, erases, looks up and clears.
\<close>

record TypeChecker =
  schema :: SchemaNode
  tc_errors :: "string list"
  symbol_table :: "string \<Rightarrow> TypeDefinitionNode option"
  definition_order :: "string \<Rightarrow> nat option"
  current_definition_index :: nat
  visiting :: "string set"
  visited :: "string set"

definition TypeChecker_ctor :: "SchemaNode \<Rightarrow> TypeChecker" where
  "TypeChecker_ctor sch =
     \<lparr>schema = sch, tc_errors = [], symbol_table = Map.empty, definition_order = Map.empty,
      current_definition_index = 0, visiting = {}, visited = {}\<rparr>"

definition has_errors :: "TypeChecker \<Rightarrow> bool" where
  "has_errors tc = (tc_errors tc \<noteq> [])"

text \<open>\<^verbatim>\<open>report_error(message, node)\<close>, with the line and the column of the node.\<close>

definition TypeChecker_report_error :: "TypeChecker \<Rightarrow> string \<Rightarrow> nat \<Rightarrow> nat \<Rightarrow> TypeChecker" where
  "TypeChecker_report_error tc message ln col =
     tc\<lparr>tc_errors := tc_errors tc @
        [''Line '' @ to_string ln @ '', Column '' @ to_string col @ '': '' @ message]\<rparr>"

text \<open>A name between single quotes, as the messages print it.\<close>

definition quoted :: "string \<Rightarrow> string" where
  "quoted n = [CHR 0x27] @ n @ [CHR 0x27]"

fun build_symbol_table_loop ::
  "TypeChecker \<Rightarrow> TypeDefinitionNode list \<Rightarrow> nat \<Rightarrow> TypeChecker" where
  "build_symbol_table_loop tc [] index = tc"
| "build_symbol_table_loop tc (d # defs) index =
     build_symbol_table_loop
       (if symbol_table tc (def_name d) \<noteq> None
        then TypeChecker_report_error tc
               (''Duplicate type definition: '' @ quoted (def_name d))
               (def_line d) (def_column d)
        else tc\<lparr>symbol_table := (symbol_table tc)(def_name d \<mapsto> d),
                definition_order := (definition_order tc)(def_name d \<mapsto> index)\<rparr>)
       defs (index + 1)"

definition build_symbol_table :: "TypeChecker \<Rightarrow> TypeChecker" where
  "build_symbol_table tc = build_symbol_table_loop tc (definitions (schema tc)) 0"

definition is_type_defined :: "TypeChecker \<Rightarrow> string \<Rightarrow> bool" where
  "is_type_defined tc type_name = (symbol_table tc type_name \<noteq> None)"

text \<open>The loop of \<^verbatim>\<open>check_enum_type\<close> over the values, with the set \<^verbatim>\<open>value_set\<close>.\<close>

fun check_enum_values ::
  "TypeChecker \<Rightarrow> nat \<Rightarrow> nat \<Rightarrow> string list \<Rightarrow> string set \<Rightarrow> string \<Rightarrow> TypeChecker" where
  "check_enum_values tc ln col [] value_set ctx = tc"
| "check_enum_values tc ln col (v # vs) value_set ctx =
     (if v \<in> value_set
      then check_enum_values
             (TypeChecker_report_error tc
                (''Duplicate enum value '' @ quoted v @ '' in type '' @ quoted ctx) ln col)
             ln col vs value_set ctx
      else check_enum_values tc ln col vs (insert v value_set) ctx)"

definition check_enum_type ::
  "TypeChecker \<Rightarrow> nat \<Rightarrow> nat \<Rightarrow> string list \<Rightarrow> string \<Rightarrow> TypeChecker" where
  "check_enum_type tc ln col vals ctx =
     check_enum_values
       (if vals = []
        then TypeChecker_report_error tc
               (''Enum must have at least one value in type '' @ quoted ctx) ln col
        else tc)
       ln col vals {} ctx"

text \<open>
  \<^verbatim>\<open>check_type_expr\<close> with \<^verbatim>\<open>check_struct_type\<close>, \<^verbatim>\<open>check_variant_type\<close> and
  \<^verbatim>\<open>check_container_type\<close>, which call it back. \<open>check_fields\<close> and \<open>check_alternatives\<close> are
  the loops of the struct and the variant check, with their sets of names seen so far.
\<close>

fun check_type_expr :: "TypeChecker \<Rightarrow> TypeExprNode \<Rightarrow> string \<Rightarrow> TypeChecker"
  and check_fields :: "TypeChecker \<Rightarrow> FieldNode list \<Rightarrow> string set \<Rightarrow> string \<Rightarrow> TypeChecker"
  and check_alternatives ::
    "TypeChecker \<Rightarrow> AlternativeNode list \<Rightarrow> string set \<Rightarrow> string \<Rightarrow> TypeChecker"
where
  "check_type_expr tc (StructTypeNode ln col flds) ctx =
     check_fields
       (if flds = []
        then TypeChecker_report_error tc
               (''Struct must have at least one field in type '' @ quoted ctx) ln col
        else tc)
       flds {} ctx"
| "check_type_expr tc (VariantTypeNode ln col alts) ctx =
     check_alternatives
       (if alts = []
        then TypeChecker_report_error tc
               (''Variant must have at least one alternative in type '' @ quoted ctx) ln col
        else tc)
       alts {} ctx"
| "check_type_expr tc (EnumTypeNode ln col vals) ctx = check_enum_type tc ln col vals ctx"
| "check_type_expr tc (ContainerTypeNode kind ln col element_type key_type value_type) ctx =
     (if kind = CK_ARRAY \<or> kind = CK_OPTIONAL then
        (case element_type of
           None \<Rightarrow>
             TypeChecker_report_error tc
               (''Container type missing element type in '' @ quoted ctx) ln col
         | Some elem \<Rightarrow>
             (let tc1 = check_type_expr tc elem ctx in
              if kind = CK_OPTIONAL then
                (case elem of
                   ContainerTypeNode ekind eln ecol ee ek ev \<Rightarrow>
                     if ekind = CK_OPTIONAL
                     then TypeChecker_report_error tc1
                            (''Nested optional types (optional<optional<T>>) are not allowed in ''
                               @ quoted ctx) ln col
                     else tc1
                 | _ \<Rightarrow> tc1)
              else tc1))
      else if kind = CK_MAP then
        (case key_type of
           None \<Rightarrow>
             TypeChecker_report_error tc
               (''Map type missing key or value type in '' @ quoted ctx) ln col
         | Some k \<Rightarrow>
             (case value_type of
                None \<Rightarrow>
                  TypeChecker_report_error tc
                    (''Map type missing key or value type in '' @ quoted ctx) ln col
              | Some v \<Rightarrow>
                  check_type_expr (check_type_expr tc k (ctx @ '' (map key)'')) v
                    (ctx @ '' (map value)'')))
      else tc)"
| "check_type_expr tc (IdentifierTypeNode name ln col) ctx =
     (if \<not> is_type_defined tc name then
        TypeChecker_report_error tc
          (''Undefined type '' @ quoted name @ '' referenced in '' @ quoted ctx) ln col
      else
        (case definition_order tc name of
           Some ref_order \<Rightarrow>
             if ref_order > current_definition_index tc
             then TypeChecker_report_error tc
                    (''Forward reference to type '' @ quoted name @ '' (defined later) in ''
                       @ quoted ctx) ln col
             else tc
         | None \<Rightarrow> tc))"
| "check_type_expr tc (PrimitiveTypeNode p ln col) ctx = tc"
| "check_type_expr tc (RefTypeNode ln col) ctx = tc"
| "check_fields tc [] field_names ctx = tc"
| "check_fields tc (FieldNode name ln col ty # flds) field_names ctx =
     (if name \<in> field_names
      then check_fields
             (check_type_expr
                (TypeChecker_report_error tc
                   (''Duplicate field name '' @ quoted name @ '' in struct in type ''
                      @ quoted ctx) ln col)
                ty (ctx @ ''.'' @ name))
             flds field_names ctx
      else check_fields (check_type_expr tc ty (ctx @ ''.'' @ name))
             flds (insert name field_names) ctx)"
| "check_alternatives tc [] alt_names ctx = tc"
| "check_alternatives tc (AlternativeNode name ln col ty # alts) alt_names ctx =
     (if name \<in> alt_names
      then check_alternatives
             (case ty of
                Some t \<Rightarrow>
                  check_type_expr
                    (TypeChecker_report_error tc
                       (''Duplicate alternative name '' @ quoted name @
                        '' in variant in type '' @ quoted ctx) ln col)
                    t (ctx @ ''.'' @ name)
              | None \<Rightarrow>
                  TypeChecker_report_error tc
                    (''Duplicate alternative name '' @ quoted name @
                     '' in variant in type '' @ quoted ctx) ln col)
             alts alt_names ctx
      else check_alternatives
             (case ty of
                Some t \<Rightarrow> check_type_expr tc t (ctx @ ''.'' @ name)
              | None \<Rightarrow> tc)
             alts (insert name alt_names) ctx)"

definition is_primitive_type :: "TypeExprNode \<Rightarrow> bool" where
  "is_primitive_type expr = (case expr of PrimitiveTypeNode p ln col \<Rightarrow> True | _ \<Rightarrow> False)"

definition is_leaf_type :: "TypeExprNode \<Rightarrow> bool" where
  "is_leaf_type expr =
     (is_primitive_type expr \<or>
      (case expr of RefTypeNode ln col \<Rightarrow> True | _ \<Rightarrow> False) \<or>
      (case expr of EnumTypeNode ln col vals \<Rightarrow> True | _ \<Rightarrow> False))"

definition node_line :: "TypeExprNode \<Rightarrow> nat" where
  "node_line expr =
     (case expr of
        StructTypeNode ln col flds \<Rightarrow> ln
      | VariantTypeNode ln col alts \<Rightarrow> ln
      | EnumTypeNode ln col vals \<Rightarrow> ln
      | PrimitiveTypeNode p ln col \<Rightarrow> ln
      | ContainerTypeNode kind ln col e k v \<Rightarrow> ln
      | RefTypeNode ln col \<Rightarrow> ln
      | IdentifierTypeNode name ln col \<Rightarrow> ln)"

definition node_column :: "TypeExprNode \<Rightarrow> nat" where
  "node_column expr =
     (case expr of
        StructTypeNode ln col flds \<Rightarrow> col
      | VariantTypeNode ln col alts \<Rightarrow> col
      | EnumTypeNode ln col vals \<Rightarrow> col
      | PrimitiveTypeNode p ln col \<Rightarrow> col
      | ContainerTypeNode kind ln col e k v \<Rightarrow> col
      | RefTypeNode ln col \<Rightarrow> col
      | IdentifierTypeNode name ln col \<Rightarrow> col)"

text \<open>
  \<^verbatim>\<open>check_leaf_nodes\<close> follows an identifier into the definition it names, with no set of
  visited names, so its recursion is not bounded by the tree. The first argument bounds the
  depth of nested calls (the call stack): a call that would need a deeper stack has the
  value \<open>None\<close>. \<open>leaf_fields\<close> and \<open>leaf_alternatives\<close> are the loops over the fields and the
  alternatives, run at the depth of the call that holds them.
\<close>

fun check_leaf_nodes ::
    "nat \<Rightarrow> TypeChecker \<Rightarrow> TypeExprNode \<Rightarrow> string \<Rightarrow> bool \<Rightarrow> TypeChecker option"
  and leaf_fields :: "nat \<Rightarrow> TypeChecker \<Rightarrow> FieldNode list \<Rightarrow> string \<Rightarrow> TypeChecker option"
  and leaf_alternatives ::
    "nat \<Rightarrow> TypeChecker \<Rightarrow> AlternativeNode list \<Rightarrow> string \<Rightarrow> TypeChecker option"
where
  "check_leaf_nodes 0 tc expr ctx must_terminate = None"
| "check_leaf_nodes (Suc depth) tc expr ctx must_terminate =
     (case expr of
        StructTypeNode ln col flds \<Rightarrow> leaf_fields depth tc flds ctx
      | VariantTypeNode ln col alts \<Rightarrow> leaf_alternatives depth tc alts ctx
      | ContainerTypeNode kind ln col element_type key_type value_type \<Rightarrow>
          (case (case element_type of
                   Some e \<Rightarrow> check_leaf_nodes depth tc e ctx must_terminate
                 | None \<Rightarrow> Some tc) of
             None \<Rightarrow> None
           | Some tc1 \<Rightarrow>
               (case (case key_type of
                        Some k \<Rightarrow> check_leaf_nodes depth tc1 k (ctx @ '' (key)'') must_terminate
                      | None \<Rightarrow> Some tc1) of
                  None \<Rightarrow> None
                | Some tc2 \<Rightarrow>
                    (case value_type of
                       Some v \<Rightarrow>
                         check_leaf_nodes depth tc2 v (ctx @ '' (value)'') must_terminate
                     | None \<Rightarrow> Some tc2)))
      | IdentifierTypeNode name ln col \<Rightarrow>
          (case symbol_table tc name of
             Some d \<Rightarrow> check_leaf_nodes depth tc (def_type d) name must_terminate
           | None \<Rightarrow> Some tc)
      | _ \<Rightarrow>
          if must_terminate \<and> \<not> is_leaf_type expr
          then Some (TypeChecker_report_error tc
                       (''Type path in '' @ quoted ctx @
                        '' does not terminate at a primitive or ref type'')
                       (node_line expr) (node_column expr))
          else Some tc)"
| "leaf_fields depth tc [] ctx = Some tc"
| "leaf_fields depth tc (FieldNode name ln col ty # flds) ctx =
     (case check_leaf_nodes depth tc ty (ctx @ ''.'' @ name) True of
        None \<Rightarrow> None
      | Some tc1 \<Rightarrow> leaf_fields depth tc1 flds ctx)"
| "leaf_alternatives depth tc [] ctx = Some tc"
| "leaf_alternatives depth tc (AlternativeNode name ln col ty # alts) ctx =
     (case (case ty of
              Some t \<Rightarrow> check_leaf_nodes depth tc t (ctx @ ''.'' @ name) True
            | None \<Rightarrow> Some tc) of
        None \<Rightarrow> None
      | Some tc1 \<Rightarrow> leaf_alternatives depth tc1 alts ctx)"

text \<open>
  \<^verbatim>\<open>check_circular_in_type_expr\<close>, with the same bound on the depth of nested calls. The
  result is the returned flag and the checker with its sets \<^verbatim>\<open>visiting_\<close> and \<^verbatim>\<open>visited_\<close>
  as the call leaves them.
\<close>

fun check_circular_in_type_expr ::
    "nat \<Rightarrow> TypeChecker \<Rightarrow> TypeExprNode \<Rightarrow> string \<Rightarrow> (bool \<times> TypeChecker) option"
  and circular_fields ::
    "nat \<Rightarrow> TypeChecker \<Rightarrow> FieldNode list \<Rightarrow> string \<Rightarrow> (bool \<times> TypeChecker) option"
  and circular_alternatives ::
    "nat \<Rightarrow> TypeChecker \<Rightarrow> AlternativeNode list \<Rightarrow> string \<Rightarrow> (bool \<times> TypeChecker) option"
where
  "check_circular_in_type_expr 0 tc expr current_type = None"
| "check_circular_in_type_expr (Suc depth) tc expr current_type =
     (case expr of
        StructTypeNode ln col flds \<Rightarrow> circular_fields depth tc flds current_type
      | VariantTypeNode ln col alts \<Rightarrow> circular_alternatives depth tc alts current_type
      | ContainerTypeNode kind ln col element_type key_type value_type \<Rightarrow>
          (case (case element_type of
                   Some e \<Rightarrow> check_circular_in_type_expr depth tc e current_type
                 | None \<Rightarrow> Some (False, tc)) of
             None \<Rightarrow> None
           | Some (True, tc1) \<Rightarrow> Some (True, tc1)
           | Some (False, tc1) \<Rightarrow>
               (case (case key_type of
                        Some k \<Rightarrow> check_circular_in_type_expr depth tc1 k current_type
                      | None \<Rightarrow> Some (False, tc1)) of
                  None \<Rightarrow> None
                | Some (True, tc2) \<Rightarrow> Some (True, tc2)
                | Some (False, tc2) \<Rightarrow>
                    (case value_type of
                       Some v \<Rightarrow> check_circular_in_type_expr depth tc2 v current_type
                     | None \<Rightarrow> Some (False, tc2))))
      | IdentifierTypeNode name ln col \<Rightarrow>
          if name = current_type then Some (True, tc)
          else if name \<in> visiting tc then Some (True, tc)
          else if name \<in> visited tc then Some (False, tc)
          else
            (case symbol_table tc name of
               Some d \<Rightarrow>
                 (case check_circular_in_type_expr depth
                         (tc\<lparr>visiting := insert name (visiting tc)\<rparr>) (def_type d)
                         current_type of
                    None \<Rightarrow> None
                  | Some (has_cycle, tc1) \<Rightarrow>
                      Some (has_cycle,
                            tc1\<lparr>visiting := visiting tc1 - {name},
                                visited := insert name (visited tc1)\<rparr>))
             | None \<Rightarrow> Some (False, tc))
      | _ \<Rightarrow> Some (False, tc))"
| "circular_fields depth tc [] current_type = Some (False, tc)"
| "circular_fields depth tc (FieldNode name ln col ty # flds) current_type =
     (case check_circular_in_type_expr depth tc ty current_type of
        None \<Rightarrow> None
      | Some (True, tc1) \<Rightarrow> Some (True, tc1)
      | Some (False, tc1) \<Rightarrow> circular_fields depth tc1 flds current_type)"
| "circular_alternatives depth tc [] current_type = Some (False, tc)"
| "circular_alternatives depth tc (AlternativeNode name ln col ty # alts) current_type =
     (case (case ty of
              Some t \<Rightarrow> check_circular_in_type_expr depth tc t current_type
            | None \<Rightarrow> Some (False, tc)) of
        None \<Rightarrow> None
      | Some (True, tc1) \<Rightarrow> Some (True, tc1)
      | Some (False, tc1) \<Rightarrow> circular_alternatives depth tc1 alts current_type)"

definition has_circular_dependency ::
  "nat \<Rightarrow> TypeChecker \<Rightarrow> string \<Rightarrow> (bool \<times> TypeChecker) option" where
  "has_circular_dependency depth tc0 type_name =
     (let tc = tc0\<lparr>visiting := {}, visited := {}\<rparr> in
      case symbol_table tc type_name of
        None \<Rightarrow> Some (False, tc)
      | Some d \<Rightarrow>
          (case check_circular_in_type_expr depth
                  (tc\<lparr>visiting := insert type_name (visiting tc)\<rparr>) (def_type d) type_name of
             None \<Rightarrow> None
           | Some (has_cycle, tc1) \<Rightarrow>
               Some (has_cycle,
                     tc1\<lparr>visiting := visiting tc1 - {type_name},
                         visited := insert type_name (visited tc1)\<rparr>)))"

definition check_type_definition ::
  "nat \<Rightarrow> TypeChecker \<Rightarrow> TypeDefinitionNode \<Rightarrow> TypeChecker option" where
  "check_type_definition depth tc d =
     check_leaf_nodes depth (check_type_expr tc (def_type d) (def_name d))
       (def_type d) (def_name d) False"

text \<open>The two loops of \<^verbatim>\<open>check_type_definitions\<close>.\<close>

fun check_definitions_loop ::
  "nat \<Rightarrow> TypeChecker \<Rightarrow> TypeDefinitionNode list \<Rightarrow> TypeChecker option" where
  "check_definitions_loop depth tc [] = Some tc"
| "check_definitions_loop depth tc (d # defs) =
     (case check_type_definition depth tc d of
        None \<Rightarrow> None
      | Some tc1 \<Rightarrow>
          check_definitions_loop depth
            (tc1\<lparr>current_definition_index := current_definition_index tc1 + 1\<rparr>) defs)"

fun circular_loop ::
  "nat \<Rightarrow> TypeChecker \<Rightarrow> TypeDefinitionNode list \<Rightarrow> TypeChecker option" where
  "circular_loop depth tc [] = Some tc"
| "circular_loop depth tc (d # defs) =
     (case has_circular_dependency depth tc (def_name d) of
        None \<Rightarrow> None
      | Some (True, tc1) \<Rightarrow>
          circular_loop depth
            (TypeChecker_report_error tc1
               (''Circular type dependency detected for: '' @ quoted (def_name d))
               (def_line d) (def_column d))
            defs
      | Some (False, tc1) \<Rightarrow> circular_loop depth tc1 defs)"

definition check_type_definitions :: "nat \<Rightarrow> TypeChecker \<Rightarrow> TypeChecker option" where
  "check_type_definitions depth tc =
     (case check_definitions_loop depth (tc\<lparr>current_definition_index := 0\<rparr>)
             (definitions (schema tc)) of
        None \<Rightarrow> None
      | Some tc1 \<Rightarrow> circular_loop depth tc1 (definitions (schema tc1)))"

text \<open>
  \<^verbatim>\<open>TypeChecker::check()\<close>: the returned flag and the checker afterwards (\<^verbatim>\<open>errors()\<close> reads
  its \<open>tc_errors\<close>); \<open>None\<close> when the call does not return within the given stack depth.
  \<^verbatim>\<open>definition_order_\<close> is not cleared, as in the source.
\<close>

definition TypeChecker_check :: "nat \<Rightarrow> TypeChecker \<Rightarrow> (bool \<times> TypeChecker) option" where
  "TypeChecker_check depth tc0 =
     (let tc = build_symbol_table
                 (tc0\<lparr>tc_errors := [], symbol_table := Map.empty, visiting := {},
                      visited := {}\<rparr>)
      in if has_errors tc then Some (False, tc)
         else (case check_type_definitions depth tc of
                 None \<Rightarrow> None
               | Some tc1 \<Rightarrow> Some (\<not> has_errors tc1, tc1)))"


section \<open>Properties of the semantic analyzer\<close>

subsection \<open>The symbol table\<close>

lemma report_error_fields [simp]:
  "symbol_table (TypeChecker_report_error tc m l c) = symbol_table tc"
  "definition_order (TypeChecker_report_error tc m l c) = definition_order tc"
  "current_definition_index (TypeChecker_report_error tc m l c) = current_definition_index tc"
  "schema (TypeChecker_report_error tc m l c) = schema tc"
  "tc_errors (TypeChecker_report_error tc m l c) =
     tc_errors tc @ [''Line '' @ to_string l @ '', Column '' @ to_string c @ '': '' @ m]"
  by (simp_all add: TypeChecker_report_error_def)

lemma build_loop_distinct:
  assumes "distinct (map def_name ds)"
    and "\<forall>d \<in> set ds. symbol_table tc (def_name d) = None"
  shows "tc_errors (build_symbol_table_loop tc ds k) = tc_errors tc \<and>
         schema (build_symbol_table_loop tc ds k) = schema tc \<and>
         (\<forall>n. n \<notin> def_name ` set ds \<longrightarrow>
            symbol_table (build_symbol_table_loop tc ds k) n = symbol_table tc n \<and>
            definition_order (build_symbol_table_loop tc ds k) n = definition_order tc n) \<and>
         (\<forall>j < length ds.
            symbol_table (build_symbol_table_loop tc ds k) (def_name (ds ! j)) = Some (ds ! j) \<and>
            definition_order (build_symbol_table_loop tc ds k) (def_name (ds ! j)) = Some (k + j))"
  using assms
proof (induction ds arbitrary: tc k)
  case Nil
  show ?case by simp
next
  case (Cons d ds)
  let ?tc1 = "tc\<lparr>symbol_table := (symbol_table tc)(def_name d \<mapsto> d),
                 definition_order := (definition_order tc)(def_name d \<mapsto> k)\<rparr>"
  have fresh: "symbol_table tc (def_name d) = None" using Cons.prems(2) by simp
  have step: "build_symbol_table_loop tc (d # ds) k = build_symbol_table_loop ?tc1 ds (k + 1)"
    using fresh by simp
  have d1: "distinct (map def_name ds)" and nd: "def_name d \<notin> def_name ` set ds"
    using Cons.prems(1) by auto
  have f1: "\<forall>e \<in> set ds. symbol_table ?tc1 (def_name e) = None"
  proof
    fix e assume e: "e \<in> set ds"
    then have "def_name e \<noteq> def_name d" using nd by (metis image_eqI)
    then show "symbol_table ?tc1 (def_name e) = None" using Cons.prems(2) e by simp
  qed
  note ih = Cons.IH [OF d1 f1, of "k + 1"]
  show ?case
    unfolding step
  proof (intro conjI allI impI)
    show "tc_errors (build_symbol_table_loop ?tc1 ds (k + 1)) = tc_errors tc"
      using ih by simp
    show "schema (build_symbol_table_loop ?tc1 ds (k + 1)) = schema tc"
      using ih by simp
  next
    fix n assume "n \<notin> def_name ` set (d # ds)"
    then have a: "n \<notin> def_name ` set ds" and b: "n \<noteq> def_name d" by auto
    show "symbol_table (build_symbol_table_loop ?tc1 ds (k + 1)) n = symbol_table tc n"
      using ih a b by simp
    show "definition_order (build_symbol_table_loop ?tc1 ds (k + 1)) n = definition_order tc n"
      using ih a b by simp
  next
    fix j assume j: "j < length (d # ds)"
    show "symbol_table (build_symbol_table_loop ?tc1 ds (k + 1)) (def_name ((d # ds) ! j)) =
            Some ((d # ds) ! j)"
    proof (cases j)
      case 0
      then show ?thesis using ih nd by simp
    next
      case (Suc i)
      then show ?thesis using ih j by simp
    qed
    show "definition_order (build_symbol_table_loop ?tc1 ds (k + 1)) (def_name ((d # ds) ! j)) =
            Some (k + j)"
    proof (cases j)
      case 0
      then show ?thesis using ih nd by simp
    next
      case (Suc i)
      then show ?thesis using ih j by simp
    qed
  qed
qed

subsection \<open>Duplicate type names end the analysis\<close>

text \<open>
  The schema of \<^verbatim>\<open>test_error_recovery\<close> (tests/error\_message\_tests.cpp): a duplicate field
  name, a duplicate type name and an undefined type reference.
\<close>

definition error_recovery_schema :: SchemaNode where
  "error_recovery_schema =
     SchemaNode 2 9
       [TypeDefinitionNode ''Point'' 2 9
          (StructTypeNode 2 17
             [FieldNode ''x'' 2 26 (PrimitiveTypeNode PT_U32 2 29),
              FieldNode ''x'' 2 34 (PrimitiveTypeNode PT_U32 2 37)]),
        TypeDefinitionNode ''Point'' 3 9
          (StructTypeNode 3 17 [FieldNode ''y'' 3 26 (PrimitiveTypeNode PT_U32 3 29)]),
        TypeDefinitionNode ''Player'' 4 9
          (StructTypeNode 4 18
             [FieldNode ''pos'' 4 27 (IdentifierTypeNode ''UndefinedType'' 4 32)])]"

lemma check_after_duplicates:
  "has_errors (build_symbol_table
       (tc\<lparr>tc_errors := [], symbol_table := Map.empty, visiting := {}, visited := {}\<rparr>)) \<Longrightarrow>
   TypeChecker_check depth tc =
     Some (False, build_symbol_table
       (tc\<lparr>tc_errors := [], symbol_table := Map.empty, visiting := {}, visited := {}\<rparr>))"
  by (simp add: TypeChecker_check_def Let_def)

text \<open>
  Claim C1, at the schema of the repository's own test: \<^verbatim>\<open>check()\<close> returns false after the
  symbol table is built, with one diagnostic (the duplicate type name); the duplicate field
  of the first definition and the undefined type of the third are never looked at. The
  claim says at least three diagnostics.
\<close>

theorem check_stops_after_duplicate_type_name:
  "\<forall>depth. map_option (\<lambda>(ok, tc). (ok, tc_errors tc))
     (TypeChecker_check depth (TypeChecker_ctor error_recovery_schema)) =
   Some (False, [''Line 3, Column 9: Duplicate type definition: '' @ quoted ''Point''])"
proof
  fix depth
  let ?tc = "build_symbol_table
       ((TypeChecker_ctor error_recovery_schema)
          \<lparr>tc_errors := [], symbol_table := Map.empty, visiting := {}, visited := {}\<rparr>)"
  have e: "tc_errors ?tc = [''Line 3, Column 9: Duplicate type definition: '' @ quoted ''Point'']"
    by code_simp
  then have "has_errors ?tc" by (simp add: has_errors_def)
  then show "map_option (\<lambda>(ok, tc). (ok, tc_errors tc))
     (TypeChecker_check depth (TypeChecker_ctor error_recovery_schema)) =
   Some (False, [''Line 3, Column 9: Duplicate type definition: '' @ quoted ''Point''])"
    using e by (simp add: check_after_duplicates)
qed

subsection \<open>A self-reference\<close>

text \<open>Scenario 4 of the specification: \<^verbatim>\<open>Node : struct { child: Node }\<close>.\<close>

definition self_reference_def :: TypeDefinitionNode where
  "self_reference_def =
     TypeDefinitionNode ''Node'' 1 1
       (StructTypeNode 1 8 [FieldNode ''child'' 1 17 (IdentifierTypeNode ''Node'' 1 24)])"

definition self_reference_schema :: SchemaNode where
  "self_reference_schema = SchemaNode 1 1 [self_reference_def]"

text \<open>and after the edit: \<^verbatim>\<open>Node : struct { child: ref<entity> }\<close>.\<close>

definition entity_reference_schema :: SchemaNode where
  "entity_reference_schema =
     SchemaNode 1 1
       [TypeDefinitionNode ''Node'' 1 1
          (StructTypeNode 1 8 [FieldNode ''child'' 1 17 (RefTypeNode 1 24)])]"

lemma leaf_walk_of_self_reference:
  assumes "symbol_table tc ''Node'' = Some self_reference_def"
  shows "check_leaf_nodes depth tc (def_type self_reference_def) ctx must_terminate = None \<and>
         check_leaf_nodes depth tc (IdentifierTypeNode ''Node'' 1 24) ctx must_terminate = None"
proof (induction depth arbitrary: ctx must_terminate)
  case 0
  show ?case by simp
next
  case (Suc depth)
  have a: "check_leaf_nodes (Suc depth) tc (def_type self_reference_def) ctx must_terminate = None"
    using Suc [of "ctx @ ''.'' @ ''child''" True] by (simp add: self_reference_def_def)
  have b: "check_leaf_nodes (Suc depth) tc (IdentifierTypeNode ''Node'' 1 24) ctx must_terminate
             = None"
    using Suc [of "''Node''" must_terminate] assms by simp
  show ?case using a b by simp
qed

text \<open>
  Claim C4, at scenario 4. On \<^verbatim>\<open>Node : struct { child: Node }\<close> the walk of
  \<^verbatim>\<open>check_leaf_nodes\<close>, which runs before the cycle detection, calls itself without end:
  whatever the depth allowed, \<^verbatim>\<open>check()\<close> does not return, so no
  \<^verbatim>\<open>Circular type dependency\<close> diagnostic is ever emitted. With \<^verbatim>\<open>ref<entity>\<close> in place of
  the self-reference the analysis succeeds.
\<close>

theorem check_never_returns_on_self_reference:
  "(\<forall>depth. TypeChecker_check depth (TypeChecker_ctor self_reference_schema) = None) \<and>
   map_option (\<lambda>(ok, tc). (ok, tc_errors tc))
     (TypeChecker_check 3 (TypeChecker_ctor entity_reference_schema)) = Some (True, [])"
proof
  show "\<forall>depth. TypeChecker_check depth (TypeChecker_ctor self_reference_schema) = None"
  proof
    fix depth
    let ?tc = "build_symbol_table
       ((TypeChecker_ctor self_reference_schema)
          \<lparr>tc_errors := [], symbol_table := Map.empty, visiting := {}, visited := {}\<rparr>)"
    have e: "tc_errors ?tc = []" and s: "symbol_table ?tc ''Node'' = Some self_reference_def"
      and d: "definitions (schema ?tc) = [self_reference_def]"
      by (simp_all add: build_symbol_table_def TypeChecker_ctor_def self_reference_schema_def
            self_reference_def_def)
    let ?tc1 = "check_type_expr (?tc\<lparr>current_definition_index := 0\<rparr>)
                  (def_type self_reference_def) (def_name self_reference_def)"
    have s1: "symbol_table ?tc1 ''Node'' = Some self_reference_def"
      using s by (simp add: self_reference_def_def is_type_defined_def split: option.splits)
    have "check_type_definition depth (?tc\<lparr>current_definition_index := 0\<rparr>) self_reference_def
            = None"
      unfolding check_type_definition_def using leaf_walk_of_self_reference [OF s1] by simp
    then have "check_type_definitions depth ?tc = None"
      by (simp add: check_type_definitions_def d)
    then show "TypeChecker_check depth (TypeChecker_ctor self_reference_schema) = None"
      using e by (simp add: TypeChecker_check_def Let_def has_errors_def)
  qed
  show "map_option (\<lambda>(ok, tc). (ok, tc_errors tc))
     (TypeChecker_check 3 (TypeChecker_ctor entity_reference_schema)) = Some (True, [])"
    by code_simp
qed

text \<open>Run on its own, the cycle detection does find the cycle of scenario 4.\<close>

lemma cycle_detection_alone_on_self_reference:
  "map_option fst
     (has_circular_dependency 2 (build_symbol_table (TypeChecker_ctor self_reference_schema))
        ''Node'') = Some True"
  by code_simp


subsection \<open>The leaf walk and the cycle detection report nothing\<close>

lemma is_leaf_type_cases [simp]:
  "is_leaf_type (EnumTypeNode ln col vals)"
  "is_leaf_type (PrimitiveTypeNode p ln col)"
  "is_leaf_type (RefTypeNode ln col)"
  by (simp_all add: is_leaf_type_def is_primitive_type_def)

text \<open>
  The walk of \<^verbatim>\<open>check_leaf_nodes\<close> reports nothing: it reaches its last branch only on an
  enum, a primitive or a ref node, which are leaf types. When it returns, the checker is
  unchanged.
\<close>

lemma check_leaf_nodes_unchanged:
  "check_leaf_nodes depth tc e ctx must_terminate = None \<or>
   check_leaf_nodes depth tc e ctx must_terminate = Some tc"
  "leaf_fields depth tc flds ctx = None \<or> leaf_fields depth tc flds ctx = Some tc"
  "leaf_alternatives depth tc alts ctx = None \<or> leaf_alternatives depth tc alts ctx = Some tc"
proof (induction depth tc e ctx must_terminate and depth tc flds ctx and depth tc alts ctx
       rule: check_leaf_nodes_leaf_fields_leaf_alternatives.induct)
  case (1 tc expr ctx must_terminate)
  show ?case by simp
next
  case (2 depth tc expr ctx must_terminate)
  show ?case
  proof (cases expr)
    case (StructTypeNode ln col flds)
    then show ?thesis using "2.IH"(1) by simp
  next
    case (VariantTypeNode ln col alts)
    then show ?thesis using "2.IH"(2) by simp
  next
    case (EnumTypeNode ln col vals)
    then show ?thesis by simp
  next
    case (PrimitiveTypeNode p ln col)
    then show ?thesis by simp
  next
    case (ContainerTypeNode kind ln col e k v)
    let ?r1 = "case e of Some x \<Rightarrow> check_leaf_nodes depth tc x ctx must_terminate
               | None \<Rightarrow> Some tc"
    let ?r2 = "case k of
                 Some x \<Rightarrow> check_leaf_nodes depth tc x (ctx @ '' (key)'') must_terminate
               | None \<Rightarrow> Some tc"
    let ?r3 = "case v of
                 Some x \<Rightarrow> check_leaf_nodes depth tc x (ctx @ '' (value)'') must_terminate
               | None \<Rightarrow> Some tc"
    have eq: "check_leaf_nodes (Suc depth) tc expr ctx must_terminate =
              (case ?r1 of None \<Rightarrow> None
               | Some tc1 \<Rightarrow>
                  (case (case k of
                           Some x \<Rightarrow>
                             check_leaf_nodes depth tc1 x (ctx @ '' (key)'') must_terminate
                         | None \<Rightarrow> Some tc1) of
                     None \<Rightarrow> None
                   | Some tc2 \<Rightarrow>
                       (case v of
                          Some x \<Rightarrow>
                            check_leaf_nodes depth tc2 x (ctx @ '' (value)'') must_terminate
                        | None \<Rightarrow> Some tc2)))"
      unfolding ContainerTypeNode by simp
    have a: "?r1 = None \<or> ?r1 = Some tc"
      using "2.IH"(3) [OF ContainerTypeNode] by (cases e) auto
    show ?thesis
    proof (cases "?r1 = None")
      case True
      then show ?thesis unfolding eq by simp
    next
      case False
      then have r1: "?r1 = Some tc" using a by auto
      have b: "?r2 = None \<or> ?r2 = Some tc"
        using "2.IH"(4) [OF ContainerTypeNode r1] by (cases k) auto
      show ?thesis
      proof (cases "?r2 = None")
        case True
        then show ?thesis unfolding eq r1 by simp
      next
        case False
        then have r2: "?r2 = Some tc" using b by auto
        have c: "?r3 = None \<or> ?r3 = Some tc"
          using "2.IH"(5) [OF ContainerTypeNode r1 r2] by (cases v) auto
        show ?thesis unfolding eq r1 using r2 c by simp
      qed
    qed
  next
    case (RefTypeNode ln col)
    then show ?thesis by simp
  next
    case (IdentifierTypeNode name ln col)
    then show ?thesis using "2.IH"(6) by (cases "symbol_table tc name") auto
  qed
next
  case (3 depth tc ctx)
  show ?case by simp
next
  case (4 depth tc name ln col ty flds ctx)
  show ?case
    using "4.IH"(1) "4.IH"(2) [of tc]
    by (cases "check_leaf_nodes depth tc ty (ctx @ ''.'' @ name) True") auto
next
  case (5 depth tc ctx)
  show ?case by simp
next
  case (6 depth tc name ln col ty alts ctx)
  show ?case
  proof (cases ty)
    case None
    then show ?thesis using "6.IH"(2) [of tc] by simp
  next
    case (Some t)
    then show ?thesis
      using "6.IH"(1) [OF Some] "6.IH"(2) [of tc]
      by (cases "check_leaf_nodes depth tc t (ctx @ ''.'' @ name) True") auto
  qed
qed


text \<open>The cycle detection reports nothing itself: it only changes its two sets.\<close>

definition keeps_errors :: "TypeChecker \<Rightarrow> (bool \<times> TypeChecker) option \<Rightarrow> bool" where
  "keeps_errors tc r = (case r of None \<Rightarrow> True | Some (b, tc') \<Rightarrow> tc_errors tc' = tc_errors tc)"

lemma keeps_errors_simps [simp]:
  "keeps_errors tc None"
  "keeps_errors tc (Some (b, tc')) \<longleftrightarrow> tc_errors tc' = tc_errors tc"
  by (simp_all add: keeps_errors_def)

lemma keeps_errors_cong: "tc_errors tc1 = tc_errors tc \<Longrightarrow> keeps_errors tc1 r \<Longrightarrow> keeps_errors tc r"
  by (auto simp: keeps_errors_def split: option.splits)

lemma keeps_errors_seq:
  assumes "keeps_errors tc r" and "\<And>tc1. r = Some (False, tc1) \<Longrightarrow> keeps_errors tc1 (f tc1)"
  shows "keeps_errors tc
           (case r of None \<Rightarrow> None | Some (True, tc1) \<Rightarrow> Some (True, tc1)
            | Some (False, tc1) \<Rightarrow> f tc1)"
proof (cases r)
  case None
  then show ?thesis by simp
next
  case (Some p)
  obtain b tc1 where p: "p = (b, tc1)" by (cases p)
  show ?thesis
  proof (cases b)
    case True
    then show ?thesis using assms(1) Some p by simp
  next
    case False
    have "tc_errors tc1 = tc_errors tc" using assms(1) Some p by simp
    then have "keeps_errors tc (f tc1)"
      using assms(2) [of tc1] Some p False keeps_errors_cong by blast
    then show ?thesis using Some p False by simp
  qed
qed

lemma check_circular_errors:
  "keeps_errors tc (check_circular_in_type_expr depth tc e cur)"
  "keeps_errors tc (circular_fields depth tc flds cur)"
  "keeps_errors tc (circular_alternatives depth tc alts cur)"
proof (induction depth tc e cur and depth tc flds cur and depth tc alts cur
       rule: check_circular_in_type_expr_circular_fields_circular_alternatives.induct)
  case (1 tc expr current_type)
  show ?case by simp
next
  case (2 depth tc expr current_type)
  show ?case
  proof (cases expr)
    case (StructTypeNode ln col flds)
    then show ?thesis using "2.IH"(1) by simp
  next
    case (VariantTypeNode ln col alts)
    then show ?thesis using "2.IH"(2) by simp
  next
    case (EnumTypeNode ln col vals)
    then show ?thesis by simp
  next
    case (PrimitiveTypeNode p ln col)
    then show ?thesis by simp
  next
    case (ContainerTypeNode kind ln col e k v)
    let ?r1 = "case e of Some x \<Rightarrow> check_circular_in_type_expr depth tc x current_type
               | None \<Rightarrow> Some (False, tc)"
    let ?f2 = "\<lambda>tc1. case k of Some x \<Rightarrow> check_circular_in_type_expr depth tc1 x current_type
               | None \<Rightarrow> Some (False, tc1)"
    let ?f3 = "\<lambda>tc2. case v of Some x \<Rightarrow> check_circular_in_type_expr depth tc2 x current_type
               | None \<Rightarrow> Some (False, tc2)"
    let ?g = "\<lambda>tc1. case ?f2 tc1 of None \<Rightarrow> None | Some (True, tc2) \<Rightarrow> Some (True, tc2)
               | Some (False, tc2) \<Rightarrow> ?f3 tc2"
    have eq: "check_circular_in_type_expr (Suc depth) tc expr current_type =
              (case ?r1 of None \<Rightarrow> None | Some (True, tc1) \<Rightarrow> Some (True, tc1)
               | Some (False, tc1) \<Rightarrow> ?g tc1)"
      unfolding ContainerTypeNode by simp
    have a: "keeps_errors tc ?r1"
      using "2.IH"(3) [OF ContainerTypeNode] by (cases e) auto
    have b: "keeps_errors tc1 (?g tc1)" if r1: "?r1 = Some (False, tc1)" for tc1
    proof (rule keeps_errors_seq)
      show "keeps_errors tc1 (?f2 tc1)"
        using "2.IH"(4) [OF ContainerTypeNode r1 refl refl] by (cases k) auto
    next
      fix tc2 assume r2: "?f2 tc1 = Some (False, tc2)"
      show "keeps_errors tc2 (?f3 tc2)"
        using "2.IH"(5) [OF ContainerTypeNode r1 refl refl r2 refl refl] by (cases v) auto
    qed
    show ?thesis
      unfolding eq using a b by (rule keeps_errors_seq)
  next
    case (RefTypeNode ln col)
    then show ?thesis by simp
  next
    case (IdentifierTypeNode name ln col)
    show ?thesis
    proof (cases "name = current_type \<or> name \<in> visiting tc \<or> name \<in> visited tc")
      case True
      then show ?thesis unfolding IdentifierTypeNode by auto
    next
      case False
      then have c: "name \<noteq> current_type" "name \<notin> visiting tc" "name \<notin> visited tc" by auto
      show ?thesis
      proof (cases "symbol_table tc name")
        case None
        then show ?thesis unfolding IdentifierTypeNode using c by simp
      next
        case (Some d)
        have "keeps_errors (tc\<lparr>visiting := insert name (visiting tc)\<rparr>)
                (check_circular_in_type_expr depth (tc\<lparr>visiting := insert name (visiting tc)\<rparr>)
                   (def_type d) current_type)"
          using "2.IH"(6) [OF IdentifierTypeNode c Some] .
        then show ?thesis
          unfolding IdentifierTypeNode using c Some
          by (auto simp: keeps_errors_def split: option.splits)
      qed
    qed
  qed
next
  case (3 depth tc current_type)
  show ?case by simp
next
  case (4 depth tc name ln col ty flds current_type)
  show ?case
    unfolding circular_fields.simps
    using "4.IH"(1) "4.IH"(2) [OF _ refl refl] by (rule keeps_errors_seq)
next
  case (5 depth tc current_type)
  show ?case by simp
next
  case (6 depth tc name ln col ty alts current_type)
  have a: "keeps_errors tc
             (case ty of Some t \<Rightarrow> check_circular_in_type_expr depth tc t current_type
              | None \<Rightarrow> Some (False, tc))"
    using "6.IH"(1) by (cases ty) auto
  show ?case
    unfolding circular_alternatives.simps
    using a "6.IH"(2) [OF _ refl refl] by (rule keeps_errors_seq)
qed


lemma has_circular_dependency_errors:
  "has_circular_dependency depth tc n = Some (r, tc') \<Longrightarrow> tc_errors tc' = tc_errors tc"
proof -
  assume a: "has_circular_dependency depth tc n = Some (r, tc')"
  let ?tc = "tc\<lparr>visiting := {}, visited := {}\<rparr>"
  show ?thesis
  proof (cases "symbol_table tc n")
    case None
    then show ?thesis using a by (auto simp: has_circular_dependency_def Let_def)
  next
    case (Some d)
    have "keeps_errors (?tc\<lparr>visiting := insert n (visiting ?tc)\<rparr>)
            (check_circular_in_type_expr depth (?tc\<lparr>visiting := insert n (visiting ?tc)\<rparr>)
               (def_type d) n)"
      by (rule check_circular_errors)
    then show ?thesis
      using a Some
      by (auto simp: has_circular_dependency_def Let_def keeps_errors_def split: option.splits)
  qed
qed

lemma build_symbol_table_loop_schema [simp]:
  "schema (build_symbol_table_loop tc ds k) = schema tc"
  by (induction ds arbitrary: tc k) (simp_all add: TypeChecker_report_error_def)


subsection \<open>Identifier resolution\<close>

text \<open>
  The checker when the per-definition validation reaches the definition of index \<open>i\<close>: the
  symbol table of the schema, the index, and the diagnostics \<open>errs\<close> of the definitions
  before it.
\<close>

definition validating :: "SchemaNode \<Rightarrow> nat \<Rightarrow> string list \<Rightarrow> TypeChecker" where
  "validating sch i errs =
     (build_symbol_table (TypeChecker_ctor sch))
       \<lparr>tc_errors := errs, current_definition_index := i\<rparr>"

text \<open>
  What section 4.3 of the specification says the per-definition validation reports, as
  lists of messages with no checker behind them. A message has the uniform format
  \<^verbatim>\<open>Line L, Column C: msg\<close>. The index of a name is its position in the list of definitions.
\<close>

definition diagnostic :: "nat \<Rightarrow> nat \<Rightarrow> string \<Rightarrow> string" where
  "diagnostic ln col message =
     ''Line '' @ to_string ln @ '', Column '' @ to_string col @ '': '' @ message"

definition undefined_type_error :: "string \<Rightarrow> nat \<Rightarrow> nat \<Rightarrow> string \<Rightarrow> string" where
  "undefined_type_error n ln col ctx =
     ''Line '' @ to_string ln @ '', Column '' @ to_string col @ '': '' @
     ''Undefined type '' @ quoted n @ '' referenced in '' @ quoted ctx"

definition forward_reference_error :: "string \<Rightarrow> nat \<Rightarrow> nat \<Rightarrow> string \<Rightarrow> string" where
  "forward_reference_error n ln col ctx =
     ''Line '' @ to_string ln @ '', Column '' @ to_string col @ '': '' @
     ''Forward reference to type '' @ quoted n @ '' (defined later) in '' @ quoted ctx"

fun definition_index :: "TypeDefinitionNode list \<Rightarrow> string \<Rightarrow> nat option" where
  "definition_index [] n = None"
| "definition_index (d # ds) n =
     (if def_name d = n then Some 0 else map_option Suc (definition_index ds n))"

text \<open>
  \<^verbatim>\<open>Identifier(n)\<close>, in a definition of index \<open>i\<close>: \<^verbatim>\<open>Undefined type\<close> if \<open>n\<close> is not the name
  of a definition; otherwise \<^verbatim>\<open>Forward reference\<close> if its index is strictly greater than
  \<open>i\<close>; otherwise nothing.
\<close>

definition specified_identifier ::
  "SchemaNode \<Rightarrow> nat \<Rightarrow> string \<Rightarrow> nat \<Rightarrow> nat \<Rightarrow> string \<Rightarrow> string list" where
  "specified_identifier sch i n ln col ctx =
     (case definition_index (definitions sch) n of
        None \<Rightarrow> [undefined_type_error n ln col ctx]
      | Some j \<Rightarrow> if i < j then [forward_reference_error n ln col ctx] else [])"

text \<open>\<^verbatim>\<open>Enum\<close>: values required; one message for every value that has occurred before.\<close>

fun specified_enum_values ::
  "nat \<Rightarrow> nat \<Rightarrow> string list \<Rightarrow> string set \<Rightarrow> string \<Rightarrow> string list" where
  "specified_enum_values ln col [] seen ctx = []"
| "specified_enum_values ln col (v # vs) seen ctx =
     (if v \<in> seen
      then [diagnostic ln col (''Duplicate enum value '' @ quoted v @ '' in type '' @ quoted ctx)]
      else []) @
     specified_enum_values ln col vs (insert v seen) ctx"

text \<open>
  The walk of a definition's body, with the context string of the messages.
  \<^verbatim>\<open>Struct\<close>: fields required, duplicate field names, then each field's type.
  \<^verbatim>\<open>Variant\<close>: alternatives required, duplicates, then each alternative's type if present.
  \<^verbatim>\<open>Container(Array|Optional)\<close>: the element required and walked; an optional whose element
  is directly an optional is rejected. \<^verbatim>\<open>Container(Map)\<close>: key and value required, walked
  with distinct contexts. \<^verbatim>\<open>Primitive\<close> and \<^verbatim>\<open>Ref\<close>: nothing.
\<close>

fun specified_diagnostics :: "SchemaNode \<Rightarrow> nat \<Rightarrow> TypeExprNode \<Rightarrow> string \<Rightarrow> string list"
  and specified_fields ::
    "SchemaNode \<Rightarrow> nat \<Rightarrow> FieldNode list \<Rightarrow> string set \<Rightarrow> string \<Rightarrow> string list"
  and specified_alternatives ::
    "SchemaNode \<Rightarrow> nat \<Rightarrow> AlternativeNode list \<Rightarrow> string set \<Rightarrow> string \<Rightarrow> string list"
where
  "specified_diagnostics sch i (StructTypeNode ln col flds) ctx =
     (if flds = []
      then [diagnostic ln col (''Struct must have at least one field in type '' @ quoted ctx)]
      else []) @
     specified_fields sch i flds {} ctx"
| "specified_diagnostics sch i (VariantTypeNode ln col alts) ctx =
     (if alts = []
      then [diagnostic ln col
              (''Variant must have at least one alternative in type '' @ quoted ctx)]
      else []) @
     specified_alternatives sch i alts {} ctx"
| "specified_diagnostics sch i (EnumTypeNode ln col vals) ctx =
     (if vals = []
      then [diagnostic ln col (''Enum must have at least one value in type '' @ quoted ctx)]
      else []) @
     specified_enum_values ln col vals {} ctx"
| "specified_diagnostics sch i (ContainerTypeNode kind ln col element_type key_type value_type)
       ctx =
     (if kind = CK_MAP then
        (case key_type of
           None \<Rightarrow> [diagnostic ln col (''Map type missing key or value type in '' @ quoted ctx)]
         | Some k \<Rightarrow>
             (case value_type of
                None \<Rightarrow>
                  [diagnostic ln col (''Map type missing key or value type in '' @ quoted ctx)]
              | Some v \<Rightarrow>
                  specified_diagnostics sch i k (ctx @ '' (map key)'') @
                  specified_diagnostics sch i v (ctx @ '' (map value)'')))
      else
        (case element_type of
           None \<Rightarrow>
             [diagnostic ln col (''Container type missing element type in '' @ quoted ctx)]
         | Some elem \<Rightarrow>
             specified_diagnostics sch i elem ctx @
             (if kind = CK_OPTIONAL \<and>
                 (case elem of ContainerTypeNode ekind eln ecol ee ek ev \<Rightarrow> ekind = CK_OPTIONAL
                  | _ \<Rightarrow> False)
              then [diagnostic ln col
                      (''Nested optional types (optional<optional<T>>) are not allowed in ''
                         @ quoted ctx)]
              else [])))"
| "specified_diagnostics sch i (IdentifierTypeNode name ln col) ctx =
     specified_identifier sch i name ln col ctx"
| "specified_diagnostics sch i (PrimitiveTypeNode p ln col) ctx = []"
| "specified_diagnostics sch i (RefTypeNode ln col) ctx = []"
| "specified_fields sch i [] seen ctx = []"
| "specified_fields sch i (FieldNode name ln col ty # flds) seen ctx =
     (if name \<in> seen
      then [diagnostic ln col
              (''Duplicate field name '' @ quoted name @ '' in struct in type '' @ quoted ctx)]
      else []) @
     specified_diagnostics sch i ty (ctx @ ''.'' @ name) @
     specified_fields sch i flds (insert name seen) ctx"
| "specified_alternatives sch i [] seen ctx = []"
| "specified_alternatives sch i (AlternativeNode name ln col ty # alts) seen ctx =
     (if name \<in> seen
      then [diagnostic ln col
              (''Duplicate alternative name '' @ quoted name @ '' in variant in type ''
                 @ quoted ctx)]
      else []) @
     (case ty of Some t \<Rightarrow> specified_diagnostics sch i t (ctx @ ''.'' @ name) | None \<Rightarrow> []) @
     specified_alternatives sch i alts (insert name seen) ctx"

text \<open>The messages of the definition of index \<open>i\<close>, and of the definitions before it.\<close>

definition specified_definition :: "SchemaNode \<Rightarrow> nat \<Rightarrow> string list" where
  "specified_definition sch i =
     specified_diagnostics sch i (def_type (definitions sch ! i)) (def_name (definitions sch ! i))"

definition specified_validation :: "SchemaNode \<Rightarrow> nat \<Rightarrow> string list" where
  "specified_validation sch i = concat (map (specified_definition sch) [0..<i])"

definition circular_error :: "TypeDefinitionNode \<Rightarrow> string" where
  "circular_error d =
     diagnostic (def_line d) (def_column d)
       (''Circular type dependency detected for: '' @ quoted (def_name d))"

text \<open>
  \<open>resolves sch i tc\<close>: the checker \<open>tc\<close> knows the names of the schema with their indices
  and is at the definition of index \<open>i\<close>.
\<close>

definition resolves :: "SchemaNode \<Rightarrow> nat \<Rightarrow> TypeChecker \<Rightarrow> bool" where
  "resolves sch i tc =
     ((\<forall>n. (symbol_table tc n = None) = (definition_index (definitions sch) n = None)) \<and>
      (\<forall>n. definition_order tc n = definition_index (definitions sch) n) \<and>
      current_definition_index tc = i)"

lemma resolves_errors [simp]:
  "resolves sch i (tc\<lparr>tc_errors := es\<rparr>) = resolves sch i tc"
  "resolves sch i (TypeChecker_report_error tc m l c) = resolves sch i tc"
  by (simp_all add: resolves_def)

lemma report_error_appends:
  "TypeChecker_report_error tc m l c = tc\<lparr>tc_errors := tc_errors tc @ [diagnostic l c m]\<rparr>"
  by (simp add: TypeChecker_report_error_def diagnostic_def)

lemma specified_seq:
  assumes "t1 = tc\<lparr>tc_errors := tc_errors tc @ xs\<rparr>"
    and "r = t1\<lparr>tc_errors := tc_errors t1 @ ys\<rparr>"
  shows "r = tc\<lparr>tc_errors := tc_errors tc @ xs @ ys\<rparr>"
  using assms by simp

lemma check_enum_values_specified:
  "check_enum_values tc ln col vs seen ctx =
     tc\<lparr>tc_errors := tc_errors tc @ specified_enum_values ln col vs seen ctx\<rparr>"
proof (induction vs arbitrary: tc seen)
  case Nil
  show ?case by simp
next
  case (Cons v vs)
  show ?case
  proof (cases "v \<in> seen")
    case True
    then have i: "insert v seen = seen" by auto
    show ?thesis using True Cons [of _ seen] by (simp add: report_error_appends i)
  next
    case False
    then show ?thesis using Cons [of tc "insert v seen"] by simp
  qed
qed

lemma check_enum_type_specified:
  "check_enum_type tc ln col vals ctx =
     tc\<lparr>tc_errors := tc_errors tc @ specified_diagnostics sch i (EnumTypeNode ln col vals) ctx\<rparr>"
  by (simp add: check_enum_type_def check_enum_values_specified report_error_appends)

text \<open>
  The walk of \<^verbatim>\<open>check_type_expr\<close> appends to \<^verbatim>\<open>errors_\<close> exactly the messages specified, and
  changes nothing else.
\<close>

lemma check_type_expr_specified:
  "resolves sch i tc \<Longrightarrow>
   check_type_expr tc e ctx =
     tc\<lparr>tc_errors := tc_errors tc @ specified_diagnostics sch i e ctx\<rparr>"
  "resolves sch i tc \<Longrightarrow>
   check_fields tc flds seen ctx =
     tc\<lparr>tc_errors := tc_errors tc @ specified_fields sch i flds seen ctx\<rparr>"
  "resolves sch i tc \<Longrightarrow>
   check_alternatives tc alts seen ctx =
     tc\<lparr>tc_errors := tc_errors tc @ specified_alternatives sch i alts seen ctx\<rparr>"
proof (induction tc e ctx and tc flds seen ctx and tc alts seen ctx
       rule: check_type_expr_check_fields_check_alternatives.induct)
  case (1 tc ln col flds ctx)
  show ?case
    using "1.IH" [of] "1.prems" by (simp add: report_error_appends)
next
  case (2 tc ln col alts ctx)
  show ?case
    using "2.IH" [of] "2.prems" by (simp add: report_error_appends)
next
  case (3 tc ln col vals ctx)
  show ?case
    using check_enum_type_specified [of tc ln col vals ctx sch i] by simp
next
  case (4 tc kind ln col element_type key_type value_type ctx)
  note r = "4.prems"
  show ?case
  proof (cases "kind = CK_MAP")
    case True
    have m: "\<not> (kind = CK_ARRAY \<or> kind = CK_OPTIONAL)" using True by simp
    show ?thesis
    proof (cases key_type)
      case None
      then show ?thesis using True by (simp add: report_error_appends)
    next
      case k: (Some k)
      show ?thesis
      proof (cases value_type)
        case None
        then show ?thesis using True k by (simp add: report_error_appends)
      next
        case v: (Some v)
        note ih1 = "4.IH"(2) [OF m True k v r]
        have r1: "resolves sch i (check_type_expr tc k (ctx @ '' (map key)''))"
          using r by (simp add: ih1)
        note ih2 = "4.IH"(3) [OF m True k v r1]
        show ?thesis using True k v ih2 by (simp add: ih1)
      qed
    qed
  next
    case False
    then have ao: "kind = CK_ARRAY \<or> kind = CK_OPTIONAL" by (cases kind) auto
    show ?thesis
    proof (cases element_type)
      case None
      then show ?thesis using ao by (auto simp: report_error_appends)
    next
      case e: (Some elem)
      note ih = "4.IH"(1) [OF ao e r]
      show ?thesis
        using ao e
        by (auto simp: ih Let_def report_error_appends split: TypeExprNode.splits)
    qed
  qed
next
  case (5 tc name ln col ctx)
  then show ?case
    by (auto simp: resolves_def is_type_defined_def specified_identifier_def
          TypeChecker_report_error_def undefined_type_error_def forward_reference_error_def
          split: option.splits)
next
  case (6 tc p ln col ctx)
  show ?case by simp
next
  case (7 tc ln col ctx)
  show ?case by simp
next
  case (8 tc field_names ctx)
  show ?case by simp
next
  case (9 tc name ln col ty flds field_names ctx)
  note r = "9.prems"
  define msg where
    "msg = ''Duplicate field name '' @ quoted name @ '' in struct in type '' @ quoted ctx"
  define cx where "cx = ctx @ ''.'' @ name"
  have eq: "check_fields tc (FieldNode name ln col ty # flds) field_names ctx =
              (if name \<in> field_names
               then check_fields (check_type_expr (TypeChecker_report_error tc msg ln col) ty cx)
                      flds field_names ctx
               else check_fields (check_type_expr tc ty cx) flds (insert name field_names) ctx)"
    unfolding msg_def cx_def by simp
  have sp: "specified_fields sch i (FieldNode name ln col ty # flds) field_names ctx =
              (if name \<in> field_names then [diagnostic ln col msg] else []) @
              specified_diagnostics sch i ty cx @
              specified_fields sch i flds (insert name field_names) ctx"
    unfolding msg_def cx_def by simp
  show ?case
  proof (cases "name \<in> field_names")
    case True
    then have ins: "insert name field_names = field_names" by auto
    let ?t = "TypeChecker_report_error tc msg ln col"
    have rt: "resolves sch i ?t" using r by simp
    note a = "9.IH"(1) [OF True, folded msg_def cx_def, OF rt]
    have ra: "resolves sch i (check_type_expr ?t ty cx)"
      using rt by (simp add: a)
    note b = "9.IH"(2) [OF True, folded msg_def cx_def, OF ra]
    show ?thesis
      unfolding eq sp using True
      by (simp only: if_True ins specified_seq [OF specified_seq [OF report_error_appends a] b]
            append_assoc append.simps)
  next
    case False
    note a = "9.IH"(3) [OF False, folded cx_def, OF r]
    have ra: "resolves sch i (check_type_expr tc ty cx)"
      using r by (simp add: a)
    note b = "9.IH"(4) [OF False, folded cx_def, OF ra]
    show ?thesis
      unfolding eq sp using False
      by (simp only: if_False specified_seq [OF a b] append_assoc append.simps)
  qed
next
  case (10 tc alt_names ctx)
  show ?case by simp
next
  case (11 tc name ln col ty alts alt_names ctx)
  note r = "11.prems"
  define msg where
    "msg = ''Duplicate alternative name '' @ quoted name @ '' in variant in type '' @ quoted ctx"
  define cx where "cx = ctx @ ''.'' @ name"
  let ?t = "TypeChecker_report_error tc msg ln col"
  have eq: "check_alternatives tc (AlternativeNode name ln col ty # alts) alt_names ctx =
              (if name \<in> alt_names
               then check_alternatives
                      (case ty of Some t \<Rightarrow> check_type_expr ?t t cx | None \<Rightarrow> ?t)
                      alts alt_names ctx
               else check_alternatives
                      (case ty of Some t \<Rightarrow> check_type_expr tc t cx | None \<Rightarrow> tc)
                      alts (insert name alt_names) ctx)"
    unfolding msg_def cx_def by simp
  have sp: "specified_alternatives sch i (AlternativeNode name ln col ty # alts) alt_names ctx =
              (if name \<in> alt_names then [diagnostic ln col msg] else []) @
              (case ty of Some t \<Rightarrow> specified_diagnostics sch i t cx | None \<Rightarrow> []) @
              specified_alternatives sch i alts (insert name alt_names) ctx"
    unfolding msg_def cx_def by simp
  have rt: "resolves sch i ?t" using r by simp
  show ?case
  proof (cases "name \<in> alt_names")
    case True
    then have ins: "insert name alt_names = alt_names" by auto
    show ?thesis
    proof (cases ty)
      case None
      note b = "11.IH"(2) [OF True, folded msg_def cx_def, unfolded None option.case, OF rt]
      show ?thesis
        unfolding eq sp unfolding None option.case using True
        by (simp only: if_True ins specified_seq [OF report_error_appends b]
              append_assoc append.simps)
    next
      case (Some t)
      note a = "11.IH"(1) [OF True Some, folded msg_def cx_def, OF rt]
      have ra: "resolves sch i (check_type_expr ?t t cx)"
        using rt by (simp add: a)
      note b = "11.IH"(2) [OF True, folded msg_def cx_def, unfolded Some option.case, OF ra]
      show ?thesis
        unfolding eq sp unfolding Some option.case using True
        by (simp only: if_True ins
              specified_seq [OF specified_seq [OF report_error_appends a] b]
              append_assoc append.simps)
    qed
  next
    case False
    show ?thesis
    proof (cases ty)
      case None
      note b = "11.IH"(4) [OF False, folded cx_def, unfolded None option.case, OF r]
      show ?thesis
        unfolding eq sp unfolding None option.case using False
        by (simp only: if_False b append_assoc append.simps)
    next
      case (Some t)
      note a = "11.IH"(3) [OF False Some, folded cx_def, OF r]
      have ra: "resolves sch i (check_type_expr tc t cx)"
        using r by (simp add: a)
      note b = "11.IH"(4) [OF False, folded cx_def, unfolded Some option.case, OF ra]
      show ?thesis
        unfolding eq sp unfolding Some option.case using False
        by (simp only: if_False specified_seq [OF a b] append_assoc append.simps)
    qed
  qed
qed

lemma definition_index_None:
  "(definition_index ds n = None) = (n \<notin> def_name ` set ds)"
  by (induction ds) auto

lemma definition_index_nth:
  "distinct (map def_name ds) \<Longrightarrow> j < length ds \<Longrightarrow>
   definition_index ds (def_name (ds ! j)) = Some j"
proof (induction ds arbitrary: j)
  case Nil
  then show ?case by simp
next
  case (Cons d ds)
  show ?case
  proof (cases j)
    case 0
    then show ?thesis by simp
  next
    case (Suc k)
    then have k: "k < length ds" using Cons.prems(2) by simp
    then have "def_name (ds ! k) \<in> def_name ` set ds" by simp
    then have "def_name d \<noteq> def_name (ds ! k)" using Cons.prems(1) by auto
    then show ?thesis using Suc Cons.IH [of k] Cons.prems(1) k by simp
  qed
qed

lemma validating_fields [simp]:
  "tc_errors (validating sch i errs) = errs"
  "current_definition_index (validating sch i errs) = i"
  "schema (validating sch i errs) = sch"
  "(validating sch i errs)\<lparr>tc_errors := es\<rparr> = validating sch i es"
  "(validating sch i errs)\<lparr>current_definition_index := j\<rparr> = validating sch j errs"
  by (simp_all add: validating_def build_symbol_table_def TypeChecker_ctor_def)

lemma validating_resolves:
  assumes "distinct (map def_name (definitions sch))"
  shows "resolves sch i (validating sch i errs)"
proof -
  let ?t0 = "TypeChecker_ctor sch"
  have e: "\<forall>d \<in> set (definitions sch). symbol_table ?t0 (def_name d) = None"
    by (simp add: TypeChecker_ctor_def)
  have s: "definitions (schema ?t0) = definitions sch" by (simp add: TypeChecker_ctor_def)
  note b = build_loop_distinct [OF assms e, of 0]
  have u: "symbol_table (validating sch i errs) n = None \<and>
           definition_order (validating sch i errs) n = None"
    if "n \<notin> def_name ` set (definitions sch)" for n
    using b that by (simp add: validating_def build_symbol_table_def s TypeChecker_ctor_def)
  have k: "symbol_table (validating sch i errs) (def_name (definitions sch ! j)) =
             Some (definitions sch ! j) \<and>
           definition_order (validating sch i errs) (def_name (definitions sch ! j)) = Some j"
    if "j < length (definitions sch)" for j
    using b that by (auto simp: validating_def build_symbol_table_def s)
  have "(symbol_table (validating sch i errs) n = None) =
          (definition_index (definitions sch) n = None) \<and>
        definition_order (validating sch i errs) n = definition_index (definitions sch) n" for n
  proof (cases "n \<in> def_name ` set (definitions sch)")
    case False
    then show ?thesis
      using u [of n] definition_index_None [of "definitions sch" n] by auto
  next
    case True
    then obtain j where j: "j < length (definitions sch)" "n = def_name (definitions sch ! j)"
      by (auto simp: in_set_conv_nth)
    show ?thesis using k [OF j(1)] definition_index_nth [OF assms j(1)] j(2) by simp
  qed
  then show ?thesis by (simp add: resolves_def)
qed

lemma check_type_expr_validating:
  assumes "distinct (map def_name (definitions sch))"
  shows "check_type_expr (validating sch i errs) e ctx =
           validating sch i (errs @ specified_diagnostics sch i e ctx)"
  using check_type_expr_specified(1) [OF validating_resolves [OF assms], of i errs e ctx]
  by simp

text \<open>
  The first loop of \<^verbatim>\<open>check_type_definitions\<close>, started at the definition of index \<open>k\<close> and
  run over the definitions \<open>ds\<close> that follow: when it returns, it has reported what is
  specified for them, and the index has advanced by their number.
\<close>

lemma check_definitions_loop_specified:
  assumes "distinct (map def_name (definitions sch))"
  shows "\<forall>j < length ds. ds ! j = definitions sch ! (k + j) \<Longrightarrow>
         check_definitions_loop depth (validating sch k errs) ds = Some tc' \<Longrightarrow>
         tc' = validating sch (k + length ds)
                 (errs @ concat (map (specified_definition sch) [k..<k + length ds]))"
proof (induction ds arbitrary: k errs)
  case Nil
  then show ?case by simp
next
  case (Cons d ds)
  let ?t1 = "check_type_expr (validating sch k errs) (def_type d) (def_name d)"
  have d: "d = definitions sch ! k" using Cons.prems(1) by auto
  have t1: "?t1 = validating sch k (errs @ specified_definition sch k)"
    by (simp add: check_type_expr_validating [OF assms] specified_definition_def d)
  have l: "check_leaf_nodes depth ?t1 (def_type d) (def_name d) False = Some ?t1"
    using Cons.prems(2) check_leaf_nodes_unchanged(1) [of depth ?t1 "def_type d" "def_name d" False]
    by (auto simp: check_type_definition_def split: option.splits)
  have r: "check_definitions_loop depth
             (validating sch (Suc k) (errs @ specified_definition sch k)) ds = Some tc'"
    using Cons.prems(2) l by (simp add: check_type_definition_def t1)
  have n: "\<forall>j < length ds. ds ! j = definitions sch ! (Suc k + j)"
    using Cons.prems(1) by auto
  have u: "[k..<k + length (d # ds)] = k # [Suc k..<Suc k + length ds]"
    using upt_conv_Cons [of k "k + length (d # ds)"] by simp
  show ?case using Cons.IH [OF n r] unfolding u by simp
qed

lemma check_definitions_loop_append:
  "check_definitions_loop depth tc (xs @ ys) =
     (case check_definitions_loop depth tc xs of
        None \<Rightarrow> None
      | Some tc1 \<Rightarrow> check_definitions_loop depth tc1 ys)"
  by (induction xs arbitrary: tc) (auto split: option.splits)

lemma circular_loop_errors:
  "circular_loop depth tc ds = Some tc' \<Longrightarrow>
   \<exists>cs. tc_errors tc' = tc_errors tc @ cs \<and> set cs \<subseteq> circular_error ` set ds"
proof (induction ds arbitrary: tc)
  case Nil
  then show ?case by simp
next
  case (Cons d ds)
  show ?case
  proof (cases "has_circular_dependency depth tc (def_name d)")
    case None
    then show ?thesis using Cons.prems by simp
  next
    case (Some p)
    obtain r tc1 where p: "p = (r, tc1)" by (cases p)
    have e: "tc_errors tc1 = tc_errors tc"
      using has_circular_dependency_errors [of depth tc "def_name d" r tc1] Some p by simp
    show ?thesis
    proof (cases r)
      case True
      let ?t = "TypeChecker_report_error tc1
                  (''Circular type dependency detected for: '' @ quoted (def_name d))
                  (def_line d) (def_column d)"
      have "circular_loop depth ?t ds = Some tc'"
        using Cons.prems Some p True by simp
      from Cons.IH [OF this] obtain cs where
        cs: "tc_errors tc' = tc_errors ?t @ cs" "set cs \<subseteq> circular_error ` set ds"
        by auto
      have "tc_errors ?t = tc_errors tc @ [circular_error d]"
        using e by (simp add: report_error_appends circular_error_def)
      then have "tc_errors tc' = tc_errors tc @ (circular_error d # cs)" using cs(1) by simp
      moreover have "set (circular_error d # cs) \<subseteq> circular_error ` set (d # ds)"
        using cs(2) by auto
      ultimately show ?thesis by blast
    next
      case False
      then have "circular_loop depth tc1 ds = Some tc'"
        using Cons.prems Some p by simp
      from Cons.IH [OF this] obtain cs where
        "tc_errors tc' = tc_errors tc1 @ cs" "set cs \<subseteq> circular_error ` set ds"
        by auto
      then show ?thesis using e by auto
    qed
  qed
qed

text \<open>
  \<^verbatim>\<open>check()\<close> on a fresh checker, when the names of the definitions are distinct: the symbol
  table is built without a diagnostic, then the two loops run.
\<close>

lemma check_of_distinct_names:
  assumes "distinct (map def_name (definitions sch))"
  shows "TypeChecker_check depth (TypeChecker_ctor sch) =
           (case check_definitions_loop depth (validating sch 0 []) (definitions sch) of
              None \<Rightarrow> None
            | Some tc1 \<Rightarrow>
                (case circular_loop depth tc1 (definitions (schema tc1)) of
                   None \<Rightarrow> None
                 | Some tc2 \<Rightarrow> Some (\<not> has_errors tc2, tc2)))"
proof -
  let ?t0 = "TypeChecker_ctor sch"
  have c: "?t0\<lparr>tc_errors := [], symbol_table := Map.empty, visiting := {}, visited := {}\<rparr> = ?t0"
    by (simp add: TypeChecker_ctor_def)
  have e: "\<forall>d \<in> set (definitions sch). symbol_table ?t0 (def_name d) = None"
    by (simp add: TypeChecker_ctor_def)
  have s: "definitions (schema ?t0) = definitions sch" by (simp add: TypeChecker_ctor_def)
  have n: "tc_errors (build_symbol_table ?t0) = []"
    using build_loop_distinct [OF assms e, of 0]
    by (simp add: build_symbol_table_def s TypeChecker_ctor_def)
  have v: "(build_symbol_table ?t0)\<lparr>current_definition_index := 0\<rparr> = validating sch 0 []"
    using n by (simp add: validating_def)
  have d: "definitions (schema (build_symbol_table ?t0)) = definitions sch"
    by (simp add: build_symbol_table_def s)
  show ?thesis
    unfolding TypeChecker_check_def c Let_def check_type_definitions_def v d
    using n by (simp add: has_errors_def split: option.splits)
qed

text \<open>
  When \<^verbatim>\<open>check()\<close> returns on such a schema, \<^verbatim>\<open>errors()\<close> holds what is specified for all the
  definitions, in order, then what the cycle detection reports.
\<close>

lemma check_errors_specified:
  assumes "distinct (map def_name (definitions sch))"
    and "TypeChecker_check depth (TypeChecker_ctor sch) = Some (ok, tc)"
  shows "ok = (tc_errors tc = [])"
    and "\<exists>cs. tc_errors tc = specified_validation sch (length (definitions sch)) @ cs \<and>
              set cs \<subseteq> circular_error ` set (definitions sch)"
proof -
  obtain tc1 where
    l: "check_definitions_loop depth (validating sch 0 []) (definitions sch) = Some tc1"
    and c: "circular_loop depth tc1 (definitions (schema tc1)) = Some tc"
    and o: "ok = (\<not> has_errors tc)"
    using assms(2) unfolding check_of_distinct_names [OF assms(1)]
    by (auto split: option.splits)
  have "\<forall>j < length (definitions sch). definitions sch ! j = definitions sch ! (0 + j)"
    by simp
  from check_definitions_loop_specified [OF assms(1) this l]
  have t: "tc1 = validating sch (length (definitions sch))
                   (specified_validation sch (length (definitions sch)))"
    by (simp add: specified_validation_def)
  show "ok = (tc_errors tc = [])" using o by (simp add: has_errors_def)
  show "\<exists>cs. tc_errors tc = specified_validation sch (length (definitions sch)) @ cs \<and>
              set cs \<subseteq> circular_error ` set (definitions sch)"
    using circular_loop_errors [OF c] unfolding t by simp
qed

text \<open>
  Claim C5. Take a schema whose definition names are distinct (the only schemas whose
  definitions are validated) and a fresh checker on it.

  \<^item> On an identifier node \<open>n\<close>, in the definition of index \<open>i\<close>, \<^verbatim>\<open>check_type_expr\<close> appends
    exactly: the \<^verbatim>\<open>Undefined type\<close> diagnostic when no definition is named \<open>n\<close>; the
    \<^verbatim>\<open>Forward reference\<close> diagnostic when the definition named \<open>n\<close> has an index \<open>j > i\<close>;
    and nothing when \<open>j \<le> i\<close> (an earlier definition, or the definition itself).
  \<^item> On any type expression it appends what is specified for the expression, where every
    identifier node that the walk meets contributes as above.
  \<^item> When the loop over the definitions has returned from the definitions before index
    \<open>i\<close>, the checker is at index \<open>i\<close> with their diagnostics, and the walk of definition \<open>i\<close>
    adds those of definition \<open>i\<close>.
  \<^item> When \<^verbatim>\<open>check()\<close> returns, \<^verbatim>\<open>errors()\<close> holds the diagnostics specified for all the
    definitions, in order, followed by \<^verbatim>\<open>Circular type dependency\<close> diagnostics only; the
    result is true exactly when there is none.
\<close>

theorem identifier_resolution:
  assumes "distinct (map def_name (definitions sch))"
  shows
    "(n \<notin> def_name ` set (definitions sch) \<longrightarrow>
        check_type_expr (validating sch i errs) (IdentifierTypeNode n ln col) ctx =
          validating sch i (errs @ [undefined_type_error n ln col ctx])) \<and>
     (\<forall>j < length (definitions sch). def_name (definitions sch ! j) = n \<longrightarrow>
        check_type_expr (validating sch i errs) (IdentifierTypeNode n ln col) ctx =
          validating sch i
            (if i < j then errs @ [forward_reference_error n ln col ctx] else errs)) \<and>
     check_type_expr (validating sch i errs) e ctx =
       validating sch i (errs @ specified_diagnostics sch i e ctx) \<and>
     (i < length (definitions sch) \<and>
      check_definitions_loop depth (validating sch 0 []) (take i (definitions sch)) = Some tc_i
      \<longrightarrow>
        tc_i = validating sch i (specified_validation sch i) \<and>
        check_type_expr tc_i (def_type (definitions sch ! i)) (def_name (definitions sch ! i)) =
          validating sch i (specified_validation sch (Suc i))) \<and>
     (TypeChecker_check depth (TypeChecker_ctor sch) = Some (ok, tc) \<longrightarrow>
        ok = (tc_errors tc = []) \<and>
        (\<exists>cs. tc_errors tc = specified_validation sch (length (definitions sch)) @ cs \<and>
              set cs \<subseteq> circular_error ` set (definitions sch)))"
proof (intro conjI allI impI)
  assume "n \<notin> def_name ` set (definitions sch)"
  then have "definition_index (definitions sch) n = None"
    by (simp add: definition_index_None)
  then show "check_type_expr (validating sch i errs) (IdentifierTypeNode n ln col) ctx =
          validating sch i (errs @ [undefined_type_error n ln col ctx])"
    unfolding check_type_expr_validating [OF assms] by (simp add: specified_identifier_def)
next
  fix j assume "j < length (definitions sch)" and "def_name (definitions sch ! j) = n"
  then have "definition_index (definitions sch) n = Some j"
    using definition_index_nth [OF assms] by auto
  then show "check_type_expr (validating sch i errs) (IdentifierTypeNode n ln col) ctx =
          validating sch i
            (if i < j then errs @ [forward_reference_error n ln col ctx] else errs)"
    unfolding check_type_expr_validating [OF assms] by (simp add: specified_identifier_def)
next
  show "check_type_expr (validating sch i errs) e ctx =
       validating sch i (errs @ specified_diagnostics sch i e ctx)"
    by (rule check_type_expr_validating [OF assms])
next
  assume a: "i < length (definitions sch) \<and>
      check_definitions_loop depth (validating sch 0 []) (take i (definitions sch)) = Some tc_i"
  then have len: "length (take i (definitions sch)) = i" by simp
  have "\<forall>j < length (take i (definitions sch)).
          take i (definitions sch) ! j = definitions sch ! (0 + j)"
    by simp
  from check_definitions_loop_specified [OF assms this, of depth "[]" tc_i] a
  show t: "tc_i = validating sch i (specified_validation sch i)"
    unfolding len by (simp add: specified_validation_def)
  show "check_type_expr tc_i (def_type (definitions sch ! i)) (def_name (definitions sch ! i)) =
          validating sch i (specified_validation sch (Suc i))"
    unfolding t check_type_expr_validating [OF assms]
    by (simp add: specified_validation_def specified_definition_def)
next
  assume a: "TypeChecker_check depth (TypeChecker_ctor sch) = Some (ok, tc)"
  show "ok = (tc_errors tc = [])"
    by (rule check_errors_specified(1) [OF assms a])
  show "\<exists>cs. tc_errors tc = specified_validation sch (length (definitions sch)) @ cs \<and>
              set cs \<subseteq> circular_error ` set (definitions sch)"
    by (rule check_errors_specified(2) [OF assms a])
qed

text \<open>
  A schema with the three kinds of identifier: in \<^verbatim>\<open>First\<close>, \<^verbatim>\<open>Missing\<close> is not defined and
  \<^verbatim>\<open>Second\<close> is defined later; in \<^verbatim>\<open>Third\<close>, \<^verbatim>\<open>Second\<close> is defined earlier.
\<close>

definition resolution_schema :: SchemaNode where
  "resolution_schema =
     SchemaNode 1 1
       [TypeDefinitionNode ''First'' 1 1
          (StructTypeNode 1 9
             [FieldNode ''a'' 1 18 (IdentifierTypeNode ''Missing'' 1 21),
              FieldNode ''b'' 1 30 (IdentifierTypeNode ''Second'' 1 33)]),
        TypeDefinitionNode ''Second'' 2 1
          (StructTypeNode 2 10 [FieldNode ''value'' 2 19 (PrimitiveTypeNode PT_U32 2 26)]),
        TypeDefinitionNode ''Third'' 3 1
          (StructTypeNode 3 9 [FieldNode ''s'' 3 18 (IdentifierTypeNode ''Second'' 3 21)])]"

text \<open>
  The hypotheses of C5 hold there, and on scenario 4 for the reference of a definition to
  itself: the walk of \<^verbatim>\<open>Node : struct { child: Node }\<close> reports nothing (it is the walk of
  the leaves that follows which does not return).
\<close>

theorem identifier_resolution_witness:
  "distinct (map def_name (definitions resolution_schema)) \<and>
   ''Missing'' \<notin> def_name ` set (definitions resolution_schema) \<and>
   check_type_expr (validating resolution_schema 0 [])
     (IdentifierTypeNode ''Missing'' 1 21) ''First.a'' =
     validating resolution_schema 0 [undefined_type_error ''Missing'' 1 21 ''First.a''] \<and>
   1 < length (definitions resolution_schema) \<and>
   def_name (definitions resolution_schema ! 1) = ''Second'' \<and>
   check_type_expr (validating resolution_schema 0 [])
     (IdentifierTypeNode ''Second'' 1 33) ''First.b'' =
     validating resolution_schema 0 [forward_reference_error ''Second'' 1 33 ''First.b''] \<and>
   check_type_expr (validating resolution_schema 2 [])
     (IdentifierTypeNode ''Second'' 3 21) ''Third.s'' = validating resolution_schema 2 [] \<and>
   (\<exists>tc_2. check_definitions_loop 4 (validating resolution_schema 0 [])
              (take 2 (definitions resolution_schema)) = Some tc_2 \<and>
           tc_2 = validating resolution_schema 2
                    [undefined_type_error ''Missing'' 1 21 ''First.a'',
                     forward_reference_error ''Second'' 1 33 ''First.b''] \<and>
           check_type_expr tc_2 (def_type (definitions resolution_schema ! 2))
             (def_name (definitions resolution_schema ! 2)) =
             validating resolution_schema 2
               [undefined_type_error ''Missing'' 1 21 ''First.a'',
                forward_reference_error ''Second'' 1 33 ''First.b'']) \<and>
   (\<exists>tc. TypeChecker_check 4 (TypeChecker_ctor resolution_schema) = Some (False, tc) \<and>
         (\<exists>cs. tc_errors tc =
                 [undefined_type_error ''Missing'' 1 21 ''First.a'',
                  forward_reference_error ''Second'' 1 33 ''First.b''] @ cs)) \<and>
   distinct (map def_name (definitions self_reference_schema)) \<and>
   def_name (definitions self_reference_schema ! 0) = ''Node'' \<and>
   check_type_expr (validating self_reference_schema 0 [])
     (IdentifierTypeNode ''Node'' 1 24) ''Node.child'' = validating self_reference_schema 0 [] \<and>
   check_type_expr (validating self_reference_schema 0 [])
     (def_type (definitions self_reference_schema ! 0))
     (def_name (definitions self_reference_schema ! 0)) = validating self_reference_schema 0 []"
proof -
  let ?u = "undefined_type_error ''Missing'' 1 21 ''First.a''"
  let ?f = "forward_reference_error ''Second'' 1 33 ''First.b''"
  have d: "distinct (map def_name (definitions resolution_schema))"
    by (simp add: resolution_schema_def)
  have m: "''Missing'' \<notin> def_name ` set (definitions resolution_schema)"
    by (simp add: resolution_schema_def)
  have j: "1 < length (definitions resolution_schema)"
          "def_name (definitions resolution_schema ! 1) = ''Second''"
          "2 < length (definitions resolution_schema)"
    by (simp_all add: resolution_schema_def)
  have v2: "specified_validation resolution_schema 2 = [?u, ?f]"
    by code_simp
  have v3: "specified_validation resolution_schema (Suc 2) = [?u, ?f]"
    by code_simp
  have vn: "specified_validation resolution_schema (length (definitions resolution_schema)) =
              [?u, ?f]"
    by code_simp
  have "map_option tc_errors
          (check_definitions_loop 4 (validating resolution_schema 0 [])
             (take 2 (definitions resolution_schema))) = Some [?u, ?f]"
    by code_simp
  then obtain tc_2 where
    l: "check_definitions_loop 4 (validating resolution_schema 0 [])
          (take 2 (definitions resolution_schema)) = Some tc_2"
    by auto
  have "map_option fst (TypeChecker_check 4 (TypeChecker_ctor resolution_schema)) = Some False"
    by code_simp
  then obtain tc where
    c: "TypeChecker_check 4 (TypeChecker_ctor resolution_schema) = Some (False, tc)"
    by auto
  have ds: "distinct (map def_name (definitions self_reference_schema))"
    by (simp add: self_reference_schema_def)
  have js: "0 < length (definitions self_reference_schema)"
           "def_name (definitions self_reference_schema ! 0) = ''Node''"
    by (simp_all add: self_reference_schema_def self_reference_def_def)
  have ls: "check_definitions_loop 0 (validating self_reference_schema 0 [])
              (take 0 (definitions self_reference_schema)) =
            Some (validating self_reference_schema 0 [])"
    by simp
  have vs: "specified_validation self_reference_schema (Suc 0) = []"
    by code_simp
  note r1 = identifier_resolution
              [OF d, of "''Missing''" 0 "[]" 1 21 "''First.a''" "RefTypeNode 0 0" 4 tc_2 False tc]
  note r2 = identifier_resolution
              [OF d, of "''Second''" 0 "[]" 1 33 "''First.b''" "RefTypeNode 0 0" 4 tc_2 False tc]
  note r3 = identifier_resolution
              [OF d, of "''Second''" 2 "[]" 3 21 "''Third.s''" "RefTypeNode 0 0" 4 tc_2 False tc]
  note r4 = identifier_resolution
              [OF ds, of "''Node''" 0 "[]" 1 24 "''Node.child''" "RefTypeNode 0 0" 0
                 "validating self_reference_schema 0 []" False tc]
  have a1: "check_type_expr (validating resolution_schema 0 [])
              (IdentifierTypeNode ''Missing'' 1 21) ''First.a'' =
            validating resolution_schema 0 [?u]"
    using r1 m by (simp del: check_type_expr.simps)
  have "check_type_expr (validating resolution_schema 0 [])
              (IdentifierTypeNode ''Second'' 1 33) ''First.b'' =
            validating resolution_schema 0 (if (0::nat) < 1 then [] @ [?f] else [])"
    using r2 j(1,2) by blast
  then have a2: "check_type_expr (validating resolution_schema 0 [])
              (IdentifierTypeNode ''Second'' 1 33) ''First.b'' =
            validating resolution_schema 0 [?f]"
    by (simp del: check_type_expr.simps)
  have "check_type_expr (validating resolution_schema 2 [])
              (IdentifierTypeNode ''Second'' 3 21) ''Third.s'' =
            validating resolution_schema 2 (if (2::nat) < 1 then [] @
              [forward_reference_error ''Second'' 3 21 ''Third.s''] else [])"
    using r3 j(1,2) by blast
  then have a3: "check_type_expr (validating resolution_schema 2 [])
              (IdentifierTypeNode ''Second'' 3 21) ''Third.s'' = validating resolution_schema 2 []"
    by (simp del: check_type_expr.simps)
  have "tc_2 = validating resolution_schema 2 (specified_validation resolution_schema 2) \<and>
        check_type_expr tc_2 (def_type (definitions resolution_schema ! 2))
          (def_name (definitions resolution_schema ! 2)) =
        validating resolution_schema 2 (specified_validation resolution_schema (Suc 2))"
    using r3 j(3) l by blast
  then have a4: "tc_2 = validating resolution_schema 2 [?u, ?f] \<and>
            check_type_expr tc_2 (def_type (definitions resolution_schema ! 2))
              (def_name (definitions resolution_schema ! 2)) =
            validating resolution_schema 2 [?u, ?f]"
    unfolding v2 v3 .
  have "\<exists>cs. tc_errors tc =
          specified_validation resolution_schema (length (definitions resolution_schema)) @ cs"
    using r3 c by blast
  then have a5: "\<exists>cs. tc_errors tc = [?u, ?f] @ cs"
    unfolding vn .
  have "check_type_expr (validating self_reference_schema 0 [])
              (IdentifierTypeNode ''Node'' 1 24) ''Node.child'' =
            validating self_reference_schema 0
              (if (0::nat) < 0 then [] @ [forward_reference_error ''Node'' 1 24 ''Node.child'']
               else [])"
    using r4 js by blast
  then have a6: "check_type_expr (validating self_reference_schema 0 [])
              (IdentifierTypeNode ''Node'' 1 24) ''Node.child'' =
            validating self_reference_schema 0 []"
    by (simp del: check_type_expr.simps)
  have "check_type_expr (validating self_reference_schema 0 [])
              (def_type (definitions self_reference_schema ! 0))
              (def_name (definitions self_reference_schema ! 0)) =
            validating self_reference_schema 0
              (specified_validation self_reference_schema (Suc 0))"
    using r4 js(1) ls by blast
  then have a7: "check_type_expr (validating self_reference_schema 0 [])
              (def_type (definitions self_reference_schema ! 0))
              (def_name (definitions self_reference_schema ! 0)) =
            validating self_reference_schema 0 []"
    unfolding vs .
  show ?thesis
    using d m j(1,2) a1 a2 a3 a4 a5 a6 a7 l c ds js(2) by blast
qed

text \<open>
  Scenario 5 of the specification,
  \<^verbatim>\<open>First : struct { second: Second }\<close> followed on the next line by
  \<^verbatim>\<open>Second : struct { value: u32 }\<close>, as the parser builds it: the analysis fails with the
  forward-reference diagnostic.
\<close>

definition forward_reference_schema :: SchemaNode where
  "forward_reference_schema =
     SchemaNode 1 1
       [TypeDefinitionNode ''First'' 1 1
          (StructTypeNode 1 9 [FieldNode ''second'' 1 18 (IdentifierTypeNode ''Second'' 1 26)]),
        TypeDefinitionNode ''Second'' 2 1
          (StructTypeNode 2 10 [FieldNode ''value'' 2 19 (PrimitiveTypeNode PT_U32 2 26)])]"

lemma forward_reference_scenario:
  "map_option (\<lambda>(ok, tc). (ok, tc_errors tc))
     (TypeChecker_check 4 (TypeChecker_ctor forward_reference_schema)) =
   Some (False, [forward_reference_error ''Second'' 1 26 ''First.second''])"
  by code_simp

subsection \<open>Nested optionals\<close>

definition is_optional :: "TypeExprNode \<Rightarrow> bool" where
  "is_optional expr =
     (case expr of ContainerTypeNode kind ln col e k v \<Rightarrow> kind = CK_OPTIONAL | _ \<Rightarrow> False)"

text \<open>
  \<open>directly_nested\<close>: somewhere in the tree, whatever member of a node leads there, an
  optional container has an optional container as its element.
\<close>

fun directly_nested :: "TypeExprNode \<Rightarrow> bool"
  and directly_nested_fields :: "FieldNode list \<Rightarrow> bool"
  and directly_nested_alternatives :: "AlternativeNode list \<Rightarrow> bool"
where
  "directly_nested (StructTypeNode ln col flds) = directly_nested_fields flds"
| "directly_nested (VariantTypeNode ln col alts) = directly_nested_alternatives alts"
| "directly_nested (EnumTypeNode ln col vals) = False"
| "directly_nested (PrimitiveTypeNode p ln col) = False"
| "directly_nested (ContainerTypeNode kind ln col e k v) =
     ((kind = CK_OPTIONAL \<and> (case e of Some x \<Rightarrow> is_optional x | None \<Rightarrow> False)) \<or>
      (case e of Some x \<Rightarrow> directly_nested x | None \<Rightarrow> False) \<or>
      (case k of Some x \<Rightarrow> directly_nested x | None \<Rightarrow> False) \<or>
      (case v of Some x \<Rightarrow> directly_nested x | None \<Rightarrow> False))"
| "directly_nested (RefTypeNode ln col) = False"
| "directly_nested (IdentifierTypeNode name ln col) = False"
| "directly_nested_fields [] = False"
| "directly_nested_fields (FieldNode name ln col ty # flds) =
     (directly_nested ty \<or> directly_nested_fields flds)"
| "directly_nested_alternatives [] = False"
| "directly_nested_alternatives (AlternativeNode name ln col ty # alts) =
     ((case ty of Some x \<Rightarrow> directly_nested x | None \<Rightarrow> False) \<or>
      directly_nested_alternatives alts)"

text \<open>
  The reading of the claim: an optional container wraps another one directly or through
  container nodes only. \<open>optional_below\<close>: the expression is an optional container, or a
  container with an optional container below it through containers only.
\<close>

fun optional_below :: "TypeExprNode \<Rightarrow> bool" where
  "optional_below (ContainerTypeNode kind ln col e k v) =
     (kind = CK_OPTIONAL \<or>
      (case e of Some x \<Rightarrow> optional_below x | None \<Rightarrow> False) \<or>
      (case k of Some x \<Rightarrow> optional_below x | None \<Rightarrow> False) \<or>
      (case v of Some x \<Rightarrow> optional_below x | None \<Rightarrow> False))"
| "optional_below (StructTypeNode ln col flds) = False"
| "optional_below (VariantTypeNode ln col alts) = False"
| "optional_below (EnumTypeNode ln col vals) = False"
| "optional_below (PrimitiveTypeNode p ln col) = False"
| "optional_below (RefTypeNode ln col) = False"
| "optional_below (IdentifierTypeNode name ln col) = False"

fun transitively_nested :: "TypeExprNode \<Rightarrow> bool"
  and transitively_nested_fields :: "FieldNode list \<Rightarrow> bool"
  and transitively_nested_alternatives :: "AlternativeNode list \<Rightarrow> bool"
where
  "transitively_nested (StructTypeNode ln col flds) = transitively_nested_fields flds"
| "transitively_nested (VariantTypeNode ln col alts) = transitively_nested_alternatives alts"
| "transitively_nested (EnumTypeNode ln col vals) = False"
| "transitively_nested (PrimitiveTypeNode p ln col) = False"
| "transitively_nested (ContainerTypeNode kind ln col e k v) =
     ((kind = CK_OPTIONAL \<and> (case e of Some x \<Rightarrow> optional_below x | None \<Rightarrow> False)) \<or>
      (case e of Some x \<Rightarrow> transitively_nested x | None \<Rightarrow> False) \<or>
      (case k of Some x \<Rightarrow> transitively_nested x | None \<Rightarrow> False) \<or>
      (case v of Some x \<Rightarrow> transitively_nested x | None \<Rightarrow> False))"
| "transitively_nested (RefTypeNode ln col) = False"
| "transitively_nested (IdentifierTypeNode name ln col) = False"
| "transitively_nested_fields [] = False"
| "transitively_nested_fields (FieldNode name ln col ty # flds) =
     (transitively_nested ty \<or> transitively_nested_fields flds)"
| "transitively_nested_alternatives [] = False"
| "transitively_nested_alternatives (AlternativeNode name ln col ty # alts) =
     ((case ty of Some x \<Rightarrow> transitively_nested x | None \<Rightarrow> False) \<or>
      transitively_nested_alternatives alts)"

text \<open>
  The trees that \<^verbatim>\<open>parse_container_type\<close> can build: it fills \<^verbatim>\<open>key_type\<close> and \<^verbatim>\<open>value_type\<close>
  of a map and \<^verbatim>\<open>element_type\<close> of an array or an optional, and leaves the other members
  null. Each member it fills may be null too, after a syntax error.
\<close>

fun parser_shaped :: "TypeExprNode \<Rightarrow> bool"
  and parser_shaped_fields :: "FieldNode list \<Rightarrow> bool"
  and parser_shaped_alternatives :: "AlternativeNode list \<Rightarrow> bool"
where
  "parser_shaped (StructTypeNode ln col flds) = parser_shaped_fields flds"
| "parser_shaped (VariantTypeNode ln col alts) = parser_shaped_alternatives alts"
| "parser_shaped (EnumTypeNode ln col vals) = True"
| "parser_shaped (PrimitiveTypeNode p ln col) = True"
| "parser_shaped (ContainerTypeNode kind ln col e k v) =
     ((if kind = CK_MAP then e = None else k = None \<and> v = None) \<and>
      (case e of Some x \<Rightarrow> parser_shaped x | None \<Rightarrow> True) \<and>
      (case k of Some x \<Rightarrow> parser_shaped x | None \<Rightarrow> True) \<and>
      (case v of Some x \<Rightarrow> parser_shaped x | None \<Rightarrow> True))"
| "parser_shaped (RefTypeNode ln col) = True"
| "parser_shaped (IdentifierTypeNode name ln col) = True"
| "parser_shaped_fields [] = True"
| "parser_shaped_fields (FieldNode name ln col ty # flds) =
     (parser_shaped ty \<and> parser_shaped_fields flds)"
| "parser_shaped_alternatives [] = True"
| "parser_shaped_alternatives (AlternativeNode name ln col ty # alts) =
     ((case ty of Some x \<Rightarrow> parser_shaped x | None \<Rightarrow> True) \<and>
      parser_shaped_alternatives alts)"

text \<open>
  The trees it builds when there is no syntax error: moreover a map has its key and its
  value, an array or an optional has its element.
\<close>

fun well_formed :: "TypeExprNode \<Rightarrow> bool"
  and well_formed_fields :: "FieldNode list \<Rightarrow> bool"
  and well_formed_alternatives :: "AlternativeNode list \<Rightarrow> bool"
where
  "well_formed (StructTypeNode ln col flds) = well_formed_fields flds"
| "well_formed (VariantTypeNode ln col alts) = well_formed_alternatives alts"
| "well_formed (EnumTypeNode ln col vals) = True"
| "well_formed (PrimitiveTypeNode p ln col) = True"
| "well_formed (ContainerTypeNode kind ln col e k v) =
     ((if kind = CK_MAP then e = None \<and> k \<noteq> None \<and> v \<noteq> None
       else e \<noteq> None \<and> k = None \<and> v = None) \<and>
      (case e of Some x \<Rightarrow> well_formed x | None \<Rightarrow> True) \<and>
      (case k of Some x \<Rightarrow> well_formed x | None \<Rightarrow> True) \<and>
      (case v of Some x \<Rightarrow> well_formed x | None \<Rightarrow> True))"
| "well_formed (RefTypeNode ln col) = True"
| "well_formed (IdentifierTypeNode name ln col) = True"
| "well_formed_fields [] = True"
| "well_formed_fields (FieldNode name ln col ty # flds) =
     (well_formed ty \<and> well_formed_fields flds)"
| "well_formed_alternatives [] = True"
| "well_formed_alternatives (AlternativeNode name ln col ty # alts) =
     ((case ty of Some x \<Rightarrow> well_formed x | None \<Rightarrow> True) \<and>
      well_formed_alternatives alts)"

definition nested_optional_error :: "nat \<Rightarrow> nat \<Rightarrow> string \<Rightarrow> string" where
  "nested_optional_error ln col ctx =
     ''Line '' @ to_string ln @ '', Column '' @ to_string col @ '': '' @
     ''Nested optional types (optional<optional<T>>) are not allowed in '' @ quoted ctx"

lemma well_formed_parser_shaped:
  "well_formed e \<Longrightarrow> parser_shaped e"
  "well_formed_fields flds \<Longrightarrow> parser_shaped_fields flds"
  "well_formed_alternatives alts \<Longrightarrow> parser_shaped_alternatives alts"
proof (induction e and flds and alts
       rule: well_formed_well_formed_fields_well_formed_alternatives.induct)
  case (5 kind ln col e k v)
  then show ?case by (auto split: option.splits if_splits)
next
  case (11 name ln col ty alts)
  then show ?case by (auto split: option.splits)
qed simp_all

definition nerr :: "TypeChecker \<Rightarrow> nat" where
  "nerr tc = length (tc_errors tc)"

lemma nerr_report_error [simp]: "nerr (TypeChecker_report_error tc m l c) = Suc (nerr tc)"
  by (simp add: nerr_def)

lemma nerr_check_enum_values: "nerr tc \<le> nerr (check_enum_values tc ln col vs seen ctx)"
proof (induction vs arbitrary: tc seen)
  case Nil
  show ?case by simp
next
  case (Cons v vs)
  show ?case
    using Cons [of "TypeChecker_report_error tc
        (''Duplicate enum value '' @ quoted v @ '' in type '' @ quoted ctx) ln col" seen]
      Cons [of tc "insert v seen"]
    by auto
qed

lemma nerr_check_enum_type: "nerr tc \<le> nerr (check_enum_type tc ln col vals ctx)"
  using nerr_check_enum_values
    [of "TypeChecker_report_error tc
           (''Enum must have at least one value in type '' @ quoted ctx) ln col" ln col vals "{}" ctx]
    nerr_check_enum_values [of tc ln col vals "{}" ctx]
  by (auto simp: check_enum_type_def)

lemma nerr_check_type_expr:
  "nerr tc \<le> nerr (check_type_expr tc e ctx) \<and>
   (parser_shaped e \<and> directly_nested e \<longrightarrow> nerr tc < nerr (check_type_expr tc e ctx))"
  "nerr tc \<le> nerr (check_fields tc flds names ctx) \<and>
   (parser_shaped_fields flds \<and> directly_nested_fields flds \<longrightarrow>
      nerr tc < nerr (check_fields tc flds names ctx))"
  "nerr tc \<le> nerr (check_alternatives tc alts names ctx) \<and>
   (parser_shaped_alternatives alts \<and> directly_nested_alternatives alts \<longrightarrow>
      nerr tc < nerr (check_alternatives tc alts names ctx))"
proof (induction tc e ctx and tc flds names ctx and tc alts names ctx
       rule: check_type_expr_check_fields_check_alternatives.induct)
  case (1 tc ln col flds ctx)
  then show ?case by (auto simp: le_Suc_eq dest: Suc_leD Suc_lessD)
next
  case (2 tc ln col alts ctx)
  then show ?case by (auto dest: Suc_leD Suc_lessD)
next
  case (3 tc ln col vals ctx)
  then show ?case by (simp add: nerr_check_enum_type)
next
  case (4 tc kind ln col element_type key_type value_type ctx)
  show ?case
  proof (cases "kind = CK_MAP")
    case True
    show ?thesis
    proof (cases key_type)
      case None
      then show ?thesis using True by simp
    next
      case k: (Some k)
      show ?thesis
      proof (cases value_type)
        case None
        then show ?thesis using True k by simp
      next
        case v: (Some v)
        have m: "\<not> (kind = CK_ARRAY \<or> kind = CK_OPTIONAL)" using True by simp
        note ih1 = "4.IH"(2) [OF m True k v]
        note ih2 = "4.IH"(3) [OF m True k v]
        show ?thesis using True k v ih1 ih2 by auto
      qed
    qed
  next
    case False
    then have ao: "kind = CK_ARRAY \<or> kind = CK_OPTIONAL" by (cases kind) auto
    show ?thesis
    proof (cases element_type)
      case None
      then show ?thesis using ao False by auto
    next
      case e: (Some elem)
      note ih = "4.IH"(1) [OF ao e]
      show ?thesis
        using ao False e ih
        by (auto simp: Let_def is_optional_def split: TypeExprNode.splits)
    qed
  qed
next
  case (5 tc name ln col ctx)
  then show ?case by (simp split: option.splits)
next
  case (6 tc p ln col ctx)
  then show ?case by simp
next
  case (7 tc ln col ctx)
  then show ?case by simp
next
  case (8 tc field_names ctx)
  then show ?case by simp
next
  case (9 tc name ln col ty flds field_names ctx)
  show ?case
  proof (cases "name \<in> field_names")
    case True
    note a = "9.IH"(1) [OF True] and b = "9.IH"(2) [OF True]
    show ?thesis using True a b by auto
  next
    case False
    note a = "9.IH"(3) [OF False] and b = "9.IH"(4) [OF False]
    show ?thesis using False a b by auto
  qed
next
  case (10 tc alt_names ctx)
  then show ?case by simp
next
  case (11 tc name ln col ty alts alt_names ctx)
  show ?case
  proof (cases "name \<in> alt_names")
    case True
    show ?thesis
    proof (cases ty)
      case None
      note b = "11.IH"(2) [OF True]
      show ?thesis using True None b by auto
    next
      case (Some t)
      note a = "11.IH"(1) [OF True Some] and b = "11.IH"(2) [OF True]
      show ?thesis using True Some a b by auto
    qed
  next
    case False
    show ?thesis
    proof (cases ty)
      case None
      note b = "11.IH"(4) [OF False]
      show ?thesis using False None b by auto
    next
      case (Some t)
      note a = "11.IH"(3) [OF False Some] and b = "11.IH"(4) [OF False]
      show ?thesis using False Some a b by auto
    qed
  qed
qed


lemma circular_loop_nerr: "circular_loop depth tc defs = Some tc' \<Longrightarrow> nerr tc \<le> nerr tc'"
proof (induction defs arbitrary: tc)
  case Nil
  then show ?case by simp
next
  case (Cons d defs)
  show ?case
  proof (cases "has_circular_dependency depth tc (def_name d)")
    case None
    then show ?thesis using Cons.prems by simp
  next
    case (Some p)
    obtain r tc1 where p: "p = (r, tc1)" by (cases p)
    have e: "nerr tc1 = nerr tc"
      using has_circular_dependency_errors [of depth tc "def_name d" r tc1] Some p
      by (simp add: nerr_def)
    show ?thesis
    proof (cases r)
      case True
      then have "circular_loop depth
                   (TypeChecker_report_error tc1
                      (''Circular type dependency detected for: '' @ quoted (def_name d))
                      (def_line d) (def_column d)) defs = Some tc'"
        using Cons.prems Some p by simp
      then show ?thesis using Cons.IH e by fastforce
    next
      case False
      then have "circular_loop depth tc1 defs = Some tc'"
        using Cons.prems Some p by simp
      then show ?thesis using Cons.IH e by fastforce
    qed
  qed
qed

lemma check_definitions_loop_nerr:
  "check_definitions_loop depth tc defs = Some tc' \<Longrightarrow>
   nerr tc \<le> nerr tc' \<and>
   ((\<exists>d \<in> set defs. parser_shaped (def_type d) \<and> directly_nested (def_type d)) \<longrightarrow>
      nerr tc < nerr tc')"
proof (induction defs arbitrary: tc)
  case Nil
  then show ?case by simp
next
  case (Cons d defs)
  let ?t1 = "check_type_expr tc (def_type d) (def_name d)"
  have l: "check_leaf_nodes depth ?t1 (def_type d) (def_name d) False = Some ?t1"
    using Cons.prems check_leaf_nodes_unchanged(1) [of depth ?t1 "def_type d" "def_name d" False]
    by (auto simp: check_type_definition_def split: option.splits)
  then have r: "check_definitions_loop depth
                  (?t1\<lparr>current_definition_index := current_definition_index ?t1 + 1\<rparr>) defs
                = Some tc'"
    using Cons.prems by (simp add: check_type_definition_def)
  have n: "nerr (?t1\<lparr>current_definition_index := current_definition_index ?t1 + 1\<rparr>) = nerr ?t1"
    by (simp add: nerr_def)
  show ?case
    using Cons.IH [OF r] n nerr_check_type_expr(1) [of tc "def_type d" "def_name d"]
    by auto
qed

text \<open>
  In a tree built without a syntax error, the walk specified for validation reaches every
  optional whose element is an optional, and reports it.
\<close>

lemma specified_nested:
  "well_formed e \<and> directly_nested e \<longrightarrow>
     (\<exists>l c x. nested_optional_error l c x \<in> set (specified_diagnostics sch i e ctx))"
  "well_formed_fields flds \<and> directly_nested_fields flds \<longrightarrow>
     (\<exists>l c x. nested_optional_error l c x \<in> set (specified_fields sch i flds seen ctx))"
  "well_formed_alternatives alts \<and> directly_nested_alternatives alts \<longrightarrow>
     (\<exists>l c x. nested_optional_error l c x \<in> set (specified_alternatives sch i alts seen ctx))"
proof (induction sch i e ctx and sch i flds seen ctx and sch i alts seen ctx
       rule: specified_diagnostics_specified_fields_specified_alternatives.induct)
  case (1 sch i ln col flds ctx)
  then show ?case by auto
next
  case (2 sch i ln col alts ctx)
  then show ?case by auto
next
  case (3 sch i ln col vals ctx)
  show ?case by simp
next
  case (4 sch i kind ln col element_type key_type value_type ctx)
  show ?case
  proof (cases "kind = CK_MAP")
    case True
    show ?thesis
    proof (intro impI)
      assume a: "well_formed (ContainerTypeNode kind ln col element_type key_type value_type) \<and>
                 directly_nested (ContainerTypeNode kind ln col element_type key_type value_type)"
      then obtain k v where kv: "key_type = Some k" "value_type = Some v" "element_type = None"
        using True by auto
      have w: "well_formed k" "well_formed v" and d: "directly_nested k \<or> directly_nested v"
        using a True kv by auto
      note ih1 = "4.IH"(1) [OF True kv(1,2)]
      note ih2 = "4.IH"(2) [OF True kv(1,2)]
      have s: "specified_diagnostics sch i
                 (ContainerTypeNode kind ln col element_type key_type value_type) ctx =
               specified_diagnostics sch i k (ctx @ '' (map key)'') @
               specified_diagnostics sch i v (ctx @ '' (map value)'')"
        using True kv by simp
      show "\<exists>l c x. nested_optional_error l c x \<in> set (specified_diagnostics sch i
                 (ContainerTypeNode kind ln col element_type key_type value_type) ctx)"
        unfolding s using w d ih1 ih2 by auto
    qed
  next
    case False
    show ?thesis
    proof (intro impI)
      assume a: "well_formed (ContainerTypeNode kind ln col element_type key_type value_type) \<and>
                 directly_nested (ContainerTypeNode kind ln col element_type key_type value_type)"
      then obtain elem where e: "element_type = Some elem" "key_type = None" "value_type = None"
        using False by auto
      have w: "well_formed elem"
        and d: "(kind = CK_OPTIONAL \<and> is_optional elem) \<or> directly_nested elem"
        using a False e by auto
      have ih: "well_formed elem \<and> directly_nested elem \<longrightarrow>
                (\<exists>l c x. nested_optional_error l c x \<in> set (specified_diagnostics sch i elem ctx))"
        by (rule "4.IH"(3) [OF False e(1)])
      have s: "specified_diagnostics sch i
                 (ContainerTypeNode kind ln col element_type key_type value_type) ctx =
               specified_diagnostics sch i elem ctx @
               (if kind = CK_OPTIONAL \<and> is_optional elem
                then [nested_optional_error ln col ctx] else [])"
        using False e
        by (auto simp: is_optional_def nested_optional_error_def diagnostic_def)
      show "\<exists>l c x. nested_optional_error l c x \<in> set (specified_diagnostics sch i
                 (ContainerTypeNode kind ln col element_type key_type value_type) ctx)"
        unfolding s using w d ih by auto
    qed
  qed
next
  case (5 sch i name ln col ctx)
  show ?case by simp
next
  case (6 sch i p ln col ctx)
  show ?case by simp
next
  case (7 sch i ln col ctx)
  show ?case by simp
next
  case (8 sch i seen ctx)
  show ?case by simp
next
  case (9 sch i name ln col ty flds seen ctx)
  then show ?case by auto
next
  case (10 sch i seen ctx)
  show ?case by simp
next
  case (11 sch i name ln col ty alts seen ctx)
  then show ?case by (cases ty) auto
qed

text \<open>
  Scenario 6 of the specification,
  \<^verbatim>\<open>Bad : struct { field: optional<optional<u32>> }\<close>, and the transitive case of the
  claim, \<^verbatim>\<open>Bad : struct { field: optional<array<optional<u32>>> }\<close>.
\<close>

definition nested_optional_schema :: SchemaNode where
  "nested_optional_schema =
     SchemaNode 1 1
       [TypeDefinitionNode ''Bad'' 1 1
          (StructTypeNode 1 7
             [FieldNode ''field'' 1 16
                (ContainerTypeNode CK_OPTIONAL 1 23
                   (Some (ContainerTypeNode CK_OPTIONAL 1 32
                            (Some (PrimitiveTypeNode PT_U32 1 41)) None None))
                   None None)])]"

definition optional_array_optional_schema :: SchemaNode where
  "optional_array_optional_schema =
     SchemaNode 1 1
       [TypeDefinitionNode ''Bad'' 1 1
          (StructTypeNode 1 7
             [FieldNode ''field'' 1 16
                (ContainerTypeNode CK_OPTIONAL 1 23
                   (Some (ContainerTypeNode CK_ARRAY 1 32
                            (Some (ContainerTypeNode CK_OPTIONAL 1 38
                                     (Some (PrimitiveTypeNode PT_U32 1 47)) None None))
                            None None))
                   None None)])]"

text \<open>
  Claim C2 as stated fails: in the transitive case an optional wraps an optional through
  an array, and the analysis returns true with no diagnostic.
\<close>

theorem transitive_nested_optional_accepted:
  "transitively_nested (def_type (hd (definitions optional_array_optional_schema))) \<and>
   map_option (\<lambda>(ok, tc). (ok, tc_errors tc))
     (TypeChecker_check 6 (TypeChecker_ctor optional_array_optional_schema)) = Some (True, [])"
  by code_simp

text \<open>
  Claim C2, amended.

  \<^item> When \<^verbatim>\<open>check()\<close> returns true on a schema whose containers carry only the members of
    their kind, no optional container of the schema has an optional container as its
    element.
  \<^item> When the definition names are distinct, the schema is built without a syntax error,
    some optional container in it has an optional container as its element, and \<^verbatim>\<open>check()\<close>
    on a fresh checker returns, then it returns false and \<^verbatim>\<open>errors()\<close> holds a
    nested-optional diagnostic.
  \<^item> On scenario 6 it returns false with exactly that diagnostic.
\<close>

theorem check_rejects_directly_nested_optional:
  "((\<forall>d \<in> set (definitions (schema tc)). parser_shaped (def_type d)) \<and>
    TypeChecker_check depth tc = Some (True, tc') \<longrightarrow>
      (\<forall>d \<in> set (definitions (schema tc)). \<not> directly_nested (def_type d))) \<and>
   (distinct (map def_name (definitions sch)) \<and>
    (\<forall>d \<in> set (definitions sch). well_formed (def_type d)) \<and>
    (\<exists>d \<in> set (definitions sch). directly_nested (def_type d)) \<and>
    TypeChecker_check depth (TypeChecker_ctor sch) = Some (ok, tc2) \<longrightarrow>
      \<not> ok \<and> (\<exists>l c x. nested_optional_error l c x \<in> set (tc_errors tc2))) \<and>
   map_option (\<lambda>(ok, tc). (ok, tc_errors tc))
     (TypeChecker_check 5 (TypeChecker_ctor nested_optional_schema)) =
     Some (False, [nested_optional_error 1 23 ''Bad.field''])"
proof (intro conjI impI)
  let ?b = "build_symbol_table
              (tc\<lparr>tc_errors := [], symbol_table := Map.empty, visiting := {}, visited := {}\<rparr>)"
  assume h: "(\<forall>d \<in> set (definitions (schema tc)). parser_shaped (def_type d)) \<and>
             TypeChecker_check depth tc = Some (True, tc')"
  then have a: "TypeChecker_check depth tc = Some (True, tc')" by simp
  have nb: "\<not> has_errors ?b"
    using a by (auto simp: TypeChecker_check_def Let_def split: if_splits)
  then obtain tc1 where d: "check_type_definitions depth ?b = Some tc1" and t: "tc' = tc1"
    and ne: "\<not> has_errors tc1"
    using a by (auto simp: TypeChecker_check_def Let_def split: option.splits)
  have sb: "schema ?b = schema tc" by (simp add: build_symbol_table_def)
  obtain tc2 where
    l: "check_definitions_loop depth (?b\<lparr>current_definition_index := 0\<rparr>)
          (definitions (schema tc)) = Some tc2"
    and c: "circular_loop depth tc2 (definitions (schema tc2)) = Some tc1"
    using d sb by (auto simp: check_type_definitions_def split: option.splits)
  have "nerr tc1 = 0" using ne by (simp add: has_errors_def nerr_def)
  then have "nerr tc2 = 0" using circular_loop_nerr [OF c] by simp
  then show "\<forall>d \<in> set (definitions (schema tc)). \<not> directly_nested (def_type d)"
    using check_definitions_loop_nerr [OF l] h by auto
next
  assume h: "distinct (map def_name (definitions sch)) \<and>
    (\<forall>d \<in> set (definitions sch). well_formed (def_type d)) \<and>
    (\<exists>d \<in> set (definitions sch). directly_nested (def_type d)) \<and>
    TypeChecker_check depth (TypeChecker_ctor sch) = Some (ok, tc2)"
  then have dn: "distinct (map def_name (definitions sch))"
    and c: "TypeChecker_check depth (TypeChecker_ctor sch) = Some (ok, tc2)"
    by simp_all
  from h obtain d where d: "d \<in> set (definitions sch)" "well_formed (def_type d)"
    "directly_nested (def_type d)"
    by auto
  then obtain j where j: "j < length (definitions sch)" "definitions sch ! j = d"
    by (auto simp: in_set_conv_nth)
  from specified_nested(1) [of "def_type d" sch j "def_name d"] d(2,3) obtain l k x where
    "nested_optional_error l k x \<in> set (specified_diagnostics sch j (def_type d) (def_name d))"
    by auto
  then have "nested_optional_error l k x \<in> set (specified_definition sch j)"
    using j(2) by (simp add: specified_definition_def)
  then have "nested_optional_error l k x \<in>
               set (specified_validation sch (length (definitions sch)))"
    using j(1) by (auto simp: specified_validation_def)
  then have m: "nested_optional_error l k x \<in> set (tc_errors tc2)"
    using check_errors_specified(2) [OF dn c] by auto
  then show "\<exists>l c x. nested_optional_error l c x \<in> set (tc_errors tc2)" by blast
  show "\<not> ok" using check_errors_specified(1) [OF dn c] m by auto
next
  show "map_option (\<lambda>(ok, tc). (ok, tc_errors tc))
     (TypeChecker_check 5 (TypeChecker_ctor nested_optional_schema)) =
     Some (False, [nested_optional_error 1 23 ''Bad.field''])"
    by code_simp
qed

text \<open>
  The hypotheses of the amended C2 hold: the first on the schema of the transitive case,
  which the analysis accepts and where no optional has an optional as its element; the
  second on scenario 6.
\<close>

theorem check_rejects_directly_nested_optional_witness:
  "parser_shaped (def_type (definitions optional_array_optional_schema ! 0)) \<and>
   (\<exists>tc'. TypeChecker_check 6 (TypeChecker_ctor optional_array_optional_schema) =
            Some (True, tc')) \<and>
   \<not> directly_nested (def_type (definitions optional_array_optional_schema ! 0)) \<and>
   distinct (map def_name (definitions nested_optional_schema)) \<and>
   well_formed (def_type (definitions nested_optional_schema ! 0)) \<and>
   directly_nested (def_type (definitions nested_optional_schema ! 0)) \<and>
   (\<exists>tc2. TypeChecker_check 5 (TypeChecker_ctor nested_optional_schema) = Some (False, tc2) \<and>
          (\<exists>l c x. nested_optional_error l c x \<in> set (tc_errors tc2)))"
proof -
  let ?s = "optional_array_optional_schema" and ?n = "nested_optional_schema"
  have ps: "\<forall>d \<in> set (definitions (schema (TypeChecker_ctor ?s))). parser_shaped (def_type d)"
    by (simp add: TypeChecker_ctor_def optional_array_optional_schema_def)
  have "map_option fst (TypeChecker_check 6 (TypeChecker_ctor ?s)) = Some True"
    by code_simp
  then obtain tc' where h: "TypeChecker_check 6 (TypeChecker_ctor ?s) = Some (True, tc')"
    by auto
  have dn: "distinct (map def_name (definitions ?n))"
    and wf: "\<forall>d \<in> set (definitions ?n). well_formed (def_type d)"
    and ne: "\<exists>d \<in> set (definitions ?n). directly_nested (def_type d)"
    by (simp_all add: nested_optional_schema_def is_optional_def)
  have "map_option fst (TypeChecker_check 5 (TypeChecker_ctor ?n)) = Some False"
    by code_simp
  then obtain tc2 where c: "TypeChecker_check 5 (TypeChecker_ctor ?n) = Some (False, tc2)"
    by auto
  note r1 = check_rejects_directly_nested_optional
              [of "TypeChecker_ctor ?s" 6 tc' ?n False tc2, THEN conjunct1]
  note r2 = check_rejects_directly_nested_optional
              [of "TypeChecker_ctor ?s" 5 tc' ?n False tc2, THEN conjunct2, THEN conjunct1]
  have "\<forall>d \<in> set (definitions (schema (TypeChecker_ctor ?s))). \<not> directly_nested (def_type d)"
    using r1 ps h by blast
  then have a1: "\<not> directly_nested (def_type (definitions ?s ! 0))"
    by (simp add: TypeChecker_ctor_def optional_array_optional_schema_def)
  have a2: "\<exists>l c x. nested_optional_error l c x \<in> set (tc_errors tc2)"
    using r2 dn wf ne c by blast
  have p0: "parser_shaped (def_type (definitions ?s ! 0))"
    by (simp add: optional_array_optional_schema_def)
  have w0: "well_formed (def_type (definitions ?n ! 0))"
    and d0: "directly_nested (def_type (definitions ?n ! 0))"
    by (simp_all add: nested_optional_schema_def is_optional_def)
  show ?thesis using p0 h a1 dn w0 d0 c a2 by blast
qed

text \<open>
  Why the second part speaks of distinct names, of a call that returns, and of a schema
  built without a syntax error. After a duplicate type name \<^verbatim>\<open>check()\<close> returns before any
  definition is validated:
  \<^verbatim>\<open>A : optional<optional<u32>>\<close> followed by \<^verbatim>\<open>A : u32\<close> gets the duplicate diagnostic only.
\<close>

definition duplicate_nested_schema :: SchemaNode where
  "duplicate_nested_schema =
     SchemaNode 1 1
       [TypeDefinitionNode ''A'' 1 1
          (ContainerTypeNode CK_OPTIONAL 1 5
             (Some (ContainerTypeNode CK_OPTIONAL 1 14
                      (Some (PrimitiveTypeNode PT_U32 1 23)) None None))
             None None),
        TypeDefinitionNode ''A'' 2 1 (PrimitiveTypeNode PT_U32 2 5)]"

lemma duplicate_name_hides_nested_optional:
  "directly_nested (def_type (hd (definitions duplicate_nested_schema))) \<and>
   (\<forall>depth. map_option (\<lambda>(ok, tc). (ok, tc_errors tc))
      (TypeChecker_check depth (TypeChecker_ctor duplicate_nested_schema)) =
    Some (False, [''Line 2, Column 1: Duplicate type definition: '' @ quoted ''A'']))"
proof
  show "directly_nested (def_type (hd (definitions duplicate_nested_schema)))"
    by (simp add: duplicate_nested_schema_def is_optional_def)
  show "\<forall>depth. map_option (\<lambda>(ok, tc). (ok, tc_errors tc))
      (TypeChecker_check depth (TypeChecker_ctor duplicate_nested_schema)) =
    Some (False, [''Line 2, Column 1: Duplicate type definition: '' @ quoted ''A''])"
  proof
    fix depth
    let ?tc = "build_symbol_table
         ((TypeChecker_ctor duplicate_nested_schema)
            \<lparr>tc_errors := [], symbol_table := Map.empty, visiting := {}, visited := {}\<rparr>)"
    have e: "tc_errors ?tc = [''Line 2, Column 1: Duplicate type definition: '' @ quoted ''A'']"
      by code_simp
    then have "has_errors ?tc" by (simp add: has_errors_def)
    then show "map_option (\<lambda>(ok, tc). (ok, tc_errors tc))
       (TypeChecker_check depth (TypeChecker_ctor duplicate_nested_schema)) =
     Some (False, [''Line 2, Column 1: Duplicate type definition: '' @ quoted ''A''])"
      using e by (simp add: check_after_duplicates)
  qed
qed

text \<open>
  After a definition that refers to itself, \<^verbatim>\<open>check()\<close> does not return:
  \<^verbatim>\<open>Node : struct { child: Node }\<close> followed by \<^verbatim>\<open>Bad : optional<optional<u32>>\<close>.
\<close>

definition self_reference_nested_schema :: SchemaNode where
  "self_reference_nested_schema =
     SchemaNode 1 1
       [self_reference_def,
        TypeDefinitionNode ''Bad'' 2 1
          (ContainerTypeNode CK_OPTIONAL 2 7
             (Some (ContainerTypeNode CK_OPTIONAL 2 16
                      (Some (PrimitiveTypeNode PT_U32 2 25)) None None))
             None None)]"

lemma self_reference_hides_nested_optional:
  "directly_nested (def_type (definitions self_reference_nested_schema ! 1)) \<and>
   (\<forall>depth. TypeChecker_check depth (TypeChecker_ctor self_reference_nested_schema) = None)"
proof
  show "directly_nested (def_type (definitions self_reference_nested_schema ! 1))"
    by (simp add: self_reference_nested_schema_def is_optional_def)
  show "\<forall>depth. TypeChecker_check depth (TypeChecker_ctor self_reference_nested_schema) = None"
  proof
    fix depth
    let ?tc = "build_symbol_table
       ((TypeChecker_ctor self_reference_nested_schema)
          \<lparr>tc_errors := [], symbol_table := Map.empty, visiting := {}, visited := {}\<rparr>)"
    have e: "tc_errors ?tc = []" and s: "symbol_table ?tc ''Node'' = Some self_reference_def"
      and d: "\<exists>ds. definitions (schema ?tc) = self_reference_def # ds"
      by (simp_all add: build_symbol_table_def TypeChecker_ctor_def
            self_reference_nested_schema_def self_reference_def_def)
    let ?tc1 = "check_type_expr (?tc\<lparr>current_definition_index := 0\<rparr>)
                  (def_type self_reference_def) (def_name self_reference_def)"
    have s1: "symbol_table ?tc1 ''Node'' = Some self_reference_def"
      using s by (simp add: self_reference_def_def is_type_defined_def split: option.splits)
    have "check_type_definition depth (?tc\<lparr>current_definition_index := 0\<rparr>) self_reference_def
            = None"
      unfolding check_type_definition_def using leaf_walk_of_self_reference [OF s1] by simp
    then have "check_type_definitions depth ?tc = None"
      using d by (auto simp: check_type_definitions_def)
    then show "TypeChecker_check depth (TypeChecker_ctor self_reference_nested_schema) = None"
      using e by (simp add: TypeChecker_check_def Let_def has_errors_def)
  qed
qed

text \<open>
  After a syntax error a member may be null, and \<^verbatim>\<open>check_container_type\<close> then returns before
  it looks at the others: on the tree that the parser builds from
  \<^verbatim>\<open>M : map<, optional<optional<u32>>>\<close>, the map has no key, and the analysis reports that
  and not the nested optional of the value.
\<close>

definition map_without_key_schema :: SchemaNode where
  "map_without_key_schema =
     SchemaNode 1 1
       [TypeDefinitionNode ''M'' 1 1
          (ContainerTypeNode CK_MAP 1 5 None None
             (Some (ContainerTypeNode CK_OPTIONAL 1 11
                      (Some (ContainerTypeNode CK_OPTIONAL 1 20
                               (Some (PrimitiveTypeNode PT_U32 1 29)) None None))
                      None None)))]"

lemma missing_key_hides_nested_optional:
  "parser_shaped (def_type (hd (definitions map_without_key_schema))) \<and>
   \<not> well_formed (def_type (hd (definitions map_without_key_schema))) \<and>
   directly_nested (def_type (hd (definitions map_without_key_schema))) \<and>
   map_option (\<lambda>(ok, tc). (ok, tc_errors tc))
     (TypeChecker_check 4 (TypeChecker_ctor map_without_key_schema)) =
   Some (False, [''Line 1, Column 5: Map type missing key or value type in '' @ quoted ''M''])"
  by code_simp

text \<open>
  The first part speaks of containers that carry only the members of their kind because
  \<^verbatim>\<open>check_container_type\<close> looks at no other member: an array node whose \<^verbatim>\<open>key_type\<close> has been
  set to \<^verbatim>\<open>optional<optional<u32>>\<close>, which no source text produces, is accepted.
\<close>

definition array_with_key_schema :: SchemaNode where
  "array_with_key_schema =
     SchemaNode 1 1
       [TypeDefinitionNode ''K'' 1 1
          (ContainerTypeNode CK_ARRAY 1 5
             (Some (PrimitiveTypeNode PT_U32 1 11))
             (Some (ContainerTypeNode CK_OPTIONAL 1 11
                      (Some (ContainerTypeNode CK_OPTIONAL 1 20
                               (Some (PrimitiveTypeNode PT_U32 1 29)) None None))
                      None None))
             None)]"

lemma member_of_another_kind_is_not_checked:
  "\<not> parser_shaped (def_type (hd (definitions array_with_key_schema))) \<and>
   directly_nested (def_type (hd (definitions array_with_key_schema))) \<and>
   map_option (\<lambda>(ok, tc). (ok, tc_errors tc))
     (TypeChecker_check 5 (TypeChecker_ctor array_with_key_schema)) = Some (True, [])"
  by code_simp

section \<open>The parser (parser/parser.h, parser/parser.cpp)\<close>

text \<open>
  The data members of \<^verbatim>\<open>class Parser\<close>. The parser holds a reference to the lexer and is
  its only user while it runs, so the lexer's state is a component of the parser's.
\<close>

record Parser =
  p_lexer :: Lexer
  current_token :: Token
  p_errors :: "string list"

lemma next_token_measure_le: "lexer_measure (snd (next_token s)) \<le> lexer_measure s"
proof (cases "ttype (fst (next_token s)) = TT_END_OF_FILE")
  case False
  then show ?thesis
    using next_token_measure [of s "fst (next_token s)" "snd (next_token s)"] by simp
next
  case True
  show ?thesis
  proof (cases "peeked_token s")
    case (Some t)
    then show ?thesis by (simp add: next_token_def lexer_measure_def remaining_def)
  next
    case None
    have "lex_step s (snd (scan_token s))"
    proof (cases "is_at_end (skip_whitespace s)")
      case True
      then show ?thesis using scan_token_at_end [of s] skip_whitespace_step [of s] by simp
    next
      case False
      then show ?thesis
        using scan_token_consumes [of s] skip_whitespace_step [of s]
        by (auto simp: consumes_def intro: lex_step_trans)
    qed
    then show ?thesis
      using None by (auto simp: next_token_def lexer_measure_def remaining_def lex_step_def)
  qed
qed

lemma next_token_trivia_measure:
  assumes "(t, l) = next_token s"
    and "ttype t = TT_COMMENT \<or> ttype t = TT_WHITESPACE \<or> ttype t = TT_NEWLINE"
  shows "lexer_measure l < lexer_measure s"
  using next_token_measure [of s t l] assms by auto

text \<open>
  \<^verbatim>\<open>Parser::advance\<close>: \<^verbatim>\<open>do { current_token_ = lexer_.next_token(); } while (...)\<close>, over
  comments, whitespace tokens and newlines.
\<close>

function Parser_advance :: "Parser \<Rightarrow> Parser" where
  "Parser_advance p =
     (case next_token (p_lexer p) of
        (t, l) \<Rightarrow>
          if ttype t = TT_COMMENT \<or> ttype t = TT_WHITESPACE \<or> ttype t = TT_NEWLINE
          then Parser_advance (p\<lparr>p_lexer := l, current_token := t\<rparr>)
          else p\<lparr>p_lexer := l, current_token := t\<rparr>)"
  by pat_completeness auto
termination
  by (relation "measure (\<lambda>p. lexer_measure (p_lexer p))")
     (auto simp: next_token_trivia_measure)

declare Parser_advance.simps [simp del]

definition Parser_ctor :: "Lexer \<Rightarrow> Parser" where
  "Parser_ctor lx =
     Parser_advance
       \<lparr>p_lexer = lx, current_token = Token_ctor TT_END_OF_FILE [] 0 0, p_errors = []\<rparr>"

definition Parser_check :: "Parser \<Rightarrow> TokenType \<Rightarrow> bool" where
  "Parser_check p t = (ttype (current_token p) = t)"

text \<open>\<^verbatim>\<open>report_error(message)\<close>, at the position of the current token.\<close>

definition Parser_report_error :: "Parser \<Rightarrow> string \<Rightarrow> Parser" where
  "Parser_report_error p message =
     p\<lparr>p_errors := p_errors p @
        [''Line '' @ to_string (line (current_token p)) @ '', Column '' @
         to_string (column (current_token p)) @ '': '' @ message]\<rparr>"

text \<open>
  \<^verbatim>\<open>match\<close> and \<^verbatim>\<open>expect\<close> as the parser after the call; the boolean that \<^verbatim>\<open>match\<close> returns
  is \<open>Parser_check\<close> before the call, and no caller uses the token that \<^verbatim>\<open>expect\<close> returns.
\<close>

definition Parser_match :: "Parser \<Rightarrow> TokenType \<Rightarrow> Parser" where
  "Parser_match p t = (if Parser_check p t then Parser_advance p else p)"

definition Parser_expect :: "Parser \<Rightarrow> TokenType \<Rightarrow> string \<Rightarrow> Parser" where
  "Parser_expect p t message =
     (if Parser_check p t then Parser_advance p else Parser_report_error p message)"

lemma Parser_advance_significant:
  "ttype (current_token (Parser_advance p)) \<noteq> TT_COMMENT \<and>
   ttype (current_token (Parser_advance p)) \<noteq> TT_WHITESPACE \<and>
   ttype (current_token (Parser_advance p)) \<noteq> TT_NEWLINE"
proof (induction p rule: Parser_advance.induct)
  case (1 p)
  obtain t l where n: "next_token (p_lexer p) = (t, l)" by (cases "next_token (p_lexer p)")
  show ?case
  proof (cases "ttype t = TT_COMMENT \<or> ttype t = TT_WHITESPACE \<or> ttype t = TT_NEWLINE")
    case True
    then show ?thesis
      using "1.IH" [OF n [symmetric] True] n by (subst (1 2 3) Parser_advance.simps) simp
  next
    case False
    then show ?thesis using n by (subst (1 2 3) Parser_advance.simps) simp
  qed
qed

text \<open>\<^verbatim>\<open>skip_newlines\<close>: \<^verbatim>\<open>while (match(NEWLINE)) { }\<close>.\<close>

function skip_newlines :: "Parser \<Rightarrow> Parser" where
  "skip_newlines p =
     (if Parser_check p TT_NEWLINE then skip_newlines (Parser_advance p) else p)"
  by pat_completeness auto
termination
  by (relation "measure (\<lambda>p. if Parser_check p TT_NEWLINE then 1 else 0)")
     (auto simp: Parser_check_def Parser_advance_significant)

declare skip_newlines.simps [simp del]


text \<open>
  What is left for the parser: what is left for the lexer, and one more while the current
  token is not \<^verbatim>\<open>END_OF_FILE\<close>.
\<close>

definition parser_measure :: "Parser \<Rightarrow> nat" where
  "parser_measure p =
     lexer_measure (p_lexer p) + (if ttype (current_token p) = TT_END_OF_FILE then 0 else 1)"

lemma Parser_advance_measure: "parser_measure (Parser_advance p) \<le> lexer_measure (p_lexer p)"
proof (induction p rule: Parser_advance.induct)
  case (1 p)
  obtain t l where n: "next_token (p_lexer p) = (t, l)" by (cases "next_token (p_lexer p)")
  have le: "lexer_measure l \<le> lexer_measure (p_lexer p)"
    using next_token_measure_le [of "p_lexer p"] n by simp
  show ?case
  proof (cases "ttype t = TT_COMMENT \<or> ttype t = TT_WHITESPACE \<or> ttype t = TT_NEWLINE")
    case True
    have "parser_measure (Parser_advance (p\<lparr>p_lexer := l, current_token := t\<rparr>)) \<le> lexer_measure l"
      using "1.IH" [OF n [symmetric] True] by simp
    then show ?thesis
      using True n le by (subst Parser_advance.simps) simp
  next
    case False
    have "ttype t \<noteq> TT_END_OF_FILE \<Longrightarrow> lexer_measure l < lexer_measure (p_lexer p)"
      using next_token_measure [OF n] .
    then show ?thesis
      using False n le by (subst Parser_advance.simps) (auto simp: parser_measure_def)
  qed
qed

lemma Parser_advance_decreases:
  "ttype (current_token p) \<noteq> TT_END_OF_FILE \<Longrightarrow>
   parser_measure (Parser_advance p) < parser_measure p"
  using Parser_advance_measure [of p] by (simp add: parser_measure_def)

text \<open>
  \<^verbatim>\<open>Parser::synchronize\<close>. The loop returns the parser and, as a record of how it was left,
  the exit it took: the \<^verbatim>\<open>return\<close> after a \<^verbatim>\<open>NEWLINE\<close>, the \<^verbatim>\<open>return\<close> at an \<^verbatim>\<open>IDENTIFIER\<close>,
  or the loop condition at \<^verbatim>\<open>END_OF_FILE\<close>.
\<close>

datatype sync_exit = AT_NEWLINE | AT_IDENTIFIER | AT_END_OF_FILE

function synchronize_loop :: "Parser \<Rightarrow> Parser \<times> sync_exit" where
  "synchronize_loop p =
     (if \<not> Parser_check p TT_END_OF_FILE then
        (if ttype (current_token p) = TT_NEWLINE then (Parser_advance p, AT_NEWLINE)
         else if Parser_check p TT_IDENTIFIER then (p, AT_IDENTIFIER)
         else synchronize_loop (Parser_advance p))
      else (p, AT_END_OF_FILE))"
  by pat_completeness auto
termination
  by (relation "measure parser_measure") (auto simp: Parser_check_def Parser_advance_decreases)

declare synchronize_loop.simps [simp del]

definition synchronize :: "Parser \<Rightarrow> Parser" where
  "synchronize p = fst (synchronize_loop (Parser_advance p))"

definition synchronize_exit :: "Parser \<Rightarrow> sync_exit" where
  "synchronize_exit p = snd (synchronize_loop (Parser_advance p))"

lemma Parser_advance_errors [simp]: "p_errors (Parser_advance p) = p_errors p"
proof (induction p rule: Parser_advance.induct)
  case (1 p)
  obtain t l where n: "next_token (p_lexer p) = (t, l)" by (cases "next_token (p_lexer p)")
  show ?case
  proof (cases "ttype t = TT_COMMENT \<or> ttype t = TT_WHITESPACE \<or> ttype t = TT_NEWLINE")
    case True
    then show ?thesis
      using "1.IH" [OF n [symmetric] True] n by (subst Parser_advance.simps) simp
  next
    case False
    then show ?thesis using n by (subst Parser_advance.simps) simp
  qed
qed

text \<open>
  The loop, started on a token that \<open>Parser_advance\<close> delivered: it stops at the first
  parser of the sequence \<open>q\<close>, \<open>Parser_advance q\<close>, ... whose current token is an
  \<^verbatim>\<open>IDENTIFIER\<close> or \<^verbatim>\<open>END_OF_FILE\<close>, and never by the \<^verbatim>\<open>NEWLINE\<close> exit.
\<close>

lemma synchronize_loop_stops:
  assumes "ttype (current_token q) \<noteq> TT_NEWLINE"
  shows "\<exists>k. fst (synchronize_loop q) = (Parser_advance ^^ k) q \<and>
             (\<forall>m < k. ttype (current_token ((Parser_advance ^^ m) q)) \<noteq> TT_IDENTIFIER \<and>
                      ttype (current_token ((Parser_advance ^^ m) q)) \<noteq> TT_END_OF_FILE) \<and>
             (ttype (current_token (fst (synchronize_loop q))) = TT_IDENTIFIER \<and>
                snd (synchronize_loop q) = AT_IDENTIFIER \<or>
              ttype (current_token (fst (synchronize_loop q))) = TT_END_OF_FILE \<and>
                snd (synchronize_loop q) = AT_END_OF_FILE)"
  using assms
proof (induction q rule: synchronize_loop.induct)
  case (1 p)
  show ?case
  proof (cases "ttype (current_token p) = TT_END_OF_FILE")
    case True
    then have "synchronize_loop p = (p, AT_END_OF_FILE)"
      by (subst synchronize_loop.simps) (simp add: Parser_check_def)
    then show ?thesis using True by (intro exI [of _ 0]) simp
  next
    case False
    show ?thesis
    proof (cases "ttype (current_token p) = TT_IDENTIFIER")
      case True
      then have "synchronize_loop p = (p, AT_IDENTIFIER)"
        using "1.prems" by (subst synchronize_loop.simps) (simp add: Parser_check_def)
      then show ?thesis using True by (intro exI [of _ 0]) simp
    next
      case ni: False
      have eq: "synchronize_loop p = synchronize_loop (Parser_advance p)"
        using False ni "1.prems" by (subst synchronize_loop.simps) (simp add: Parser_check_def)
      have "ttype (current_token (Parser_advance p)) \<noteq> TT_NEWLINE"
        using Parser_advance_significant by blast
      then obtain k where
        k: "fst (synchronize_loop (Parser_advance p)) = (Parser_advance ^^ k) (Parser_advance p)"
        and m: "\<forall>m < k. ttype (current_token ((Parser_advance ^^ m) (Parser_advance p)))
                          \<noteq> TT_IDENTIFIER \<and>
                        ttype (current_token ((Parser_advance ^^ m) (Parser_advance p)))
                          \<noteq> TT_END_OF_FILE"
        and e: "ttype (current_token (fst (synchronize_loop (Parser_advance p)))) = TT_IDENTIFIER \<and>
                  snd (synchronize_loop (Parser_advance p)) = AT_IDENTIFIER \<or>
                ttype (current_token (fst (synchronize_loop (Parser_advance p)))) = TT_END_OF_FILE \<and>
                  snd (synchronize_loop (Parser_advance p)) = AT_END_OF_FILE"
        using "1.IH" False ni "1.prems" by (auto simp: Parser_check_def)
      have m': "\<forall>m < Suc k. ttype (current_token ((Parser_advance ^^ m) p)) \<noteq> TT_IDENTIFIER \<and>
                        ttype (current_token ((Parser_advance ^^ m) p)) \<noteq> TT_END_OF_FILE"
      proof (intro allI impI)
        fix m assume "m < Suc k"
        then show "ttype (current_token ((Parser_advance ^^ m) p)) \<noteq> TT_IDENTIFIER \<and>
                   ttype (current_token ((Parser_advance ^^ m) p)) \<noteq> TT_END_OF_FILE"
          using m False ni by (cases m) (auto simp: funpow_swap1)
      qed
      show ?thesis
        unfolding eq using k m' e
        by (intro exI [of _ "Suc k"]) (simp add: funpow_swap1)
    qed
  qed
qed

text \<open>
  Claim C3 as stated fails in its last part: there is no input on which the recovery loop
  stops at a \<^verbatim>\<open>NEWLINE\<close> token, because every token the loop looks at was delivered by
  \<^verbatim>\<open>advance()\<close>, which skips newlines.
\<close>

theorem synchronize_never_stops_at_newline: "\<not> (\<exists>p. synchronize_exit p = AT_NEWLINE)"
proof
  assume "\<exists>p. synchronize_exit p = AT_NEWLINE"
  then obtain p where a: "synchronize_exit p = AT_NEWLINE" by blast
  have "ttype (current_token (Parser_advance p)) \<noteq> TT_NEWLINE"
    using Parser_advance_significant by blast
  then show False
    using synchronize_loop_stops [of "Parser_advance p"] a by (auto simp: synchronize_exit_def)
qed

text \<open>
  Claim C3, amended. \<^verbatim>\<open>synchronize()\<close> advances past the current token and then goes on
  advancing until the current token is an \<^verbatim>\<open>IDENTIFIER\<close> or \<^verbatim>\<open>END_OF_FILE\<close>: it ends in the
  first parser of the sequence \<open>Parser_advance p\<close>, \<open>Parser_advance (Parser_advance p)\<close>, ...
  whose current token is one of the two, and records no diagnostic.
\<close>

theorem synchronize_stops_at_identifier_or_eof:
  "\<exists>n. 0 < n \<and> synchronize p = (Parser_advance ^^ n) p \<and>
       (\<forall>m. 0 < m \<and> m < n \<longrightarrow>
          ttype (current_token ((Parser_advance ^^ m) p)) \<noteq> TT_IDENTIFIER \<and>
          ttype (current_token ((Parser_advance ^^ m) p)) \<noteq> TT_END_OF_FILE) \<and>
       (ttype (current_token (synchronize p)) = TT_IDENTIFIER \<and> synchronize_exit p = AT_IDENTIFIER \<or>
        ttype (current_token (synchronize p)) = TT_END_OF_FILE \<and>
          synchronize_exit p = AT_END_OF_FILE) \<and>
       p_errors (synchronize p) = p_errors p"
proof -
  let ?q = "Parser_advance p"
  have "ttype (current_token ?q) \<noteq> TT_NEWLINE"
    using Parser_advance_significant by blast
  then obtain k where
    k: "fst (synchronize_loop ?q) = (Parser_advance ^^ k) ?q"
    and m: "\<forall>m < k. ttype (current_token ((Parser_advance ^^ m) ?q)) \<noteq> TT_IDENTIFIER \<and>
                    ttype (current_token ((Parser_advance ^^ m) ?q)) \<noteq> TT_END_OF_FILE"
    and e: "ttype (current_token (fst (synchronize_loop ?q))) = TT_IDENTIFIER \<and>
              snd (synchronize_loop ?q) = AT_IDENTIFIER \<or>
            ttype (current_token (fst (synchronize_loop ?q))) = TT_END_OF_FILE \<and>
              snd (synchronize_loop ?q) = AT_END_OF_FILE"
    using synchronize_loop_stops [of ?q] by blast
  have s: "synchronize p = (Parser_advance ^^ Suc k) p"
    using k by (simp add: synchronize_def funpow_swap1)
  have m': "\<forall>m. 0 < m \<and> m < Suc k \<longrightarrow>
          ttype (current_token ((Parser_advance ^^ m) p)) \<noteq> TT_IDENTIFIER \<and>
          ttype (current_token ((Parser_advance ^^ m) p)) \<noteq> TT_END_OF_FILE"
  proof (intro allI impI)
    fix m assume "0 < m \<and> m < Suc k"
    then obtain i where "m = Suc i" "i < k" by (cases m) auto
    then show "ttype (current_token ((Parser_advance ^^ m) p)) \<noteq> TT_IDENTIFIER \<and>
          ttype (current_token ((Parser_advance ^^ m) p)) \<noteq> TT_END_OF_FILE"
      using m by (simp add: funpow_swap1)
  qed
  have pe: "p_errors ((Parser_advance ^^ j) p) = p_errors p" for j
    by (induction j) simp_all
  show ?thesis
    using s m' e pe [of "Suc k"]
    by (intro exI [of _ "Suc k"]) (simp add: synchronize_def synchronize_exit_def)
qed

text \<open>
  A recovery: the text \<^verbatim>\<open>: ,\<close>, a line break, then \<^verbatim>\<open>} Foo : u32\<close>. The parser starts on the
  colon, which begins no definition.
\<close>

definition recovery_example :: Parser where
  "recovery_example = Parser_ctor (Lexer_ctor ('': ,'' @ [CHR 0x0A] @ ''} Foo : u32''))"

text \<open>
  On that input the recovery passes the comma and the closing brace (the line break between
  them is never seen) and stops, after three calls of \<^verbatim>\<open>advance()\<close>, at the identifier
  \<^verbatim>\<open>Foo\<close>.
\<close>

theorem synchronize_stops_at_identifier_or_eof_witness:
  "ttype (current_token ((Parser_advance ^^ 1) recovery_example)) = TT_COMMA \<and>
   ttype (current_token ((Parser_advance ^^ 2) recovery_example)) = TT_RBRACE \<and>
   synchronize recovery_example = (Parser_advance ^^ 3) recovery_example \<and>
   ttype (current_token (synchronize recovery_example)) = TT_IDENTIFIER \<and>
   lexeme (current_token (synchronize recovery_example)) = ''Foo''"
proof -
  have c1: "ttype (current_token ((Parser_advance ^^ 1) recovery_example)) = TT_COMMA"
    by code_simp
  have c2: "ttype (current_token ((Parser_advance ^^ 2) recovery_example)) = TT_RBRACE"
    by code_simp
  have c3: "ttype (current_token ((Parser_advance ^^ 3) recovery_example)) = TT_IDENTIFIER"
    by code_simp
  have c4: "lexeme (current_token ((Parser_advance ^^ 3) recovery_example)) = ''Foo''"
    by code_simp
  obtain n where n: "0 < n" "synchronize recovery_example = (Parser_advance ^^ n) recovery_example"
    and m: "\<forall>m. 0 < m \<and> m < n \<longrightarrow>
          ttype (current_token ((Parser_advance ^^ m) recovery_example)) \<noteq> TT_IDENTIFIER \<and>
          ttype (current_token ((Parser_advance ^^ m) recovery_example)) \<noteq> TT_END_OF_FILE"
    and e: "ttype (current_token (synchronize recovery_example)) = TT_IDENTIFIER \<or>
            ttype (current_token (synchronize recovery_example)) = TT_END_OF_FILE"
    using synchronize_stops_at_identifier_or_eof [of recovery_example] by blast
  have "\<not> 3 < n" using m c3 by auto
  moreover have "n \<noteq> 1" using n(2) e c1 by auto
  moreover have "n \<noteq> 2" using n(2) e c2 by auto
  ultimately have "n = 3" using n(1) by arith
  then show ?thesis using n(2) c1 c2 c3 c4 by simp
qed

subsection \<open>The grammar functions\<close>

definition Parser_is_primitive_type :: "Parser \<Rightarrow> bool" where
  "Parser_is_primitive_type p =
     (Parser_check p TT_STR \<or> Parser_check p TT_INT \<or> Parser_check p TT_BOOL \<or>
      Parser_check p TT_UNIT \<or>
      Parser_check p TT_U8 \<or> Parser_check p TT_U16 \<or>
      Parser_check p TT_U32 \<or> Parser_check p TT_U64 \<or>
      Parser_check p TT_I8 \<or> Parser_check p TT_I16 \<or>
      Parser_check p TT_I32 \<or> Parser_check p TT_I64 \<or>
      Parser_check p TT_F32 \<or> Parser_check p TT_F64)"

definition token_to_primitive_type :: "TokenType \<Rightarrow> PrimitiveType" where
  "token_to_primitive_type t =
     (case t of
        TT_STR \<Rightarrow> PT_STR | TT_INT \<Rightarrow> PT_INT | TT_BOOL \<Rightarrow> PT_BOOL | TT_UNIT \<Rightarrow> PT_UNIT
      | TT_U8 \<Rightarrow> PT_U8 | TT_U16 \<Rightarrow> PT_U16 | TT_U32 \<Rightarrow> PT_U32 | TT_U64 \<Rightarrow> PT_U64
      | TT_I8 \<Rightarrow> PT_I8 | TT_I16 \<Rightarrow> PT_I16 | TT_I32 \<Rightarrow> PT_I32 | TT_I64 \<Rightarrow> PT_I64
      | TT_F32 \<Rightarrow> PT_F32 | TT_F64 \<Rightarrow> PT_F64
      | _ \<Rightarrow> PT_INT)"

text \<open>
  The parsing functions return the node (\<open>None\<close> for \<^verbatim>\<open>nullptr\<close>) and the parser afterwards.
\<close>

definition parse_primitive_type :: "Parser \<Rightarrow> TypeExprNode option \<times> Parser" where
  "parse_primitive_type p =
     (if \<not> Parser_is_primitive_type p
      then (None, Parser_report_error p ''Expected primitive type'')
      else (Some (PrimitiveTypeNode (token_to_primitive_type (ttype (current_token p)))
                    (line (current_token p)) (column (current_token p))),
            Parser_advance p))"

definition parse_ref_type :: "Parser \<Rightarrow> TypeExprNode option \<times> Parser" where
  "parse_ref_type p =
     (let start = current_token p;
          p1 = Parser_expect p TT_REF (''Expected '' @ quoted ''ref'');
          p2 = Parser_expect p1 TT_LANGLE
                 (''Expected '' @ quoted ''<'' @ '' after '' @ quoted ''ref'');
          p3 = Parser_expect p2 TT_ENTITY (''Expected '' @ quoted ''entity'' @ '' in ref type'');
          p4 = Parser_expect p3 TT_RANGLE
                 (''Expected '' @ quoted ''>'' @ '' after '' @ quoted ''entity'')
      in (Some (RefTypeNode (line start) (column start)), p4))"

text \<open>
  The loop of \<^verbatim>\<open>parse_enum_type\<close>, with the values read so far. The first argument of this
  and of the following functions bounds the number of nested calls and loop iterations:
  \<open>None\<close> when it is used up.
\<close>

fun enum_loop :: "nat \<Rightarrow> Parser \<Rightarrow> string list \<Rightarrow> (string list \<times> Parser) option" where
  "enum_loop 0 p vals = None"
| "enum_loop (Suc n) p vals =
     (if \<not> Parser_check p TT_RBRACE \<and> \<not> Parser_check p TT_END_OF_FILE then
        (if \<not> Parser_check p TT_IDENTIFIER
         then Some (vals, Parser_report_error p ''Expected enum value'')
         else
           (let vals1 = vals @ [lexeme (current_token p)];
                p1 = skip_newlines (Parser_advance p)
            in if Parser_check p1 TT_COMMA
               then enum_loop n (skip_newlines (Parser_advance p1)) vals1
               else if \<not> Parser_check p1 TT_RBRACE then Some (vals1, p1)
               else enum_loop n p1 vals1))
      else Some (vals, p))"

definition parse_enum_type :: "nat \<Rightarrow> Parser \<Rightarrow> (TypeExprNode option \<times> Parser) option" where
  "parse_enum_type n p =
     (let start = current_token p;
          p1 = Parser_expect p TT_ENUM (''Expected '' @ quoted ''enum'');
          p2 = Parser_expect p1 TT_LBRACE
                 (''Expected '' @ quoted ''{'' @ '' after '' @ quoted ''enum'');
          p3 = skip_newlines p2
      in case enum_loop n p3 [] of
           None \<Rightarrow> None
         | Some (vals, p4) \<Rightarrow>
             Some (Some (EnumTypeNode (line start) (column start) vals),
                   Parser_expect p4 TT_RBRACE
                     (''Expected '' @ quoted ''}'' @ '' after enum values'')))"

text \<open>
  \<^verbatim>\<open>parse_type_expr\<close> and the functions that call it back; \<open>struct_loop\<close> and \<open>variant_loop\<close>
  are the loops of \<^verbatim>\<open>parse_struct_type\<close> and \<^verbatim>\<open>parse_variant_type\<close>, with the fields and the
  alternatives read so far.
\<close>

fun parse_type_expr :: "nat \<Rightarrow> Parser \<Rightarrow> (TypeExprNode option \<times> Parser) option"
  and parse_struct_type :: "nat \<Rightarrow> Parser \<Rightarrow> (TypeExprNode option \<times> Parser) option"
  and struct_loop :: "nat \<Rightarrow> Parser \<Rightarrow> FieldNode list \<Rightarrow> (FieldNode list \<times> Parser) option"
  and parse_variant_type :: "nat \<Rightarrow> Parser \<Rightarrow> (TypeExprNode option \<times> Parser) option"
  and variant_loop ::
    "nat \<Rightarrow> Parser \<Rightarrow> AlternativeNode list \<Rightarrow> (AlternativeNode list \<times> Parser) option"
  and parse_field :: "nat \<Rightarrow> Parser \<Rightarrow> (FieldNode option \<times> Parser) option"
  and parse_alternative :: "nat \<Rightarrow> Parser \<Rightarrow> (AlternativeNode option \<times> Parser) option"
  and parse_container_type :: "nat \<Rightarrow> Parser \<Rightarrow> (TypeExprNode option \<times> Parser) option"
where
  "parse_type_expr 0 p = None"
| "parse_type_expr (Suc n) p =
     (if Parser_check p TT_STRUCT then parse_struct_type n p
      else if Parser_check p TT_VARIANT then parse_variant_type n p
      else if Parser_check p TT_ENUM then parse_enum_type n p
      else if Parser_check p TT_ARRAY \<or> Parser_check p TT_MAP \<or> Parser_check p TT_OPTIONAL
        then parse_container_type n p
      else if Parser_check p TT_REF then Some (parse_ref_type p)
      else if Parser_is_primitive_type p then Some (parse_primitive_type p)
      else if Parser_check p TT_IDENTIFIER then
        Some (Some (IdentifierTypeNode (lexeme (current_token p)) (line (current_token p))
                      (column (current_token p))),
              Parser_advance p)
      else Some (None, Parser_report_error p ''Expected type expression''))"
| "parse_struct_type 0 p = None"
| "parse_struct_type (Suc n) p =
     (let start = current_token p;
          p1 = Parser_expect p TT_STRUCT (''Expected '' @ quoted ''struct'');
          p2 = Parser_expect p1 TT_LBRACE
                 (''Expected '' @ quoted ''{'' @ '' after '' @ quoted ''struct'');
          p3 = skip_newlines p2
      in case struct_loop n p3 [] of
           None \<Rightarrow> None
         | Some (flds, p4) \<Rightarrow>
             Some (Some (StructTypeNode (line start) (column start) flds),
                   Parser_expect p4 TT_RBRACE
                     (''Expected '' @ quoted ''}'' @ '' after struct fields'')))"
| "struct_loop 0 p flds = None"
| "struct_loop (Suc n) p flds =
     (if \<not> Parser_check p TT_RBRACE \<and> \<not> Parser_check p TT_END_OF_FILE then
        (case parse_field n p of
           None \<Rightarrow> None
         | Some (field, p1) \<Rightarrow>
             (let flds1 = (case field of Some f \<Rightarrow> flds @ [f] | None \<Rightarrow> flds);
                  p2 = skip_newlines p1
              in if Parser_check p2 TT_COMMA
                 then struct_loop n (skip_newlines (Parser_advance p2)) flds1
                 else if \<not> Parser_check p2 TT_RBRACE then Some (flds1, p2)
                 else struct_loop n p2 flds1))
      else Some (flds, p))"
| "parse_variant_type 0 p = None"
| "parse_variant_type (Suc n) p =
     (let start = current_token p;
          p1 = Parser_expect p TT_VARIANT (''Expected '' @ quoted ''variant'');
          p2 = Parser_expect p1 TT_LBRACE
                 (''Expected '' @ quoted ''{'' @ '' after '' @ quoted ''variant'');
          p3 = skip_newlines p2
      in case variant_loop n p3 [] of
           None \<Rightarrow> None
         | Some (alts, p4) \<Rightarrow>
             Some (Some (VariantTypeNode (line start) (column start) alts),
                   Parser_expect p4 TT_RBRACE
                     (''Expected '' @ quoted ''}'' @ '' after variant alternatives'')))"
| "variant_loop 0 p alts = None"
| "variant_loop (Suc n) p alts =
     (if \<not> Parser_check p TT_RBRACE \<and> \<not> Parser_check p TT_END_OF_FILE then
        (case parse_alternative n p of
           None \<Rightarrow> None
         | Some (alt, p1) \<Rightarrow>
             (let alts1 = (case alt of Some a \<Rightarrow> alts @ [a] | None \<Rightarrow> alts);
                  p2 = skip_newlines p1
              in if Parser_check p2 TT_COMMA
                 then variant_loop n (skip_newlines (Parser_advance p2)) alts1
                 else if \<not> Parser_check p2 TT_RBRACE then Some (alts1, p2)
                 else variant_loop n p2 alts1))
      else Some (alts, p))"
| "parse_field 0 p = None"
| "parse_field (Suc n) p =
     (if \<not> Parser_check p TT_IDENTIFIER
      then Some (None, Parser_report_error p ''Expected field name'')
      else
        (let name_token = current_token p;
             p1 = Parser_advance p;
             p2 = Parser_expect p1 TT_COLON
                    (''Expected '' @ quoted '':'' @ '' after field name'')
         in case parse_type_expr n p2 of
              None \<Rightarrow> None
            | Some (None, p3) \<Rightarrow> Some (None, p3)
            | Some (Some type_expr, p3) \<Rightarrow>
                Some (Some (FieldNode (lexeme name_token) (line name_token) (column name_token)
                              type_expr),
                      p3)))"
| "parse_alternative 0 p = None"
| "parse_alternative (Suc n) p =
     (if \<not> Parser_check p TT_IDENTIFIER
      then Some (None, Parser_report_error p ''Expected alternative name'')
      else
        (let name_token = current_token p;
             p1 = Parser_advance p
         in if Parser_check p1 TT_COLON then
              (case parse_type_expr n (Parser_advance p1) of
                 None \<Rightarrow> None
               | Some (ty, p2) \<Rightarrow>
                   Some (Some (AlternativeNode (lexeme name_token) (line name_token)
                                 (column name_token) ty),
                         p2))
            else
              Some (Some (AlternativeNode (lexeme name_token) (line name_token)
                            (column name_token) None),
                    p1)))"
| "parse_container_type 0 p = None"
| "parse_container_type (Suc n) p =
     (let start = current_token p in
      if \<not> (Parser_check p TT_ARRAY \<or> Parser_check p TT_MAP \<or> Parser_check p TT_OPTIONAL)
      then Some (None, Parser_report_error p ''Expected container type'')
      else
        (let kind = (if Parser_check p TT_ARRAY then CK_ARRAY
                     else if Parser_check p TT_MAP then CK_MAP else CK_OPTIONAL);
             p1 = Parser_advance p;
             p2 = Parser_expect p1 TT_LANGLE
                    (''Expected '' @ quoted ''<'' @ '' after container type'')
         in if kind = CK_MAP then
              (case parse_type_expr n p2 of
                 None \<Rightarrow> None
               | Some (key_type, p3) \<Rightarrow>
                   (case parse_type_expr n
                           (Parser_expect p3 TT_COMMA
                              (''Expected '' @ quoted '','' @
                               '' between map key and value types'')) of
                      None \<Rightarrow> None
                    | Some (value_type, p4) \<Rightarrow>
                        Some (Some (ContainerTypeNode kind (line start) (column start)
                                      None key_type value_type),
                              Parser_expect p4 TT_RANGLE
                                (''Expected '' @ quoted ''>'' @
                                 '' after container type parameter''))))
            else
              (case parse_type_expr n p2 of
                 None \<Rightarrow> None
               | Some (element_type, p3) \<Rightarrow>
                   Some (Some (ContainerTypeNode kind (line start) (column start)
                                 element_type None None),
                         Parser_expect p3 TT_RANGLE
                           (''Expected '' @ quoted ''>'' @
                            '' after container type parameter'')))))"

definition parse_type_definition ::
  "nat \<Rightarrow> Parser \<Rightarrow> (TypeDefinitionNode option \<times> Parser) option" where
  "parse_type_definition n p =
     (if \<not> Parser_check p TT_IDENTIFIER
      then Some (None, Parser_report_error p ''Expected type name'')
      else
        (let name_token = current_token p;
             p1 = Parser_advance p;
             p2 = Parser_expect p1 TT_COLON
                    (''Expected '' @ quoted '':'' @ '' after type name'')
         in case parse_type_expr n p2 of
              None \<Rightarrow> None
            | Some (None, p3) \<Rightarrow> Some (None, p3)
            | Some (Some type_expr, p3) \<Rightarrow>
                Some (Some (TypeDefinitionNode (lexeme name_token) (line name_token)
                              (column name_token) type_expr),
                      p3)))"

text \<open>The loop of \<^verbatim>\<open>parse_schema\<close>, with the definitions read so far.\<close>

fun schema_loop ::
  "nat \<Rightarrow> Parser \<Rightarrow> TypeDefinitionNode list \<Rightarrow> (TypeDefinitionNode list \<times> Parser) option"
where
  "schema_loop 0 p defs = None"
| "schema_loop (Suc n) p defs =
     (if \<not> Parser_check p TT_END_OF_FILE then
        (case parse_type_definition n p of
           None \<Rightarrow> None
         | Some (Some d, p1) \<Rightarrow> schema_loop n (skip_newlines p1) (defs @ [d])
         | Some (None, p1) \<Rightarrow> schema_loop n (skip_newlines (synchronize p1)) defs)
      else Some (defs, p))"

definition parse_schema :: "nat \<Rightarrow> Parser \<Rightarrow> (SchemaNode \<times> Parser) option" where
  "parse_schema n p =
     (case schema_loop n (skip_newlines p) [] of
        None \<Rightarrow> None
      | Some (defs, p1) \<Rightarrow>
          Some (SchemaNode (line (current_token p)) (column (current_token p)) defs, p1))"

definition Parser_parse :: "nat \<Rightarrow> Parser \<Rightarrow> (SchemaNode \<times> Parser) option" where
  "Parser_parse n p = parse_schema n p"

text \<open>
  Lexing and parsing a source text, as the drivers and the tests do:
  \<^verbatim>\<open>Lexer lexer(source); Parser parser(lexer); auto schema = parser.parse();\<close>
  The result is the schema and \<^verbatim>\<open>parser.errors()\<close>.
\<close>

definition parse_source :: "nat \<Rightarrow> string \<Rightarrow> (SchemaNode \<times> string list) option" where
  "parse_source n src =
     map_option (\<lambda>(sch, p). (sch, p_errors p)) (Parser_parse n (Parser_ctor (Lexer_ctor src)))"

subsection \<open>More fuel\<close>

text \<open>
  The bound on nested calls and loop iterations only decides whether the functions return:
  what they return under some bound they return under every greater one.
\<close>

lemma enum_loop_Suc:
  "enum_loop n p vals = Some r \<Longrightarrow> enum_loop (Suc n) p vals = Some r"
proof (induction n arbitrary: p vals)
  case 0
  then show ?case by simp
next
  case (Suc n)
  show ?case
    using Suc.prems Suc.IH
    by (auto simp add: enum_loop.simps(2) [of n p vals] enum_loop.simps(2) [of "Suc n" p vals]
          Let_def simp del: enum_loop.simps(2) split: if_splits)
qed

lemma parse_enum_type_Suc:
  "parse_enum_type n p = Some r \<Longrightarrow> parse_enum_type (Suc n) p = Some r"
  by (auto simp: parse_enum_type_def Let_def enum_loop_Suc simp del: enum_loop.simps
        split: option.splits prod.splits)

lemmas parse_Suc_simps =
  parse_type_expr.simps(2) parse_struct_type.simps(2) struct_loop.simps(2)
  parse_variant_type.simps(2) variant_loop.simps(2) parse_field.simps(2)
  parse_alternative.simps(2) parse_container_type.simps(2)

lemma parse_Suc:
  "(\<forall>p r. parse_type_expr n p = Some r \<longrightarrow> parse_type_expr (Suc n) p = Some r) \<and>
   (\<forall>p r. parse_struct_type n p = Some r \<longrightarrow> parse_struct_type (Suc n) p = Some r) \<and>
   (\<forall>p flds r. struct_loop n p flds = Some r \<longrightarrow> struct_loop (Suc n) p flds = Some r) \<and>
   (\<forall>p r. parse_variant_type n p = Some r \<longrightarrow> parse_variant_type (Suc n) p = Some r) \<and>
   (\<forall>p alts r. variant_loop n p alts = Some r \<longrightarrow> variant_loop (Suc n) p alts = Some r) \<and>
   (\<forall>p r. parse_field n p = Some r \<longrightarrow> parse_field (Suc n) p = Some r) \<and>
   (\<forall>p r. parse_alternative n p = Some r \<longrightarrow> parse_alternative (Suc n) p = Some r) \<and>
   (\<forall>p r. parse_container_type n p = Some r \<longrightarrow> parse_container_type (Suc n) p = Some r)"
proof (induction n)
  case 0
  show ?case by simp
next
  case (Suc n)
  then have
    te: "\<And>p r. parse_type_expr n p = Some r \<Longrightarrow> parse_type_expr (Suc n) p = Some r" and
    st: "\<And>p r. parse_struct_type n p = Some r \<Longrightarrow> parse_struct_type (Suc n) p = Some r" and
    sl: "\<And>p flds r. struct_loop n p flds = Some r \<Longrightarrow> struct_loop (Suc n) p flds = Some r" and
    vt: "\<And>p r. parse_variant_type n p = Some r \<Longrightarrow> parse_variant_type (Suc n) p = Some r" and
    vl: "\<And>p alts r. variant_loop n p alts = Some r \<Longrightarrow> variant_loop (Suc n) p alts = Some r" and
    fd: "\<And>p r. parse_field n p = Some r \<Longrightarrow> parse_field (Suc n) p = Some r" and
    al: "\<And>p r. parse_alternative n p = Some r \<Longrightarrow> parse_alternative (Suc n) p = Some r" and
    ct: "\<And>p r. parse_container_type n p = Some r \<Longrightarrow> parse_container_type (Suc n) p = Some r"
    by blast+
  have 1: "parse_type_expr (Suc (Suc n)) p = Some (a, b)" if "parse_type_expr (Suc n) p = Some (a, b)" for p a b
    using that st vt ct parse_enum_type_Suc
    by (auto simp add: parse_type_expr.simps(2) [of n p] parse_type_expr.simps(2) [of "Suc n" p]
          simp del: parse_Suc_simps split: if_splits)
  have 2: "parse_struct_type (Suc (Suc n)) p = Some (a, b)" if "parse_struct_type (Suc n) p = Some (a, b)" for p a b
    using that sl
    by (auto simp add: parse_struct_type.simps(2) [of n p] parse_struct_type.simps(2) [of "Suc n" p]
          Let_def simp del: parse_Suc_simps split: option.splits prod.splits)
  have 3: "struct_loop (Suc (Suc n)) p flds = Some (a, b)" if "struct_loop (Suc n) p flds = Some (a, b)"
    for p flds a b
    using that sl fd
    by (auto simp add: struct_loop.simps(2) [of n p flds] struct_loop.simps(2) [of "Suc n" p flds]
          Let_def simp del: parse_Suc_simps split: option.splits prod.splits if_splits)
  have 4: "parse_variant_type (Suc (Suc n)) p = Some (a, b)" if "parse_variant_type (Suc n) p = Some (a, b)"
    for p a b
    using that vl
    by (auto simp add: parse_variant_type.simps(2) [of n p]
          parse_variant_type.simps(2) [of "Suc n" p]
          Let_def simp del: parse_Suc_simps split: option.splits prod.splits)
  have 5: "variant_loop (Suc (Suc n)) p alts = Some (a, b)" if "variant_loop (Suc n) p alts = Some (a, b)"
    for p alts a b
    using that vl al
    by (auto simp add: variant_loop.simps(2) [of n p alts] variant_loop.simps(2) [of "Suc n" p alts]
          Let_def simp del: parse_Suc_simps split: option.splits prod.splits if_splits)
  have 6: "parse_field (Suc (Suc n)) p = Some (a, b)" if "parse_field (Suc n) p = Some (a, b)" for p a b
    using that te
    by (auto simp add: parse_field.simps(2) [of n p] parse_field.simps(2) [of "Suc n" p]
          Let_def simp del: parse_Suc_simps split: option.splits prod.splits if_splits)
  have 7: "parse_alternative (Suc (Suc n)) p = Some (a, b)" if "parse_alternative (Suc n) p = Some (a, b)"
    for p a b
    using that te
    by (auto simp add: parse_alternative.simps(2) [of n p] parse_alternative.simps(2) [of "Suc n" p]
          Let_def simp del: parse_Suc_simps split: option.splits prod.splits if_splits)
  have 8: "parse_container_type (Suc (Suc n)) p = Some (a, b)"
    if "parse_container_type (Suc n) p = Some (a, b)" for p a b
    using that te
    by (auto simp add: parse_container_type.simps(2) [of n p]
          parse_container_type.simps(2) [of "Suc n" p]
          Let_def simp del: parse_Suc_simps split: option.splits prod.splits if_splits)
  show ?case using 1 2 3 4 5 6 7 8 by auto
qed

lemma parse_type_definition_Suc:
  "parse_type_definition n p = Some r \<Longrightarrow> parse_type_definition (Suc n) p = Some r"
  using parse_Suc [of n]
  by (auto simp: parse_type_definition_def Let_def simp del: parse_Suc_simps
        split: if_splits option.splits prod.splits)

lemma schema_loop_Suc:
  "schema_loop n p defs = Some r \<Longrightarrow> schema_loop (Suc n) p defs = Some r"
proof (induction n arbitrary: p defs)
  case 0
  then show ?case by simp
next
  case (Suc n)
  show ?case
    using Suc.prems Suc.IH parse_type_definition_Suc [of n p]
    by (auto simp add: schema_loop.simps(2) [of n p defs] schema_loop.simps(2) [of "Suc n" p defs]
          simp del: schema_loop.simps(2) split: if_splits option.splits prod.splits)
qed

lemma parse_source_Suc:
  "parse_source n src = Some r \<Longrightarrow> parse_source (Suc n) src = Some r"
  by (auto simp: parse_source_def Parser_parse_def parse_schema_def schema_loop_Suc
        simp del: schema_loop.simps split: option.splits prod.splits)

lemma parse_source_more:
  "parse_source n src = Some r \<Longrightarrow> parse_source (n + k) src = Some r"
  by (induction k) (simp_all add: parse_source_Suc)

section \<open>Trailing commas\<close>

text \<open>
  What the parser reads of a token is its type and its lexeme; its line and column only end
  up in the positions of the nodes. \<open>reads p ks\<close>: the current token of \<open>p\<close> and the tokens
  that successive calls of \<^verbatim>\<open>advance()\<close> deliver have the types and lexemes \<open>ks\<close>.
\<close>

definition kind_of :: "Token \<Rightarrow> TokenType \<times> string" where
  "kind_of t = (ttype t, lexeme t)"

fun reads :: "Parser \<Rightarrow> (TokenType \<times> string) list \<Rightarrow> bool" where
  "reads p [] = True"
| "reads p (k # ks) = (kind_of (current_token p) = k \<and> reads (Parser_advance p) ks)"

text \<open>A tree without the positions of its nodes.\<close>

primrec shape :: "TypeExprNode \<Rightarrow> TypeExprNode"
  and shape_field :: "FieldNode \<Rightarrow> FieldNode"
  and shape_alternative :: "AlternativeNode \<Rightarrow> AlternativeNode"
where
  "shape (StructTypeNode ln col flds) = StructTypeNode 0 0 (map shape_field flds)"
| "shape (VariantTypeNode ln col alts) = VariantTypeNode 0 0 (map shape_alternative alts)"
| "shape (EnumTypeNode ln col vals) = EnumTypeNode 0 0 vals"
| "shape (PrimitiveTypeNode pt ln col) = PrimitiveTypeNode pt 0 0"
| "shape (ContainerTypeNode k ln col et kt vt) =
     ContainerTypeNode k 0 0 (map_option shape et) (map_option shape kt) (map_option shape vt)"
| "shape (RefTypeNode ln col) = RefTypeNode 0 0"
| "shape (IdentifierTypeNode name ln col) = IdentifierTypeNode name 0 0"
| "shape_field (FieldNode name ln col ty) = FieldNode name 0 0 (shape ty)"
| "shape_alternative (AlternativeNode name ln col ty) =
     AlternativeNode name 0 0 (map_option shape ty)"

primrec shape_definition :: "TypeDefinitionNode \<Rightarrow> TypeDefinitionNode" where
  "shape_definition (TypeDefinitionNode name ln col ty) = TypeDefinitionNode name 0 0 (shape ty)"

primrec shape_schema :: "SchemaNode \<Rightarrow> SchemaNode" where
  "shape_schema (SchemaNode ln col defs) = SchemaNode 0 0 (map shape_definition defs)"

text \<open>
  The token sequences of the schema language, with the tree each of them stands for. A body
  in braces is empty, or a list of items separated by commas, with or without one more comma
  after the last item.
\<close>

definition primitive_token :: "TokenType \<Rightarrow> bool" where
  "primitive_token t =
     (t = TT_STR \<or> t = TT_INT \<or> t = TT_BOOL \<or> t = TT_UNIT \<or>
      t = TT_U8 \<or> t = TT_U16 \<or> t = TT_U32 \<or> t = TT_U64 \<or>
      t = TT_I8 \<or> t = TT_I16 \<or> t = TT_I32 \<or> t = TT_I64 \<or>
      t = TT_F32 \<or> t = TT_F64)"

inductive values_tokens :: "string list \<Rightarrow> (TokenType \<times> string) list \<Rightarrow> bool" where
  last_value: "values_tokens [v] [(TT_IDENTIFIER, v)]"
| last_value_comma: "values_tokens [v] [(TT_IDENTIFIER, v), (TT_COMMA, c)]"
| more_values:
    "values_tokens vs ks \<Longrightarrow> values_tokens (v # vs) ((TT_IDENTIFIER, v) # (TT_COMMA, c) # ks)"

inductive type_tokens :: "TypeExprNode \<Rightarrow> (TokenType \<times> string) list \<Rightarrow> bool"
  and fields_tokens :: "FieldNode list \<Rightarrow> (TokenType \<times> string) list \<Rightarrow> bool"
  and alternatives_tokens :: "AlternativeNode list \<Rightarrow> (TokenType \<times> string) list \<Rightarrow> bool"
where
  primitive:
    "primitive_token t \<Longrightarrow>
     type_tokens (PrimitiveTypeNode (token_to_primitive_type t) 0 0) [(t, a)]"
| type_name:
    "type_tokens (IdentifierTypeNode name 0 0) [(TT_IDENTIFIER, name)]"
| reference:
    "type_tokens (RefTypeNode 0 0) [(TT_REF, a), (TT_LANGLE, b), (TT_ENTITY, c), (TT_RANGLE, d)]"
| empty_enum:
    "type_tokens (EnumTypeNode 0 0 []) [(TT_ENUM, a), (TT_LBRACE, b), (TT_RBRACE, c)]"
| enum:
    "values_tokens vals ks \<Longrightarrow>
     type_tokens (EnumTypeNode 0 0 vals) ((TT_ENUM, a) # (TT_LBRACE, b) # ks @ [(TT_RBRACE, c)])"
| empty_struct:
    "type_tokens (StructTypeNode 0 0 []) [(TT_STRUCT, a), (TT_LBRACE, b), (TT_RBRACE, c)]"
| struct:
    "fields_tokens flds ks \<Longrightarrow>
     type_tokens (StructTypeNode 0 0 flds)
       ((TT_STRUCT, a) # (TT_LBRACE, b) # ks @ [(TT_RBRACE, c)])"
| empty_variant:
    "type_tokens (VariantTypeNode 0 0 []) [(TT_VARIANT, a), (TT_LBRACE, b), (TT_RBRACE, c)]"
| variant:
    "alternatives_tokens alts ks \<Longrightarrow>
     type_tokens (VariantTypeNode 0 0 alts)
       ((TT_VARIANT, a) # (TT_LBRACE, b) # ks @ [(TT_RBRACE, c)])"
| array:
    "type_tokens ty ks \<Longrightarrow>
     type_tokens (ContainerTypeNode CK_ARRAY 0 0 (Some ty) None None)
       ((TT_ARRAY, a) # (TT_LANGLE, b) # ks @ [(TT_RANGLE, c)])"
| optional:
    "type_tokens ty ks \<Longrightarrow>
     type_tokens (ContainerTypeNode CK_OPTIONAL 0 0 (Some ty) None None)
       ((TT_OPTIONAL, a) # (TT_LANGLE, b) # ks @ [(TT_RANGLE, c)])"
| map_of:
    "type_tokens kt ks \<Longrightarrow> type_tokens vt ks' \<Longrightarrow>
     type_tokens (ContainerTypeNode CK_MAP 0 0 None (Some kt) (Some vt))
       ((TT_MAP, a) # (TT_LANGLE, b) # ks @ (TT_COMMA, c) # ks' @ [(TT_RANGLE, d)])"
| last_field:
    "type_tokens ty ks \<Longrightarrow>
     fields_tokens [FieldNode name 0 0 ty] ((TT_IDENTIFIER, name) # (TT_COLON, a) # ks)"
| last_field_comma:
    "type_tokens ty ks \<Longrightarrow>
     fields_tokens [FieldNode name 0 0 ty]
       ((TT_IDENTIFIER, name) # (TT_COLON, a) # ks @ [(TT_COMMA, c)])"
| more_fields:
    "type_tokens ty ks \<Longrightarrow> fields_tokens flds ks' \<Longrightarrow>
     fields_tokens (FieldNode name 0 0 ty # flds)
       ((TT_IDENTIFIER, name) # (TT_COLON, a) # ks @ (TT_COMMA, c) # ks')"
| last_unit:
    "alternatives_tokens [AlternativeNode name 0 0 None] [(TT_IDENTIFIER, name)]"
| last_unit_comma:
    "alternatives_tokens [AlternativeNode name 0 0 None] [(TT_IDENTIFIER, name), (TT_COMMA, c)]"
| more_after_unit:
    "alternatives_tokens alts ks' \<Longrightarrow>
     alternatives_tokens (AlternativeNode name 0 0 None # alts)
       ((TT_IDENTIFIER, name) # (TT_COMMA, c) # ks')"
| last_alternative:
    "type_tokens ty ks \<Longrightarrow>
     alternatives_tokens [AlternativeNode name 0 0 (Some ty)]
       ((TT_IDENTIFIER, name) # (TT_COLON, a) # ks)"
| last_alternative_comma:
    "type_tokens ty ks \<Longrightarrow>
     alternatives_tokens [AlternativeNode name 0 0 (Some ty)]
       ((TT_IDENTIFIER, name) # (TT_COLON, a) # ks @ [(TT_COMMA, c)])"
| more_alternatives:
    "type_tokens ty ks \<Longrightarrow> alternatives_tokens alts ks' \<Longrightarrow>
     alternatives_tokens (AlternativeNode name 0 0 (Some ty) # alts)
       ((TT_IDENTIFIER, name) # (TT_COLON, a) # ks @ (TT_COMMA, c) # ks')"

inductive schema_tokens :: "TypeDefinitionNode list \<Rightarrow> (TokenType \<times> string) list \<Rightarrow> bool" where
  end_of_file: "schema_tokens [] [(TT_END_OF_FILE, a)]"
| type_definition:
    "type_tokens ty ks \<Longrightarrow> schema_tokens defs ks' \<Longrightarrow>
     schema_tokens (TypeDefinitionNode name 0 0 ty # defs)
       ((TT_IDENTIFIER, name) # (TT_COLON, a) # ks @ ks')"

subsection \<open>The parser on the token sequences of the language\<close>

lemma skip_newlines_advance [simp]: "skip_newlines (Parser_advance p) = Parser_advance p"
  using Parser_advance_significant [of p] by (subst skip_newlines.simps) (simp add: Parser_check_def)

lemma skip_newlines_reads:
  "reads p ((t, l) # ks) \<Longrightarrow> t \<noteq> TT_NEWLINE \<Longrightarrow> skip_newlines p = p"
  by (subst skip_newlines.simps) (auto simp: Parser_check_def kind_of_def)

lemma fuel1: "k < n \<Longrightarrow> \<exists>m. n = Suc m \<and> k \<le> m"
  by (cases n) auto

lemma enum_loop_values:
  "values_tokens vs ks \<Longrightarrow> reads p (ks @ (TT_RBRACE, r) # rs) \<Longrightarrow> length ks < n \<Longrightarrow>
   \<exists>q. enum_loop n p acc = Some (acc @ vs, q) \<and> reads q ((TT_RBRACE, r) # rs) \<and>
       p_errors q = p_errors p"
proof (induction arbitrary: p n acc rule: values_tokens.induct)
  case (last_value v)
  then obtain m where "n = Suc (Suc m)" by (cases n; cases "n - 1") auto
  then show ?case
    using last_value by (simp add: Parser_check_def kind_of_def)
next
  case (last_value_comma v c)
  then obtain m where "n = Suc (Suc m)" by (cases n; cases "n - 1") auto
  then show ?case
    using last_value_comma by (simp add: Parser_check_def kind_of_def)
next
  case (more_values vs ks v c)
  then obtain m where n: "n = Suc m" "length ks < m" by (cases n) auto
  have r: "reads (Parser_advance (Parser_advance p)) (ks @ (TT_RBRACE, r) # rs)"
    using more_values.prems by simp
  from more_values.IH [OF r n(2), of "acc @ [v]"] show ?case
    using more_values.prems n by (simp add: Parser_check_def kind_of_def)
qed

definition parses_type :: "TypeExprNode \<Rightarrow> (TokenType \<times> string) list \<Rightarrow> bool" where
  "parses_type ty ks \<longleftrightarrow>
     (\<forall>p n rs. reads p (ks @ rs) \<longrightarrow> length ks \<le> n \<longrightarrow>
        (\<exists>ty' q. parse_type_expr n p = Some (Some ty', q) \<and> shape ty' = ty \<and> reads q rs \<and>
                 p_errors q = p_errors p))"

definition parses_fields :: "FieldNode list \<Rightarrow> (TokenType \<times> string) list \<Rightarrow> bool" where
  "parses_fields flds ks \<longleftrightarrow>
     (\<forall>p n r rs acc. reads p (ks @ (TT_RBRACE, r) # rs) \<longrightarrow> length ks < n \<longrightarrow>
        (\<exists>res q. struct_loop n p acc = Some (res, q) \<and>
                 map shape_field res = map shape_field acc @ flds \<and>
                 reads q ((TT_RBRACE, r) # rs) \<and> p_errors q = p_errors p))"

definition parses_alternatives ::
  "AlternativeNode list \<Rightarrow> (TokenType \<times> string) list \<Rightarrow> bool" where
  "parses_alternatives alts ks \<longleftrightarrow>
     (\<forall>p n r rs acc. reads p (ks @ (TT_RBRACE, r) # rs) \<longrightarrow> length ks < n \<longrightarrow>
        (\<exists>res q. variant_loop n p acc = Some (res, q) \<and>
                 map shape_alternative res = map shape_alternative acc @ alts \<and>
                 reads q ((TT_RBRACE, r) # rs) \<and> p_errors q = p_errors p))"

lemma parses_typeD:
  "parses_type ty ks \<Longrightarrow> reads p (ks @ rs) \<Longrightarrow> length ks \<le> n \<Longrightarrow>
   \<exists>ty' q. parse_type_expr n p = Some (Some ty', q) \<and> shape ty' = ty \<and> reads q rs \<and>
          p_errors q = p_errors p"
  by (simp add: parses_type_def)

lemma parses_fieldsD:
  "parses_fields flds ks \<Longrightarrow> reads p (ks @ (TT_RBRACE, r) # rs) \<Longrightarrow> length ks < n \<Longrightarrow>
   \<exists>res q. struct_loop n p acc = Some (res, q) \<and>
          map shape_field res = map shape_field acc @ flds \<and>
          reads q ((TT_RBRACE, r) # rs) \<and> p_errors q = p_errors p"
  by (simp add: parses_fields_def)

lemma parses_alternativesD:
  "parses_alternatives alts ks \<Longrightarrow> reads p (ks @ (TT_RBRACE, r) # rs) \<Longrightarrow> length ks < n \<Longrightarrow>
   \<exists>res q. variant_loop n p acc = Some (res, q) \<and>
          map shape_alternative res = map shape_alternative acc @ alts \<and>
          reads q ((TT_RBRACE, r) # rs) \<and> p_errors q = p_errors p"
  by (simp add: parses_alternatives_def)

lemma is_primitive_type_token:
  "Parser_is_primitive_type p = primitive_token (ttype (current_token p))"
  by (simp add: Parser_is_primitive_type_def primitive_token_def Parser_check_def)

lemmas reading = Parser_check_def Parser_expect_def kind_of_def Let_def

lemma parses_primitive:
  assumes "primitive_token t"
  shows "parses_type (PrimitiveTypeNode (token_to_primitive_type t) 0 0) [(t, a)]"
  unfolding parses_type_def
proof (intro allI impI)
  fix p n rs
  assume r: "reads p ([(t, a)] @ rs)" and n: "length [(t, a)] \<le> n"
  then obtain m where m: "n = Suc m" by (cases n) auto
  have t: "t \<noteq> TT_STRUCT" "t \<noteq> TT_VARIANT" "t \<noteq> TT_ENUM" "t \<noteq> TT_ARRAY" "t \<noteq> TT_MAP"
    "t \<noteq> TT_OPTIONAL" "t \<noteq> TT_REF"
    using assms by (auto simp: primitive_token_def)
  show "\<exists>ty' q. parse_type_expr n p = Some (Some ty', q) \<and>
          shape ty' = PrimitiveTypeNode (token_to_primitive_type t) 0 0 \<and> reads q rs \<and>
          p_errors q = p_errors p"
    using r m t assms
    by (simp add: reading is_primitive_type_token parse_primitive_type_def)
qed

lemma parses_type_name: "parses_type (IdentifierTypeNode name 0 0) [(TT_IDENTIFIER, name)]"
  unfolding parses_type_def
proof (intro allI impI)
  fix p n rs
  assume r: "reads p ([(TT_IDENTIFIER, name)] @ rs)" and n: "length [(TT_IDENTIFIER, name)] \<le> n"
  then obtain m where m: "n = Suc m" by (cases n) auto
  show "\<exists>ty' q. parse_type_expr n p = Some (Some ty', q) \<and>
          shape ty' = IdentifierTypeNode name 0 0 \<and> reads q rs \<and> p_errors q = p_errors p"
    using r m
    by (simp add: reading is_primitive_type_token primitive_token_def)
qed

lemma parses_reference:
  "parses_type (RefTypeNode 0 0) [(TT_REF, a), (TT_LANGLE, b), (TT_ENTITY, c), (TT_RANGLE, d)]"
  unfolding parses_type_def
proof (intro allI impI)
  fix p n rs
  assume r: "reads p ([(TT_REF, a), (TT_LANGLE, b), (TT_ENTITY, c), (TT_RANGLE, d)] @ rs)"
    and n: "length [(TT_REF, a), (TT_LANGLE, b), (TT_ENTITY, c), (TT_RANGLE, d)] \<le> n"
  then obtain m where m: "n = Suc m" by (cases n) auto
  show "\<exists>ty' q. parse_type_expr n p = Some (Some ty', q) \<and>
          shape ty' = RefTypeNode 0 0 \<and> reads q rs \<and> p_errors q = p_errors p"
    using r m
    by (simp add: reading parse_ref_type_def)
qed

lemma parses_enum:
  assumes "vals = [] \<and> ks = [] \<or> values_tokens vals ks"
  shows "parses_type (EnumTypeNode 0 0 vals)
           ((TT_ENUM, a) # (TT_LBRACE, b) # ks @ [(TT_RBRACE, c)])"
  unfolding parses_type_def
proof (intro allI impI)
  fix p n rs
  assume r: "reads p (((TT_ENUM, a) # (TT_LBRACE, b) # ks @ [(TT_RBRACE, c)]) @ rs)"
    and n: "length ((TT_ENUM, a) # (TT_LBRACE, b) # ks @ [(TT_RBRACE, c)]) \<le> n"
  then obtain m where m: "n = Suc m" "length ks < m" by (cases n) auto
  have r2: "reads (Parser_advance (Parser_advance p)) (ks @ (TT_RBRACE, c) # rs)"
    using r by simp
  have "\<exists>q. enum_loop m (Parser_advance (Parser_advance p)) [] = Some ([] @ vals, q) \<and>
          reads q ((TT_RBRACE, c) # rs) \<and> p_errors q = p_errors (Parser_advance (Parser_advance p))"
  proof (cases "values_tokens vals ks")
    case True
    then show ?thesis using enum_loop_values [OF True r2 m(2), where acc = "[]"] by simp
  next
    case False
    then have e: "vals = []" "ks = []" using assms by auto
    obtain k where "m = Suc k" using m(2) by (cases m) auto
    then show ?thesis using r2 e by (simp add: reading)
  qed
  then obtain q where q: "enum_loop m (Parser_advance (Parser_advance p)) [] = Some (vals, q)"
    "reads q ((TT_RBRACE, c) # rs)" "p_errors q = p_errors p"
    by auto
  show "\<exists>ty' q. parse_type_expr n p = Some (Some ty', q) \<and>
          shape ty' = EnumTypeNode 0 0 vals \<and> reads q rs \<and> p_errors q = p_errors p"
    using r m q by (simp add: reading parse_enum_type_def)
qed

lemma parses_struct:
  assumes "flds = [] \<and> ks = [] \<or> parses_fields flds ks"
  shows "parses_type (StructTypeNode 0 0 flds)
           ((TT_STRUCT, a) # (TT_LBRACE, b) # ks @ [(TT_RBRACE, c)])"
  unfolding parses_type_def
proof (intro allI impI)
  fix p n rs
  assume r: "reads p (((TT_STRUCT, a) # (TT_LBRACE, b) # ks @ [(TT_RBRACE, c)]) @ rs)"
    and n: "length ((TT_STRUCT, a) # (TT_LBRACE, b) # ks @ [(TT_RBRACE, c)]) \<le> n"
  then obtain m where m: "n = Suc (Suc m)" "length ks < Suc m"
    by (cases n; cases "n - 1") auto
  have r2: "reads (Parser_advance (Parser_advance p)) (ks @ (TT_RBRACE, c) # rs)"
    using r by simp
  have "\<exists>res q. struct_loop m (Parser_advance (Parser_advance p)) [] = Some (res, q) \<and>
          map shape_field res = map shape_field [] @ flds \<and>
          reads q ((TT_RBRACE, c) # rs) \<and>
          p_errors q = p_errors (Parser_advance (Parser_advance p))"
  proof (cases "flds = [] \<and> ks = []")
    case True
    obtain k where "m = Suc k" using n m(1) by (cases m) auto
    then show ?thesis using r2 True by (simp add: reading)
  next
    case False
    then have f: "parses_fields flds ks" using assms by auto
    have "length ks < m" using n m(1) by simp
    from parses_fieldsD [OF f r2 this] show ?thesis .
  qed
  then obtain res q where q: "struct_loop m (Parser_advance (Parser_advance p)) [] = Some (res, q)"
    "map shape_field res = flds" "reads q ((TT_RBRACE, c) # rs)" "p_errors q = p_errors p"
    by auto
  show "\<exists>ty' q. parse_type_expr n p = Some (Some ty', q) \<and>
          shape ty' = StructTypeNode 0 0 flds \<and> reads q rs \<and> p_errors q = p_errors p"
    using r m q by (simp add: reading)
qed

lemma parses_variant:
  assumes "alts = [] \<and> ks = [] \<or> parses_alternatives alts ks"
  shows "parses_type (VariantTypeNode 0 0 alts)
           ((TT_VARIANT, a) # (TT_LBRACE, b) # ks @ [(TT_RBRACE, c)])"
  unfolding parses_type_def
proof (intro allI impI)
  fix p n rs
  assume r: "reads p (((TT_VARIANT, a) # (TT_LBRACE, b) # ks @ [(TT_RBRACE, c)]) @ rs)"
    and n: "length ((TT_VARIANT, a) # (TT_LBRACE, b) # ks @ [(TT_RBRACE, c)]) \<le> n"
  then obtain m where m: "n = Suc (Suc m)" "length ks < Suc m"
    by (cases n; cases "n - 1") auto
  have r2: "reads (Parser_advance (Parser_advance p)) (ks @ (TT_RBRACE, c) # rs)"
    using r by simp
  have "\<exists>res q. variant_loop m (Parser_advance (Parser_advance p)) [] = Some (res, q) \<and>
          map shape_alternative res = map shape_alternative [] @ alts \<and>
          reads q ((TT_RBRACE, c) # rs) \<and>
          p_errors q = p_errors (Parser_advance (Parser_advance p))"
  proof (cases "alts = [] \<and> ks = []")
    case True
    obtain k where "m = Suc k" using n m(1) by (cases m) auto
    then show ?thesis using r2 True by (simp add: reading)
  next
    case False
    then have f: "parses_alternatives alts ks" using assms by auto
    have "length ks < m" using n m(1) by simp
    from parses_alternativesD [OF f r2 this] show ?thesis .
  qed
  then obtain res q where
    q: "variant_loop m (Parser_advance (Parser_advance p)) [] = Some (res, q)"
    "map shape_alternative res = alts" "reads q ((TT_RBRACE, c) # rs)"
    "p_errors q = p_errors p"
    by auto
  show "\<exists>ty' q. parse_type_expr n p = Some (Some ty', q) \<and>
          shape ty' = VariantTypeNode 0 0 alts \<and> reads q rs \<and> p_errors q = p_errors p"
    using r m q by (simp add: reading)
qed

lemma parses_element_container:
  assumes "parses_type ty ks"
    and "t = TT_ARRAY \<and> kind = CK_ARRAY \<or> t = TT_OPTIONAL \<and> kind = CK_OPTIONAL"
  shows "parses_type (ContainerTypeNode kind 0 0 (Some ty) None None)
           ((t, a) # (TT_LANGLE, b) # ks @ [(TT_RANGLE, c)])"
  unfolding parses_type_def
proof (intro allI impI)
  fix p n rs
  assume r: "reads p (((t, a) # (TT_LANGLE, b) # ks @ [(TT_RANGLE, c)]) @ rs)"
    and n: "length ((t, a) # (TT_LANGLE, b) # ks @ [(TT_RANGLE, c)]) \<le> n"
  then obtain m where m: "n = Suc (Suc m)" "length ks \<le> m"
    by (cases n; cases "n - 1") auto
  have r2: "reads (Parser_advance (Parser_advance p)) (ks @ (TT_RANGLE, c) # rs)"
    using r by simp
  from parses_typeD [OF assms(1) r2 m(2)] obtain ty' q where
    q: "parse_type_expr m (Parser_advance (Parser_advance p)) = Some (Some ty', q)"
    "shape ty' = ty" "reads q ((TT_RANGLE, c) # rs)" "p_errors q = p_errors p"
    by auto
  show "\<exists>ty' q. parse_type_expr n p = Some (Some ty', q) \<and>
          shape ty' = ContainerTypeNode kind 0 0 (Some ty) None None \<and> reads q rs \<and>
          p_errors q = p_errors p"
    using r m q assms(2) by (auto simp: reading)
qed

lemma parses_map:
  assumes "parses_type kt ks" and "parses_type vt ks'"
  shows "parses_type (ContainerTypeNode CK_MAP 0 0 None (Some kt) (Some vt))
           ((TT_MAP, a) # (TT_LANGLE, b) # ks @ (TT_COMMA, c) # ks' @ [(TT_RANGLE, d)])"
  unfolding parses_type_def
proof (intro allI impI)
  fix p n rs
  assume r: "reads p (((TT_MAP, a) # (TT_LANGLE, b) # ks @ (TT_COMMA, c) # ks' @
                        [(TT_RANGLE, d)]) @ rs)"
    and n: "length ((TT_MAP, a) # (TT_LANGLE, b) # ks @ (TT_COMMA, c) # ks' @
                    [(TT_RANGLE, d)]) \<le> n"
  then obtain m where m: "n = Suc (Suc m)" "length ks \<le> m" "length ks' \<le> m"
    by (cases n; cases "n - 1") auto
  have r2: "reads (Parser_advance (Parser_advance p))
              (ks @ (TT_COMMA, c) # ks' @ (TT_RANGLE, d) # rs)"
    using r by simp
  from parses_typeD [OF assms(1) r2 m(2)] obtain kt' q where
    q: "parse_type_expr m (Parser_advance (Parser_advance p)) = Some (Some kt', q)"
    "shape kt' = kt" "reads q ((TT_COMMA, c) # ks' @ (TT_RANGLE, d) # rs)"
    "p_errors q = p_errors p"
    by auto
  have r3: "reads (Parser_advance q) (ks' @ (TT_RANGLE, d) # rs)"
    using q(3) by simp
  from parses_typeD [OF assms(2) r3 m(3)] obtain vt' q' where
    q': "parse_type_expr m (Parser_advance q) = Some (Some vt', q')"
    "shape vt' = vt" "reads q' ((TT_RANGLE, d) # rs)" "p_errors q' = p_errors q"
    by auto
  show "\<exists>ty' q. parse_type_expr n p = Some (Some ty', q) \<and>
          shape ty' = ContainerTypeNode CK_MAP 0 0 None (Some kt) (Some vt) \<and> reads q rs \<and>
          p_errors q = p_errors p"
    using r m q q' by (simp add: reading)
qed

lemma reads_field:
  assumes ty: "parses_type ty ks"
    and r: "reads p (((TT_IDENTIFIER, name) # (TT_COLON, a) # ks) @ rs)"
    and n: "length ks \<le> n"
  shows "\<exists>f q. parse_field (Suc n) p = Some (Some f, q) \<and>
           shape_field f = FieldNode name 0 0 ty \<and> reads q rs \<and> p_errors q = p_errors p"
proof -
  have r2: "reads (Parser_advance (Parser_advance p)) (ks @ rs)"
    using r by simp
  from parses_typeD [OF ty r2 n] obtain ty' q where
    q: "parse_type_expr n (Parser_advance (Parser_advance p)) = Some (Some ty', q)"
    "shape ty' = ty" "reads q rs" "p_errors q = p_errors p"
    by auto
  show ?thesis using r q by (simp add: reading)
qed

lemma parses_last_field:
  assumes "parses_type ty ks"
  shows "parses_fields [FieldNode name 0 0 ty] ((TT_IDENTIFIER, name) # (TT_COLON, a) # ks)"
  unfolding parses_fields_def
proof (intro allI impI)
  fix p n r rs acc
  assume r: "reads p (((TT_IDENTIFIER, name) # (TT_COLON, a) # ks) @ (TT_RBRACE, r) # rs)"
    and n: "length ((TT_IDENTIFIER, name) # (TT_COLON, a) # ks) < n"
  then obtain m where m: "n = Suc (Suc m)" "length ks \<le> m"
    by (cases n; cases "n - 1") auto
  from reads_field [OF assms r m(2)] obtain f q where
    q: "parse_field (Suc m) p = Some (Some f, q)" "shape_field f = FieldNode name 0 0 ty"
    "reads q ((TT_RBRACE, r) # rs)" "p_errors q = p_errors p"
    by auto
  have s: "skip_newlines q = q" using skip_newlines_reads [OF q(3)] by simp
  show "\<exists>res q. struct_loop n p acc = Some (res, q) \<and>
          map shape_field res = map shape_field acc @ [FieldNode name 0 0 ty] \<and>
          reads q ((TT_RBRACE, r) # rs) \<and> p_errors q = p_errors p"
    using r m(1) q s by (simp add: reading del: parse_field.simps)
qed

lemma parses_last_field_comma:
  assumes "parses_type ty ks"
  shows "parses_fields [FieldNode name 0 0 ty]
           ((TT_IDENTIFIER, name) # (TT_COLON, a) # ks @ [(TT_COMMA, c)])"
  unfolding parses_fields_def
proof (intro allI impI)
  fix p n r rs acc
  assume r: "reads p (((TT_IDENTIFIER, name) # (TT_COLON, a) # ks @ [(TT_COMMA, c)]) @
                       (TT_RBRACE, r) # rs)"
    and n: "length ((TT_IDENTIFIER, name) # (TT_COLON, a) # ks @ [(TT_COMMA, c)]) < n"
  then obtain m where m: "n = Suc (Suc m)" "length ks \<le> m"
    by (cases n; cases "n - 1") auto
  have r': "reads p (((TT_IDENTIFIER, name) # (TT_COLON, a) # ks) @
                      (TT_COMMA, c) # (TT_RBRACE, r) # rs)"
    using r by simp
  from reads_field [OF assms r' m(2)] obtain f q where
    q: "parse_field (Suc m) p = Some (Some f, q)" "shape_field f = FieldNode name 0 0 ty"
    "reads q ((TT_COMMA, c) # (TT_RBRACE, r) # rs)" "p_errors q = p_errors p"
    by auto
  have s: "skip_newlines q = q" using skip_newlines_reads [OF q(3)] by simp
  show "\<exists>res q. struct_loop n p acc = Some (res, q) \<and>
          map shape_field res = map shape_field acc @ [FieldNode name 0 0 ty] \<and>
          reads q ((TT_RBRACE, r) # rs) \<and> p_errors q = p_errors p"
    using r m(1) q s by (simp add: reading del: parse_field.simps)
qed

lemma parses_more_fields:
  assumes "parses_type ty ks" and "parses_fields flds ks'"
  shows "parses_fields (FieldNode name 0 0 ty # flds)
           ((TT_IDENTIFIER, name) # (TT_COLON, a) # ks @ (TT_COMMA, c) # ks')"
  unfolding parses_fields_def
proof (intro allI impI)
  fix p n r rs acc
  assume r: "reads p (((TT_IDENTIFIER, name) # (TT_COLON, a) # ks @ (TT_COMMA, c) # ks') @
                       (TT_RBRACE, r) # rs)"
    and n: "length ((TT_IDENTIFIER, name) # (TT_COLON, a) # ks @ (TT_COMMA, c) # ks') < n"
  then obtain m where m: "n = Suc (Suc m)" "length ks \<le> m" "length ks' < Suc m"
    by (cases n; cases "n - 1") auto
  have r': "reads p (((TT_IDENTIFIER, name) # (TT_COLON, a) # ks) @
                      (TT_COMMA, c) # ks' @ (TT_RBRACE, r) # rs)"
    using r by simp
  from reads_field [OF assms(1) r' m(2)] obtain f q where
    q: "parse_field (Suc m) p = Some (Some f, q)" "shape_field f = FieldNode name 0 0 ty"
    "reads q ((TT_COMMA, c) # ks' @ (TT_RBRACE, r) # rs)" "p_errors q = p_errors p"
    by auto
  have s: "skip_newlines q = q" using skip_newlines_reads [OF q(3)] by simp
  have r3: "reads (Parser_advance q) (ks' @ (TT_RBRACE, r) # rs)" using q(3) by simp
  from parses_fieldsD [OF assms(2) r3 m(3), where acc = "acc @ [f]"] obtain res q' where
    q': "struct_loop (Suc m) (Parser_advance q) (acc @ [f]) = Some (res, q')"
    "map shape_field res = map shape_field (acc @ [f]) @ flds"
    "reads q' ((TT_RBRACE, r) # rs)" "p_errors q' = p_errors (Parser_advance q)"
    by auto
  have "struct_loop n p acc = Some (res, q')"
    using r m(1) q s q'(1)
    by (simp add: reading del: parse_field.simps struct_loop.simps(2))
      (simp add: struct_loop.simps(2) [of "Suc m" p] reading del: parse_field.simps struct_loop.simps(2))
  then show "\<exists>res q. struct_loop n p acc = Some (res, q) \<and>
          map shape_field res = map shape_field acc @ FieldNode name 0 0 ty # flds \<and>
          reads q ((TT_RBRACE, r) # rs) \<and> p_errors q = p_errors p"
    using q q' by simp
qed

lemma reads_unit_alternative:
  assumes r: "reads p ((TT_IDENTIFIER, name) # (t, c) # rs)" and t: "t \<noteq> TT_COLON"
  shows "\<exists>alt q. parse_alternative (Suc n) p = Some (Some alt, q) \<and>
           shape_alternative alt = AlternativeNode name 0 0 None \<and> reads q ((t, c) # rs) \<and>
           p_errors q = p_errors p"
  using r t by (simp add: reading)

lemma reads_alternative:
  assumes ty: "parses_type ty ks"
    and r: "reads p (((TT_IDENTIFIER, name) # (TT_COLON, a) # ks) @ rs)"
    and n: "length ks \<le> n"
  shows "\<exists>alt q. parse_alternative (Suc n) p = Some (Some alt, q) \<and>
           shape_alternative alt = AlternativeNode name 0 0 (Some ty) \<and> reads q rs \<and>
           p_errors q = p_errors p"
proof -
  have r2: "reads (Parser_advance (Parser_advance p)) (ks @ rs)"
    using r by simp
  from parses_typeD [OF ty r2 n] obtain ty' q where
    q: "parse_type_expr n (Parser_advance (Parser_advance p)) = Some (Some ty', q)"
    "shape ty' = ty" "reads q rs" "p_errors q = p_errors p"
    by auto
  show ?thesis using r q by (simp add: reading)
qed

text \<open>The three ways in which the loop of \<^verbatim>\<open>parse_variant_type\<close> goes on after an alternative.\<close>

lemma variant_loop_last:
  assumes "parse_alternative m p = Some (Some alt, q)"
    and "reads p ((TT_IDENTIFIER, name) # ks)"
    and "reads q ((TT_RBRACE, r) # rs)"
  shows "variant_loop (Suc m) p acc = Some (acc @ [alt], q)"
proof -
  have s: "skip_newlines q = q" using skip_newlines_reads [OF assms(3)] by simp
  obtain k where k: "m = Suc k" using assms(1) by (cases m) auto
  show ?thesis
    using assms s unfolding k
    by (simp add: reading variant_loop.simps(2) [of "Suc k" p] variant_loop.simps(2) [of k]
          del: parse_alternative.simps variant_loop.simps(2))
qed

lemma variant_loop_last_comma:
  assumes "parse_alternative m p = Some (Some alt, q)"
    and "reads p ((TT_IDENTIFIER, name) # ks)"
    and "reads q ((TT_COMMA, c) # (TT_RBRACE, r) # rs)"
  shows "variant_loop (Suc m) p acc = Some (acc @ [alt], Parser_advance q)"
proof -
  have s: "skip_newlines q = q" using skip_newlines_reads [OF assms(3)] by simp
  obtain k where k: "m = Suc k" using assms(1) by (cases m) auto
  show ?thesis
    using assms s unfolding k
    by (simp add: reading variant_loop.simps(2) [of "Suc k" p] variant_loop.simps(2) [of k]
          del: parse_alternative.simps variant_loop.simps(2))
qed

lemma variant_loop_more:
  assumes "parse_alternative m p = Some (Some alt, q)"
    and "reads p ((TT_IDENTIFIER, name) # ks)"
    and "reads q ((TT_COMMA, c) # ks')"
  shows "variant_loop (Suc m) p acc = variant_loop m (Parser_advance q) (acc @ [alt])"
proof -
  have s: "skip_newlines q = q" using skip_newlines_reads [OF assms(3)] by simp
  show ?thesis
    using assms s by (simp add: reading del: parse_alternative.simps)
qed

lemma parses_last_unit:
  "parses_alternatives [AlternativeNode name 0 0 None] [(TT_IDENTIFIER, name)]"
  unfolding parses_alternatives_def
proof (intro allI impI)
  fix p n r rs acc
  assume r: "reads p ([(TT_IDENTIFIER, name)] @ (TT_RBRACE, r) # rs)"
    and n: "length [(TT_IDENTIFIER, name)] < n"
  then obtain m where m: "n = Suc (Suc m)"
    by (cases n; cases "n - 1") auto
  have r': "reads p ((TT_IDENTIFIER, name) # (TT_RBRACE, r) # rs)" using r by simp
  from reads_unit_alternative [OF r', of m] obtain alt q where
    q: "parse_alternative (Suc m) p = Some (Some alt, q)"
    "shape_alternative alt = AlternativeNode name 0 0 None"
    "reads q ((TT_RBRACE, r) # rs)" "p_errors q = p_errors p"
    by auto
  show "\<exists>res q. variant_loop n p acc = Some (res, q) \<and>
          map shape_alternative res = map shape_alternative acc @ [AlternativeNode name 0 0 None] \<and>
          reads q ((TT_RBRACE, r) # rs) \<and> p_errors q = p_errors p"
    using variant_loop_last [OF q(1) r' q(3), of acc] q m by simp
qed

lemma parses_last_unit_comma:
  "parses_alternatives [AlternativeNode name 0 0 None] [(TT_IDENTIFIER, name), (TT_COMMA, c)]"
  unfolding parses_alternatives_def
proof (intro allI impI)
  fix p n r rs acc
  assume r: "reads p ([(TT_IDENTIFIER, name), (TT_COMMA, c)] @ (TT_RBRACE, r) # rs)"
    and n: "length [(TT_IDENTIFIER, name), (TT_COMMA, c)] < n"
  then obtain m where m: "n = Suc (Suc m)"
    by (cases n; cases "n - 1") auto
  have r': "reads p ((TT_IDENTIFIER, name) # (TT_COMMA, c) # (TT_RBRACE, r) # rs)"
    using r by simp
  from reads_unit_alternative [OF r', of m] obtain alt q where
    q: "parse_alternative (Suc m) p = Some (Some alt, q)"
    "shape_alternative alt = AlternativeNode name 0 0 None"
    "reads q ((TT_COMMA, c) # (TT_RBRACE, r) # rs)" "p_errors q = p_errors p"
    by auto
  show "\<exists>res q. variant_loop n p acc = Some (res, q) \<and>
          map shape_alternative res = map shape_alternative acc @ [AlternativeNode name 0 0 None] \<and>
          reads q ((TT_RBRACE, r) # rs) \<and> p_errors q = p_errors p"
    using variant_loop_last_comma [OF q(1) r' q(3), of acc] q m by simp
qed

lemma parses_more_after_unit:
  assumes "parses_alternatives alts ks'"
  shows "parses_alternatives (AlternativeNode name 0 0 None # alts)
           ((TT_IDENTIFIER, name) # (TT_COMMA, c) # ks')"
  unfolding parses_alternatives_def
proof (intro allI impI)
  fix p n r rs acc
  assume r: "reads p (((TT_IDENTIFIER, name) # (TT_COMMA, c) # ks') @ (TT_RBRACE, r) # rs)"
    and n: "length ((TT_IDENTIFIER, name) # (TT_COMMA, c) # ks') < n"
  then obtain m where m: "n = Suc (Suc m)" "length ks' < Suc m"
    by (cases n; cases "n - 1") auto
  have r': "reads p ((TT_IDENTIFIER, name) # (TT_COMMA, c) # ks' @ (TT_RBRACE, r) # rs)"
    using r by simp
  from reads_unit_alternative [OF r', of m] obtain alt q where
    q: "parse_alternative (Suc m) p = Some (Some alt, q)"
    "shape_alternative alt = AlternativeNode name 0 0 None"
    "reads q ((TT_COMMA, c) # ks' @ (TT_RBRACE, r) # rs)" "p_errors q = p_errors p"
    by auto
  have r3: "reads (Parser_advance q) (ks' @ (TT_RBRACE, r) # rs)" using q(3) by simp
  from parses_alternativesD [OF assms r3 m(2), where acc = "acc @ [alt]"] obtain res q' where
    q': "variant_loop (Suc m) (Parser_advance q) (acc @ [alt]) = Some (res, q')"
    "map shape_alternative res = map shape_alternative (acc @ [alt]) @ alts"
    "reads q' ((TT_RBRACE, r) # rs)" "p_errors q' = p_errors (Parser_advance q)"
    by auto
  show "\<exists>res q. variant_loop n p acc = Some (res, q) \<and>
          map shape_alternative res =
            map shape_alternative acc @ AlternativeNode name 0 0 None # alts \<and>
          reads q ((TT_RBRACE, r) # rs) \<and> p_errors q = p_errors p"
    using variant_loop_more [OF q(1) r' q(3), of acc] q q' m by simp
qed

lemma parses_last_alternative:
  assumes "parses_type ty ks"
  shows "parses_alternatives [AlternativeNode name 0 0 (Some ty)]
           ((TT_IDENTIFIER, name) # (TT_COLON, a) # ks)"
  unfolding parses_alternatives_def
proof (intro allI impI)
  fix p n r rs acc
  assume r: "reads p (((TT_IDENTIFIER, name) # (TT_COLON, a) # ks) @ (TT_RBRACE, r) # rs)"
    and n: "length ((TT_IDENTIFIER, name) # (TT_COLON, a) # ks) < n"
  then obtain m where m: "n = Suc (Suc m)" "length ks \<le> m"
    by (cases n; cases "n - 1") auto
  have r': "reads p ((TT_IDENTIFIER, name) # (TT_COLON, a) # ks @ (TT_RBRACE, r) # rs)"
    using r by simp
  from reads_alternative [OF assms r m(2)] obtain alt q where
    q: "parse_alternative (Suc m) p = Some (Some alt, q)"
    "shape_alternative alt = AlternativeNode name 0 0 (Some ty)"
    "reads q ((TT_RBRACE, r) # rs)" "p_errors q = p_errors p"
    by auto
  show "\<exists>res q. variant_loop n p acc = Some (res, q) \<and>
          map shape_alternative res =
            map shape_alternative acc @ [AlternativeNode name 0 0 (Some ty)] \<and>
          reads q ((TT_RBRACE, r) # rs) \<and> p_errors q = p_errors p"
    using variant_loop_last [OF q(1) r' q(3), of acc] q m by simp
qed

lemma parses_last_alternative_comma:
  assumes "parses_type ty ks"
  shows "parses_alternatives [AlternativeNode name 0 0 (Some ty)]
           ((TT_IDENTIFIER, name) # (TT_COLON, a) # ks @ [(TT_COMMA, c)])"
  unfolding parses_alternatives_def
proof (intro allI impI)
  fix p n r rs acc
  assume r: "reads p (((TT_IDENTIFIER, name) # (TT_COLON, a) # ks @ [(TT_COMMA, c)]) @
                       (TT_RBRACE, r) # rs)"
    and n: "length ((TT_IDENTIFIER, name) # (TT_COLON, a) # ks @ [(TT_COMMA, c)]) < n"
  then obtain m where m: "n = Suc (Suc m)" "length ks \<le> m"
    by (cases n; cases "n - 1") auto
  have r': "reads p (((TT_IDENTIFIER, name) # (TT_COLON, a) # ks) @
                      (TT_COMMA, c) # (TT_RBRACE, r) # rs)"
    using r by simp
  then have r'': "reads p ((TT_IDENTIFIER, name) # (TT_COLON, a) # ks @
                      (TT_COMMA, c) # (TT_RBRACE, r) # rs)"
    by simp
  from reads_alternative [OF assms r' m(2)] obtain alt q where
    q: "parse_alternative (Suc m) p = Some (Some alt, q)"
    "shape_alternative alt = AlternativeNode name 0 0 (Some ty)"
    "reads q ((TT_COMMA, c) # (TT_RBRACE, r) # rs)" "p_errors q = p_errors p"
    by auto
  show "\<exists>res q. variant_loop n p acc = Some (res, q) \<and>
          map shape_alternative res =
            map shape_alternative acc @ [AlternativeNode name 0 0 (Some ty)] \<and>
          reads q ((TT_RBRACE, r) # rs) \<and> p_errors q = p_errors p"
    using variant_loop_last_comma [OF q(1) r'' q(3), of acc] q m by simp
qed

lemma parses_more_alternatives:
  assumes "parses_type ty ks" and "parses_alternatives alts ks'"
  shows "parses_alternatives (AlternativeNode name 0 0 (Some ty) # alts)
           ((TT_IDENTIFIER, name) # (TT_COLON, a) # ks @ (TT_COMMA, c) # ks')"
  unfolding parses_alternatives_def
proof (intro allI impI)
  fix p n r rs acc
  assume r: "reads p (((TT_IDENTIFIER, name) # (TT_COLON, a) # ks @ (TT_COMMA, c) # ks') @
                       (TT_RBRACE, r) # rs)"
    and n: "length ((TT_IDENTIFIER, name) # (TT_COLON, a) # ks @ (TT_COMMA, c) # ks') < n"
  then obtain m where m: "n = Suc (Suc m)" "length ks \<le> m" "length ks' < Suc m"
    by (cases n; cases "n - 1") auto
  have r': "reads p (((TT_IDENTIFIER, name) # (TT_COLON, a) # ks) @
                      (TT_COMMA, c) # ks' @ (TT_RBRACE, r) # rs)"
    using r by simp
  then have r'': "reads p ((TT_IDENTIFIER, name) # (TT_COLON, a) # ks @
                      (TT_COMMA, c) # ks' @ (TT_RBRACE, r) # rs)"
    by simp
  from reads_alternative [OF assms(1) r' m(2)] obtain alt q where
    q: "parse_alternative (Suc m) p = Some (Some alt, q)"
    "shape_alternative alt = AlternativeNode name 0 0 (Some ty)"
    "reads q ((TT_COMMA, c) # ks' @ (TT_RBRACE, r) # rs)" "p_errors q = p_errors p"
    by auto
  have r3: "reads (Parser_advance q) (ks' @ (TT_RBRACE, r) # rs)" using q(3) by simp
  from parses_alternativesD [OF assms(2) r3 m(3), where acc = "acc @ [alt]"]
  obtain res q' where
    q': "variant_loop (Suc m) (Parser_advance q) (acc @ [alt]) = Some (res, q')"
    "map shape_alternative res = map shape_alternative (acc @ [alt]) @ alts"
    "reads q' ((TT_RBRACE, r) # rs)" "p_errors q' = p_errors (Parser_advance q)"
    by auto
  show "\<exists>res q. variant_loop n p acc = Some (res, q) \<and>
          map shape_alternative res =
            map shape_alternative acc @ AlternativeNode name 0 0 (Some ty) # alts \<and>
          reads q ((TT_RBRACE, r) # rs) \<and> p_errors q = p_errors p"
    using variant_loop_more [OF q(1) r'' q(3), of acc] q q' m by simp
qed

text \<open>
  The parser on a token sequence of the language returns the tree that the sequence stands
  for, in the positions where the tokens were found, and reports nothing.
\<close>

lemma parser_reads_the_language:
  shows "type_tokens ty ks \<Longrightarrow> parses_type ty ks"
    and "fields_tokens flds ks \<Longrightarrow> parses_fields flds ks"
    and "alternatives_tokens alts ks \<Longrightarrow> parses_alternatives alts ks"
proof (induction rule: type_tokens_fields_tokens_alternatives_tokens.inducts)
  case (primitive t a)
  then show ?case by (rule parses_primitive)
next
  case (type_name name)
  show ?case by (rule parses_type_name)
next
  case (reference a b c d)
  show ?case by (rule parses_reference)
next
  case (empty_enum a b c)
  show ?case using parses_enum [of "[]" "[]" a b c] by simp
next
  case (enum vals ks a b c)
  then show ?case using parses_enum [of vals ks a b c] by simp
next
  case (empty_struct a b c)
  show ?case using parses_struct [of "[]" "[]" a b c] by simp
next
  case (struct flds ks a b c)
  then show ?case using parses_struct [of flds ks a b c] by simp
next
  case (empty_variant a b c)
  show ?case using parses_variant [of "[]" "[]" a b c] by simp
next
  case (variant alts ks a b c)
  then show ?case using parses_variant [of alts ks a b c] by simp
next
  case (array ty ks a b c)
  then show ?case using parses_element_container [of ty ks TT_ARRAY CK_ARRAY a b c] by simp
next
  case (optional ty ks a b c)
  then show ?case
    using parses_element_container [of ty ks TT_OPTIONAL CK_OPTIONAL a b c] by simp
next
  case (map_of kt ks vt ks' a b c d)
  then show ?case by (simp add: parses_map)
next
  case (last_field ty ks name a)
  then show ?case by (simp add: parses_last_field)
next
  case (last_field_comma ty ks name a c)
  then show ?case by (simp add: parses_last_field_comma)
next
  case (more_fields ty ks flds ks' name a c)
  then show ?case by (simp add: parses_more_fields)
next
  case (last_unit name)
  show ?case by (rule parses_last_unit)
next
  case (last_unit_comma name c)
  show ?case by (rule parses_last_unit_comma)
next
  case (more_after_unit alts ks' name c)
  then show ?case by (simp add: parses_more_after_unit)
next
  case (last_alternative ty ks name a)
  then show ?case by (simp add: parses_last_alternative)
next
  case (last_alternative_comma ty ks name a c)
  then show ?case by (simp add: parses_last_alternative_comma)
next
  case (more_alternatives ty ks alts ks' name a c)
  then show ?case by (simp add: parses_more_alternatives)
qed

lemma schema_tokens_first:
  "schema_tokens defs ks \<Longrightarrow>
   \<exists>t l ks'. ks = (t, l) # ks' \<and> (t = TT_IDENTIFIER \<or> t = TT_END_OF_FILE)"
  by (induction rule: schema_tokens.induct) auto

lemma schema_loop_reads:
  "schema_tokens defs ks \<Longrightarrow> reads p ks \<Longrightarrow> length ks \<le> n \<Longrightarrow>
   \<exists>res q. schema_loop n p acc = Some (res, q) \<and>
          map shape_definition res = map shape_definition acc @ defs \<and>
          p_errors q = p_errors p"
proof (induction arbitrary: p n acc rule: schema_tokens.induct)
  case (end_of_file a)
  then obtain m where "n = Suc m" by (cases n) auto
  then show ?case using end_of_file by (simp add: reading)
next
  case (type_definition ty ks defs ks' name a)
  then obtain m where m: "n = Suc m" "length ks \<le> m" "length ks' \<le> m" by (cases n) auto
  have r2: "reads (Parser_advance (Parser_advance p)) (ks @ ks')"
    using type_definition.prems by simp
  from parses_typeD [OF parser_reads_the_language(1) [OF type_definition.hyps(1)] r2 m(2)]
  obtain ty' q where
    q: "parse_type_expr m (Parser_advance (Parser_advance p)) = Some (Some ty', q)"
    "shape ty' = ty" "reads q ks'" "p_errors q = p_errors p"
    by auto
  obtain t l ks'' where k: "ks' = (t, l) # ks''" "t = TT_IDENTIFIER \<or> t = TT_END_OF_FILE"
    using schema_tokens_first [OF type_definition.hyps(2)] by auto
  have s: "skip_newlines q = q" using skip_newlines_reads [of q t l ks''] q(3) k by auto
  let ?d = "TypeDefinitionNode name (line (current_token p)) (column (current_token p)) ty'"
  from type_definition.IH [OF q(3) m(3), of "acc @ [?d]"] obtain res q' where
    q': "schema_loop m q (acc @ [?d]) = Some (res, q')"
    "map shape_definition res = map shape_definition (acc @ [?d]) @ defs"
    "p_errors q' = p_errors q"
    by auto
  have "schema_loop n p acc = Some (res, q')"
    using type_definition.prems m(1) q s q'(1)
    by (simp add: reading parse_type_definition_def del: schema_loop.simps(2))
       (simp add: schema_loop.simps(2) [of m p] reading parse_type_definition_def
          del: schema_loop.simps(2))
  then show ?case using q q' by simp
qed

text \<open>
  \<^verbatim>\<open>Parser::parse()\<close> on the tokens of a schema of the language: the schema, and no diagnostic.
\<close>

lemma parse_reads_the_language:
  assumes "schema_tokens defs ks" and "reads p ks" and "length ks \<le> n"
  shows "\<exists>sch q. Parser_parse n p = Some (sch, q) \<and>
           shape_schema sch = SchemaNode 0 0 defs \<and> p_errors q = p_errors p"
proof -
  obtain t l ks' where k: "ks = (t, l) # ks'" "t = TT_IDENTIFIER \<or> t = TT_END_OF_FILE"
    using schema_tokens_first [OF assms(1)] by auto
  have s: "skip_newlines p = p" using skip_newlines_reads [of p t l ks'] assms(2) k by auto
  from schema_loop_reads [OF assms, of "[]"] obtain res q where
    "schema_loop n p [] = Some (res, q)" "map shape_definition res = defs"
    "p_errors q = p_errors p"
    by auto
  then show ?thesis by (simp add: Parser_parse_def parse_schema_def s)
qed

subsection \<open>One more comma before a closing brace\<close>

lemma values_tokens_first:
  "values_tokens vals ks \<Longrightarrow> \<exists>l ks'. ks = (TT_IDENTIFIER, l) # ks'"
  by (induction rule: values_tokens.induct) auto

lemma type_tokens_first:
  shows "type_tokens ty ks \<Longrightarrow> \<exists>t l ks'. ks = (t, l) # ks' \<and> t \<noteq> TT_RBRACE"
    and "fields_tokens flds ks \<Longrightarrow> \<exists>l ks'. ks = (TT_IDENTIFIER, l) # ks'"
    and "alternatives_tokens alts ks \<Longrightarrow> \<exists>l ks'. ks = (TT_IDENTIFIER, l) # ks'"
  by (induction rule: type_tokens_fields_tokens_alternatives_tokens.inducts)
     (auto simp: primitive_token_def)

text \<open>A body that does not end in a comma, with a comma after it, is a body of the same items.\<close>

lemma values_tokens_comma:
  "values_tokens vals ks \<Longrightarrow> fst (last ks) \<noteq> TT_COMMA \<Longrightarrow>
   values_tokens vals (ks @ [(TT_COMMA, c)])"
proof (induction rule: values_tokens.induct)
  case (last_value v)
  show ?case using values_tokens.last_value_comma [of v c] by simp
next
  case (last_value_comma v c)
  then show ?case by simp
next
  case (more_values vs ks v c')
  then have "ks \<noteq> []" using values_tokens_first by blast
  then show ?case
    using more_values values_tokens.more_values [of vs "ks @ [(TT_COMMA, c)]" v c'] by simp
qed

lemma body_tokens_comma:
  shows "type_tokens ty ks \<Longrightarrow> True"
    and "fields_tokens flds ks \<Longrightarrow> fst (last ks) \<noteq> TT_COMMA \<Longrightarrow>
         fields_tokens flds (ks @ [(TT_COMMA, c)])"
    and "alternatives_tokens alts ks \<Longrightarrow> fst (last ks) \<noteq> TT_COMMA \<Longrightarrow>
         alternatives_tokens alts (ks @ [(TT_COMMA, c)])"
proof (induction rule: type_tokens_fields_tokens_alternatives_tokens.inducts)
  case (last_field ty ks name a)
  show ?case using type_tokens_fields_tokens_alternatives_tokens.last_field_comma [OF last_field(1)] by simp
next
  case (last_field_comma ty ks name a c)
  then show ?case by simp
next
  case (more_fields ty ks flds ks' name a c')
  then have "ks' \<noteq> []" using type_tokens_first(2) by blast
  then show ?case
    using more_fields
      type_tokens_fields_tokens_alternatives_tokens.more_fields
        [of ty ks flds "ks' @ [(TT_COMMA, c)]" name a c']
    by simp
next
  case (last_unit name)
  show ?case using type_tokens_fields_tokens_alternatives_tokens.last_unit_comma [of name c] by simp
next
  case (last_unit_comma name c)
  then show ?case by simp
next
  case (more_after_unit alts ks' name c')
  then have "ks' \<noteq> []" using type_tokens_first(3) by blast
  then show ?case
    using more_after_unit
      type_tokens_fields_tokens_alternatives_tokens.more_after_unit
        [of alts "ks' @ [(TT_COMMA, c)]" name c']
    by simp
next
  case (last_alternative ty ks name a)
  show ?case
    using type_tokens_fields_tokens_alternatives_tokens.last_alternative_comma [OF last_alternative(1)]
    by simp
next
  case (last_alternative_comma ty ks name a c)
  then show ?case by simp
next
  case (more_alternatives ty ks alts ks' name a c')
  then have "ks' \<noteq> []" using type_tokens_first(3) by blast
  then show ?case
    using more_alternatives
      type_tokens_fields_tokens_alternatives_tokens.more_alternatives
        [of ty ks alts "ks' @ [(TT_COMMA, c)]" name a c']
    by simp
qed simp_all

text \<open>
  \<open>takes_comma P ks\<close>: wherever in \<open>ks\<close> a closing brace follows a token other than a comma
  and an opening brace, the sequence with a comma in front of that brace satisfies \<open>P\<close>.
\<close>

definition takes_comma ::
  "((TokenType \<times> string) list \<Rightarrow> bool) \<Rightarrow> (TokenType \<times> string) list \<Rightarrow> bool" where
  "takes_comma P ks \<longleftrightarrow>
     (\<forall>us k r vs c. ks = us @ k # (TT_RBRACE, r) # vs \<longrightarrow>
        fst k \<noteq> TT_COMMA \<longrightarrow> fst k \<noteq> TT_LBRACE \<longrightarrow>
        P (us @ k # (TT_COMMA, c) # (TT_RBRACE, r) # vs))"

lemma takes_commaI:
  assumes "\<And>us k r vs c. ks = us @ k # (TT_RBRACE, r) # vs \<Longrightarrow> fst k \<noteq> TT_COMMA \<Longrightarrow>
             fst k \<noteq> TT_LBRACE \<Longrightarrow> P (us @ k # (TT_COMMA, c) # (TT_RBRACE, r) # vs)"
  shows "takes_comma P ks"
  using assms unfolding takes_comma_def by blast

lemma takes_commaD:
  "takes_comma P ks \<Longrightarrow> ks = us @ k # (TT_RBRACE, r) # vs \<Longrightarrow> fst k \<noteq> TT_COMMA \<Longrightarrow>
   fst k \<noteq> TT_LBRACE \<Longrightarrow> P (us @ k # (TT_COMMA, c) # (TT_RBRACE, r) # vs)"
  unfolding takes_comma_def by blast

text \<open>Where two adjacent tokens of a sequence lie, when the sequence is given in parts.\<close>

lemma two_in_Cons:
  assumes "x # xs = us @ k # z # vs"
  shows "us = [] \<and> k = x \<and> xs = z # vs \<or> (\<exists>us'. us = x # us' \<and> xs = us' @ k # z # vs)"
  using assms by (cases us) auto

lemma two_in_snoc:
  assumes "xs @ [y] = us @ k # z # vs"
  shows "vs = [] \<and> z = y \<and> xs = us @ [k] \<or> (\<exists>ws. vs = ws @ [y] \<and> xs = us @ k # z # ws)"
  using assms by (cases vs rule: rev_cases) auto

lemma two_in_append:
  assumes "xs @ ys = us @ k # z # vs"
  shows "(\<exists>ws. xs = us @ k # z # ws \<and> vs = ws @ ys) \<or>
         xs = us @ [k] \<and> ys = z # vs \<or>
         (\<exists>ws. us = xs @ ws \<and> ys = ws @ k # z # vs)"
proof -
  from assms consider ws where "xs = us @ ws" "ws @ ys = k # z # vs"
    | ws where "xs @ ws = us" "ys = ws @ k # z # vs"
    by (auto simp: append_eq_append_conv2)
  then show ?thesis
  proof cases
    case 1
    then show ?thesis
      by (cases ws; cases "tl ws") (auto simp: Cons_eq_append_conv)
  next
    case 2
    then show ?thesis by auto
  qed
qed

text \<open>A body in braces.\<close>

lemma braces_take_comma:
  assumes inner: "ks = [] \<or> B ks \<and> takes_comma B ks"
    and comma: "\<And>c. ks \<noteq> [] \<Longrightarrow> fst (last ks) \<noteq> TT_COMMA \<Longrightarrow> B (ks @ [(TT_COMMA, c)])"
    and rule: "\<And>ks r. B ks \<Longrightarrow> P ((t, a) # (TT_LBRACE, b) # ks @ [(TT_RBRACE, r)])"
    and t: "t \<noteq> TT_RBRACE"
  shows "takes_comma P ((t, a) # (TT_LBRACE, b) # ks @ [(TT_RBRACE, r0)])"
proof (rule takes_commaI)
  fix us k r vs c
  assume eq: "(t, a) # (TT_LBRACE, b) # ks @ [(TT_RBRACE, r0)] = us @ k # (TT_RBRACE, r) # vs"
    and k: "fst k \<noteq> TT_COMMA" "fst k \<noteq> TT_LBRACE"
  from two_in_Cons [OF eq] obtain us1 where
    u1: "us = (t, a) # us1" "(TT_LBRACE, b) # ks @ [(TT_RBRACE, r0)] = us1 @ k # (TT_RBRACE, r) # vs"
    by auto
  from two_in_Cons [OF u1(2)] k obtain us2 where
    u2: "us1 = (TT_LBRACE, b) # us2" "ks @ [(TT_RBRACE, r0)] = us2 @ k # (TT_RBRACE, r) # vs"
    by auto
  from two_in_snoc [OF u2(2)] show "P (us @ k # (TT_COMMA, c) # (TT_RBRACE, r) # vs)"
  proof (elim disjE conjE exE)
    assume e: "vs = []" "(TT_RBRACE, r) = (TT_RBRACE, r0)" "ks = us2 @ [k]"
    then have "B ks" using inner by auto
    have "B (ks @ [(TT_COMMA, c)])" using comma [of c] e k by simp
    from rule [OF this, of r] show ?thesis using e u1 u2 by simp
  next
    fix ws assume e: "vs = ws @ [(TT_RBRACE, r0)]" "ks = us2 @ k # (TT_RBRACE, r) # ws"
    then have "takes_comma B ks" using inner by auto
    from takes_commaD [OF this e(2) k, of c] have "B (us2 @ k # (TT_COMMA, c) # (TT_RBRACE, r) # ws)" .
    from rule [OF this, of r0] show ?thesis using e u1 u2 by simp
  qed
qed

lemma no_brace_takes_comma:
  assumes "TT_RBRACE \<notin> fst ` set ks"
  shows "takes_comma P ks"
  using assms by (auto simp: takes_comma_def)

lemma values_tokens_no_brace: "values_tokens vals ks \<Longrightarrow> TT_RBRACE \<notin> fst ` set ks"
  by (induction rule: values_tokens.induct) auto

text \<open>A type between angle brackets, after a token \<open>t\<close>.\<close>

lemma angles_take_comma:
  assumes inner: "type_tokens ty ks" "takes_comma (type_tokens ty) ks"
    and rule: "\<And>ks. type_tokens ty ks \<Longrightarrow> P ((t, a) # (TT_LANGLE, b) # ks @ [(TT_RANGLE, d)])"
    and t: "t \<noteq> TT_RBRACE"
  shows "takes_comma P ((t, a) # (TT_LANGLE, b) # ks @ [(TT_RANGLE, d)])"
proof (rule takes_commaI)
  fix us k r vs c
  assume eq: "(t, a) # (TT_LANGLE, b) # ks @ [(TT_RANGLE, d)] = us @ k # (TT_RBRACE, r) # vs"
    and k: "fst k \<noteq> TT_COMMA" "fst k \<noteq> TT_LBRACE"
  obtain t' l ks' where f: "ks = (t', l) # ks'" "t' \<noteq> TT_RBRACE"
    using type_tokens_first(1) [OF inner(1)] by auto
  from two_in_Cons [OF eq] obtain us1 where
    u1: "us = (t, a) # us1" "(TT_LANGLE, b) # ks @ [(TT_RANGLE, d)] = us1 @ k # (TT_RBRACE, r) # vs"
    by auto
  from two_in_Cons [OF u1(2)] f obtain us2 where
    u2: "us1 = (TT_LANGLE, b) # us2" "ks @ [(TT_RANGLE, d)] = us2 @ k # (TT_RBRACE, r) # vs"
    by auto
  from two_in_snoc [OF u2(2)] obtain ws where
    e: "vs = ws @ [(TT_RANGLE, d)]" "ks = us2 @ k # (TT_RBRACE, r) # ws"
    by auto
  from takes_commaD [OF inner(2) e(2) k, of c]
  have "type_tokens ty (us2 @ k # (TT_COMMA, c) # (TT_RBRACE, r) # ws)" .
  from rule [OF this] show "P (us @ k # (TT_COMMA, c) # (TT_RBRACE, r) # vs)"
    using e u1 u2 by simp
qed

lemma map_takes_comma:
  assumes kt: "type_tokens kt ks" "takes_comma (type_tokens kt) ks"
    and vt: "type_tokens vt ks'" "takes_comma (type_tokens vt) ks'"
  shows "takes_comma (type_tokens (ContainerTypeNode CK_MAP 0 0 None (Some kt) (Some vt)))
           ((TT_MAP, a) # (TT_LANGLE, b) # ks @ (TT_COMMA, d) # ks' @ [(TT_RANGLE, e)])"
proof (rule takes_commaI)
  fix us k r vs c
  assume eq: "(TT_MAP, a) # (TT_LANGLE, b) # ks @ (TT_COMMA, d) # ks' @ [(TT_RANGLE, e)] =
              us @ k # (TT_RBRACE, r) # vs"
    and k: "fst k \<noteq> TT_COMMA" "fst k \<noteq> TT_LBRACE"
  let ?goal = "type_tokens (ContainerTypeNode CK_MAP 0 0 None (Some kt) (Some vt))
                 (us @ k # (TT_COMMA, c) # (TT_RBRACE, r) # vs)"
  obtain t1 l1 ks1 where f1: "ks = (t1, l1) # ks1" "t1 \<noteq> TT_RBRACE"
    using type_tokens_first(1) [OF kt(1)] by auto
  obtain t2 l2 ks2 where f2: "ks' = (t2, l2) # ks2" "t2 \<noteq> TT_RBRACE"
    using type_tokens_first(1) [OF vt(1)] by auto
  from two_in_Cons [OF eq] obtain us1 where
    u1: "us = (TT_MAP, a) # us1"
    "(TT_LANGLE, b) # ks @ (TT_COMMA, d) # ks' @ [(TT_RANGLE, e)] = us1 @ k # (TT_RBRACE, r) # vs"
    by auto
  from two_in_Cons [OF u1(2)] f1 obtain us2 where
    u2: "us1 = (TT_LANGLE, b) # us2"
    "ks @ (TT_COMMA, d) # ks' @ [(TT_RANGLE, e)] = us2 @ k # (TT_RBRACE, r) # vs"
    by auto
  from two_in_append [OF u2(2)] show ?goal
  proof (elim disjE conjE exE)
    fix ws assume e: "ks = us2 @ k # (TT_RBRACE, r) # ws" "vs = ws @ (TT_COMMA, d) # ks' @ [(TT_RANGLE, e)]"
    from takes_commaD [OF kt(2) e(1) k, of c]
    have "type_tokens kt (us2 @ k # (TT_COMMA, c) # (TT_RBRACE, r) # ws)" .
    from map_of [OF this vt(1), of a b d e] show ?goal using e u1 u2 by simp
  next
    assume "ks = us2 @ [k]" "(TT_COMMA, d) # ks' @ [(TT_RANGLE, e)] = (TT_RBRACE, r) # vs"
    then show ?goal by simp
  next
    fix ws assume e: "us2 = ks @ ws"
      "(TT_COMMA, d) # ks' @ [(TT_RANGLE, e)] = ws @ k # (TT_RBRACE, r) # vs"
    from two_in_Cons [OF e(2)] k f2 obtain ws1 where
      w1: "ws = (TT_COMMA, d) # ws1" "ks' @ [(TT_RANGLE, e)] = ws1 @ k # (TT_RBRACE, r) # vs"
      by auto
    from two_in_snoc [OF w1(2)] obtain ws2 where
      w2: "vs = ws2 @ [(TT_RANGLE, e)]" "ks' = ws1 @ k # (TT_RBRACE, r) # ws2"
      by auto
    from takes_commaD [OF vt(2) w2(2) k, of c]
    have "type_tokens vt (ws1 @ k # (TT_COMMA, c) # (TT_RBRACE, r) # ws2)" .
    from map_of [OF kt(1) this, of a b d e] show ?goal using e w1 w2 u1 u2 by simp
  qed
qed

text \<open>An item \<open>name : type\<close>, alone or followed by a comma and what \<open>B\<close> describes.\<close>

lemma item_takes_comma:
  assumes ty: "type_tokens ty ks" "takes_comma (type_tokens ty) ks"
    and rule: "\<And>ks. type_tokens ty ks \<Longrightarrow> P ((TT_IDENTIFIER, name) # (TT_COLON, a) # ks @ tl')"
    and tl': "tl' = [] \<or> tl' = [(TT_COMMA, d)]"
  shows "takes_comma P ((TT_IDENTIFIER, name) # (TT_COLON, a) # ks @ tl')"
proof (rule takes_commaI)
  fix us k r vs c
  assume eq: "(TT_IDENTIFIER, name) # (TT_COLON, a) # ks @ tl' = us @ k # (TT_RBRACE, r) # vs"
    and k: "fst k \<noteq> TT_COMMA" "fst k \<noteq> TT_LBRACE"
  obtain t1 l1 ks1 where f1: "ks = (t1, l1) # ks1" "t1 \<noteq> TT_RBRACE"
    using type_tokens_first(1) [OF ty(1)] by auto
  from two_in_Cons [OF eq] obtain us1 where
    u1: "us = (TT_IDENTIFIER, name) # us1"
    "(TT_COLON, a) # ks @ tl' = us1 @ k # (TT_RBRACE, r) # vs"
    by auto
  from two_in_Cons [OF u1(2)] f1 obtain us2 where
    u2: "us1 = (TT_COLON, a) # us2" "ks @ tl' = us2 @ k # (TT_RBRACE, r) # vs"
    by auto
  from two_in_append [OF u2(2)] tl' obtain ws where
    e: "ks = us2 @ k # (TT_RBRACE, r) # ws" "vs = ws @ tl'"
    using k by (auto simp: Cons_eq_append_conv)
  from takes_commaD [OF ty(2) e(1) k, of c]
  have "type_tokens ty (us2 @ k # (TT_COMMA, c) # (TT_RBRACE, r) # ws)" .
  from rule [OF this] show "P (us @ k # (TT_COMMA, c) # (TT_RBRACE, r) # vs)"
    using e u1 u2 by simp
qed

lemma items_take_comma:
  assumes ty: "type_tokens ty ks" "takes_comma (type_tokens ty) ks"
    and more: "B ks'" "takes_comma B ks'" "\<exists>l ks''. ks' = (TT_IDENTIFIER, l) # ks''"
    and rule: "\<And>ks ks'. type_tokens ty ks \<Longrightarrow> B ks' \<Longrightarrow>
                 P ((TT_IDENTIFIER, name) # (TT_COLON, a) # ks @ (TT_COMMA, d) # ks')"
  shows "takes_comma P ((TT_IDENTIFIER, name) # (TT_COLON, a) # ks @ (TT_COMMA, d) # ks')"
proof (rule takes_commaI)
  fix us k r vs c
  assume eq: "(TT_IDENTIFIER, name) # (TT_COLON, a) # ks @ (TT_COMMA, d) # ks' =
              us @ k # (TT_RBRACE, r) # vs"
    and k: "fst k \<noteq> TT_COMMA" "fst k \<noteq> TT_LBRACE"
  obtain t1 l1 ks1 where f1: "ks = (t1, l1) # ks1" "t1 \<noteq> TT_RBRACE"
    using type_tokens_first(1) [OF ty(1)] by auto
  from two_in_Cons [OF eq] obtain us1 where
    u1: "us = (TT_IDENTIFIER, name) # us1"
    "(TT_COLON, a) # ks @ (TT_COMMA, d) # ks' = us1 @ k # (TT_RBRACE, r) # vs"
    by auto
  from two_in_Cons [OF u1(2)] f1 obtain us2 where
    u2: "us1 = (TT_COLON, a) # us2" "ks @ (TT_COMMA, d) # ks' = us2 @ k # (TT_RBRACE, r) # vs"
    by auto
  from two_in_append [OF u2(2)] show "P (us @ k # (TT_COMMA, c) # (TT_RBRACE, r) # vs)"
  proof (elim disjE conjE exE)
    fix ws assume e: "ks = us2 @ k # (TT_RBRACE, r) # ws" "vs = ws @ (TT_COMMA, d) # ks'"
    from takes_commaD [OF ty(2) e(1) k, of c]
    have "type_tokens ty (us2 @ k # (TT_COMMA, c) # (TT_RBRACE, r) # ws)" .
    from rule [OF this more(1)] show ?thesis using e u1 u2 by simp
  next
    assume "ks = us2 @ [k]" "(TT_COMMA, d) # ks' = (TT_RBRACE, r) # vs"
    then show ?thesis by simp
  next
    fix ws assume e: "us2 = ks @ ws" "(TT_COMMA, d) # ks' = ws @ k # (TT_RBRACE, r) # vs"
    from two_in_Cons [OF e(2)] k more(3) obtain ws1 where
      w1: "ws = (TT_COMMA, d) # ws1" "ks' = ws1 @ k # (TT_RBRACE, r) # vs"
      by auto
    from takes_commaD [OF more(2) w1(2) k, of c]
    have "B (ws1 @ k # (TT_COMMA, c) # (TT_RBRACE, r) # vs)" .
    from rule [OF ty(1) this] show ?thesis using e w1 u1 u2 by simp
  qed
qed

lemma after_unit_takes_comma:
  assumes more: "alternatives_tokens alts ks'" "takes_comma (alternatives_tokens alts) ks'"
  shows "takes_comma (alternatives_tokens (AlternativeNode name 0 0 None # alts))
           ((TT_IDENTIFIER, name) # (TT_COMMA, d) # ks')"
proof (rule takes_commaI)
  fix us k r vs c
  assume eq: "(TT_IDENTIFIER, name) # (TT_COMMA, d) # ks' = us @ k # (TT_RBRACE, r) # vs"
    and k: "fst k \<noteq> TT_COMMA" "fst k \<noteq> TT_LBRACE"
  from two_in_Cons [OF eq] obtain us1 where
    u1: "us = (TT_IDENTIFIER, name) # us1" "(TT_COMMA, d) # ks' = us1 @ k # (TT_RBRACE, r) # vs"
    by auto
  from two_in_Cons [OF u1(2)] k obtain us2 where
    u2: "us1 = (TT_COMMA, d) # us2" "ks' = us2 @ k # (TT_RBRACE, r) # vs"
    by auto
  from takes_commaD [OF more(2) u2(2) k, of c]
  have "alternatives_tokens alts (us2 @ k # (TT_COMMA, c) # (TT_RBRACE, r) # vs)" .
  from more_after_unit [OF this, of name d]
  show "alternatives_tokens (AlternativeNode name 0 0 None # alts)
          (us @ k # (TT_COMMA, c) # (TT_RBRACE, r) # vs)"
    using u1 u2 by simp
qed

lemma language_takes_comma:
  shows "type_tokens ty ks \<Longrightarrow> takes_comma (type_tokens ty) ks"
    and "fields_tokens flds ks \<Longrightarrow> takes_comma (fields_tokens flds) ks"
    and "alternatives_tokens alts ks \<Longrightarrow> takes_comma (alternatives_tokens alts) ks"
proof (induction rule: type_tokens_fields_tokens_alternatives_tokens.inducts)
  case (primitive t a)
  show ?case by (auto simp: takes_comma_def Cons_eq_append_conv)
next
  case (type_name name)
  show ?case by (auto simp: takes_comma_def Cons_eq_append_conv)
next
  case (reference a b c d)
  show ?case by (rule no_brace_takes_comma) simp
next
  case (empty_enum a b c)
  show ?case by (auto simp: takes_comma_def Cons_eq_append_conv)
next
  case (enum vals ks a b c)
  have "ks \<noteq> []" using values_tokens_first [OF enum] by auto
  then show ?case
    using enum values_tokens_no_brace [OF enum]
    by (intro braces_take_comma [where B = "values_tokens vals"])
       (auto intro: no_brace_takes_comma values_tokens_comma
          type_tokens_fields_tokens_alternatives_tokens.enum)
next
  case (empty_struct a b c)
  show ?case by (auto simp: takes_comma_def Cons_eq_append_conv)
next
  case (struct flds ks a b c)
  then show ?case
    by (intro braces_take_comma [where B = "fields_tokens flds"])
       (auto intro: body_tokens_comma(2) type_tokens_fields_tokens_alternatives_tokens.struct)
next
  case (empty_variant a b c)
  show ?case by (auto simp: takes_comma_def Cons_eq_append_conv)
next
  case (variant alts ks a b c)
  then show ?case
    by (intro braces_take_comma [where B = "alternatives_tokens alts"])
       (auto intro: body_tokens_comma(3) type_tokens_fields_tokens_alternatives_tokens.variant)
next
  case (array ty ks a b c)
  then show ?case
    by (intro angles_take_comma [where ty = ty])
       (auto intro: type_tokens_fields_tokens_alternatives_tokens.array)
next
  case (optional ty ks a b c)
  then show ?case
    by (intro angles_take_comma [where ty = ty])
       (auto intro: type_tokens_fields_tokens_alternatives_tokens.optional)
next
  case (map_of kt ks vt ks' a b c d)
  then show ?case by (intro map_takes_comma)
next
  case (last_field ty ks name a)
  then show ?case
    using item_takes_comma [where ty = ty and ks = ks and tl' = "[]" and name = name and a = a
        and P = "fields_tokens [FieldNode name 0 0 ty]"]
    by (auto intro: type_tokens_fields_tokens_alternatives_tokens.last_field)
next
  case (last_field_comma ty ks name a c)
  then show ?case
    using item_takes_comma [where ty = ty and ks = ks and tl' = "[(TT_COMMA, c)]"
        and name = name and a = a and d = c and P = "fields_tokens [FieldNode name 0 0 ty]"]
    by (auto intro: type_tokens_fields_tokens_alternatives_tokens.last_field_comma)
next
  case (more_fields ty ks flds ks' name a c)
  then show ?case
    by (intro items_take_comma [where ty = ty and B = "fields_tokens flds"])
       (auto intro: type_tokens_fields_tokens_alternatives_tokens.more_fields
          dest: type_tokens_first(2))
next
  case (last_unit name)
  show ?case by (auto simp: takes_comma_def Cons_eq_append_conv)
next
  case (last_unit_comma name c)
  show ?case by (auto simp: takes_comma_def Cons_eq_append_conv)
next
  case (more_after_unit alts ks' name c)
  then show ?case by (intro after_unit_takes_comma)
next
  case (last_alternative ty ks name a)
  then show ?case
    using item_takes_comma [where ty = ty and ks = ks and tl' = "[]" and name = name and a = a
        and P = "alternatives_tokens [AlternativeNode name 0 0 (Some ty)]"]
    by (auto intro: type_tokens_fields_tokens_alternatives_tokens.last_alternative)
next
  case (last_alternative_comma ty ks name a c)
  then show ?case
    using item_takes_comma [where ty = ty and ks = ks and tl' = "[(TT_COMMA, c)]"
        and name = name and a = a and d = c
        and P = "alternatives_tokens [AlternativeNode name 0 0 (Some ty)]"]
    by (auto intro: type_tokens_fields_tokens_alternatives_tokens.last_alternative_comma)
next
  case (more_alternatives ty ks alts ks' name a c)
  then show ?case
    by (intro items_take_comma [where ty = ty and B = "alternatives_tokens alts"])
       (auto intro: type_tokens_fields_tokens_alternatives_tokens.more_alternatives
          dest: type_tokens_first(3))
qed

text \<open>
  The same for a whole schema: a comma in front of a closing brace that follows an item
  leaves a schema of the language, with the same definitions.
\<close>

lemma schema_takes_comma:
  "schema_tokens defs ks \<Longrightarrow> takes_comma (schema_tokens defs) ks"
proof (induction rule: schema_tokens.induct)
  case (end_of_file a)
  show ?case by (auto simp: takes_comma_def Cons_eq_append_conv)
next
  case (type_definition ty ks defs ks' name a)
  show ?case
  proof (rule takes_commaI)
    fix us k r vs c
    assume eq: "(TT_IDENTIFIER, name) # (TT_COLON, a) # ks @ ks' = us @ k # (TT_RBRACE, r) # vs"
      and k: "fst k \<noteq> TT_COMMA" "fst k \<noteq> TT_LBRACE"
    let ?goal = "schema_tokens (TypeDefinitionNode name 0 0 ty # defs)
                   (us @ k # (TT_COMMA, c) # (TT_RBRACE, r) # vs)"
    obtain t1 l1 ks1 where f1: "ks = (t1, l1) # ks1" "t1 \<noteq> TT_RBRACE"
      using type_tokens_first(1) [OF type_definition.hyps(1)] by auto
    obtain t2 l2 ks2 where f2: "ks' = (t2, l2) # ks2" "t2 = TT_IDENTIFIER \<or> t2 = TT_END_OF_FILE"
      using schema_tokens_first [OF type_definition.hyps(2)] by auto
    from two_in_Cons [OF eq] obtain us1 where
      u1: "us = (TT_IDENTIFIER, name) # us1"
      "(TT_COLON, a) # ks @ ks' = us1 @ k # (TT_RBRACE, r) # vs"
      by auto
    from two_in_Cons [OF u1(2)] f1 obtain us2 where
      u2: "us1 = (TT_COLON, a) # us2" "ks @ ks' = us2 @ k # (TT_RBRACE, r) # vs"
      by auto
    from two_in_append [OF u2(2)] show ?goal
    proof (elim disjE conjE exE)
      fix ws assume e: "ks = us2 @ k # (TT_RBRACE, r) # ws" "vs = ws @ ks'"
      from takes_commaD [OF language_takes_comma(1) [OF type_definition.hyps(1)] e(1) k, of c]
      have "type_tokens ty (us2 @ k # (TT_COMMA, c) # (TT_RBRACE, r) # ws)" .
      from schema_tokens.type_definition [OF this type_definition.hyps(2), of name a]
      show ?goal using e u1 u2 by simp
    next
      assume "ks = us2 @ [k]" "ks' = (TT_RBRACE, r) # vs"
      then show ?goal using f2 by auto
    next
      fix ws assume e: "us2 = ks @ ws" "ks' = ws @ k # (TT_RBRACE, r) # vs"
      from takes_commaD [OF type_definition.IH e(2) k, of c]
      have "schema_tokens defs (ws @ k # (TT_COMMA, c) # (TT_RBRACE, r) # vs)" .
      from schema_tokens.type_definition [OF type_definition.hyps(1) this, of name a]
      show ?goal using e u1 u2 by simp
    qed
  qed
qed

subsection \<open>Sources that parse without diagnostics\<close>

text \<open>
  \<open>reports_more p q\<close>: the diagnostics of \<open>q\<close> are those of \<open>p\<close> and, possibly, more after them.
  \<open>read_to p ks q\<close>: \<open>q\<close> is \<open>p\<close> after it has read the tokens \<open>ks\<close>.
\<close>

definition reports_more :: "Parser \<Rightarrow> Parser \<Rightarrow> bool" where
  "reports_more p q \<longleftrightarrow> (\<exists>es. p_errors q = p_errors p @ es)"

definition read_to :: "Parser \<Rightarrow> (TokenType \<times> string) list \<Rightarrow> Parser \<Rightarrow> bool" where
  "read_to p ks q \<longleftrightarrow> reads p ks \<and> q = (Parser_advance ^^ length ks) p"

lemma reports_more_refl [simp]: "reports_more p p"
  by (simp add: reports_more_def)

lemma reports_more_trans: "reports_more p q \<Longrightarrow> reports_more q r \<Longrightarrow> reports_more p r"
  by (auto simp: reports_more_def)

lemma reports_more_same: "p_errors q = p_errors p \<Longrightarrow> reports_more p q"
  by (simp add: reports_more_def)

lemma reports_more_advance [simp]: "reports_more p (Parser_advance p)"
  by (simp add: reports_more_def)

lemma reports_more_report_error [simp]: "reports_more p (Parser_report_error p m)"
  by (simp add: reports_more_def Parser_report_error_def)

lemma reports_more_expect [simp]: "reports_more p (Parser_expect p t m)"
  by (simp add: Parser_expect_def)

lemma report_error_loud [simp]: "p_errors (Parser_report_error p m) \<noteq> p_errors p"
  by (simp add: Parser_report_error_def)

lemma quiet_between:
  assumes "reports_more p q" and "reports_more q r" and "p_errors r = p_errors p"
  shows "p_errors q = p_errors p"
proof -
  obtain es1 es2 where "p_errors q = p_errors p @ es1" "p_errors r = p_errors q @ es2"
    using assms(1,2) unfolding reports_more_def by blast
  then have "p_errors p @ es1 @ es2 = p_errors p @ []" using assms(3) by simp
  then have "es1 = []" by (simp only: same_append_eq append_is_Nil_conv)
  then show ?thesis using \<open>p_errors q = p_errors p @ es1\<close> by simp
qed

lemma expect_quiet:
  assumes "p_errors (Parser_expect p t m) = p_errors p"
  shows "ttype (current_token p) = t \<and> Parser_expect p t m = Parser_advance p"
  using assms by (auto simp: Parser_expect_def Parser_check_def split: if_splits)

lemma reads_append:
  "reads p (ks @ ks') \<longleftrightarrow> reads p ks \<and> reads ((Parser_advance ^^ length ks) p) ks'"
  by (induction ks arbitrary: p) (auto simp: funpow_swap1)

lemma read_to_Nil [simp]: "read_to p [] p"
  by (simp add: read_to_def)

lemma read_to_one: "read_to p [kind_of (current_token p)] (Parser_advance p)"
  by (simp add: read_to_def)

lemma read_to_trans: "read_to p ks q \<Longrightarrow> read_to q ks' r \<Longrightarrow> read_to p (ks @ ks') r"
proof -
  have "(Parser_advance ^^ (length ks + length ks')) p =
        (Parser_advance ^^ length ks') ((Parser_advance ^^ length ks) p)"
    by (simp add: add.commute [of "length ks"] funpow_add)
  then show "read_to p ks q \<Longrightarrow> read_to q ks' r \<Longrightarrow> read_to p (ks @ ks') r"
    by (simp add: read_to_def reads_append)
qed

lemma read_to_Cons:
  "kind_of (current_token p) = k \<Longrightarrow> read_to (Parser_advance p) ks q \<Longrightarrow> read_to p (k # ks) q"
  by (auto simp: read_to_def funpow_swap1)

lemma funpow_advance_errors [simp]: "p_errors ((Parser_advance ^^ k) p) = p_errors p"
  by (induction k) simp_all

lemma read_to_errors: "read_to p ks q \<Longrightarrow> p_errors q = p_errors p"
  by (auto simp: read_to_def)

lemma read_to_significant:
  assumes "read_to p ks q" and "ks \<noteq> []"
  shows "skip_newlines q = q"
proof -
  obtain k ks' where "ks = ks' @ [k]" using assms(2) by (cases ks rule: rev_cases) auto
  then have "q = Parser_advance ((Parser_advance ^^ length ks') p)"
    using assms(1) by (simp add: read_to_def)
  then show ?thesis by simp
qed

lemma read_to_reads: "read_to p ks q \<Longrightarrow> reads q ks' \<Longrightarrow> reads p (ks @ ks')"
  by (simp add: read_to_def reads_append)

text \<open>The loop of \<^verbatim>\<open>parse_enum_type\<close>.\<close>

lemma enum_loop_complete:
  "enum_loop n p acc = Some (res, q) \<Longrightarrow>
   reports_more p q \<and>
   (p_errors q = p_errors p \<longrightarrow>
      (\<exists>vals ks. res = acc @ vals \<and> read_to p ks q \<and>
         (ttype (current_token q) = TT_RBRACE \<longrightarrow>
            vals = [] \<and> ks = [] \<or> values_tokens vals ks)))"
proof (induction n arbitrary: p acc)
  case 0
  then show ?case by simp
next
  case (Suc n)
  show ?case
  proof (cases "\<not> Parser_check p TT_RBRACE \<and> \<not> Parser_check p TT_END_OF_FILE")
    case False
    then have "res = acc" "q = p" using Suc.prems by auto
    then show ?thesis by (auto intro!: exI [of _ "[]"])
  next
    case True
    note loop = this
    show ?thesis
    proof (cases "Parser_check p TT_IDENTIFIER")
      case False
      then show ?thesis using Suc.prems loop by auto
    next
      case True
      let ?v = "lexeme (current_token p)"
      let ?p1 = "Parser_advance p"
      have k: "kind_of (current_token p) = (TT_IDENTIFIER, ?v)"
        using True by (simp add: kind_of_def Parser_check_def)
      show ?thesis
      proof (cases "Parser_check ?p1 TT_COMMA")
        case True
        then have e: "enum_loop n (Parser_advance ?p1) (acc @ [?v]) = Some (res, q)"
          using Suc.prems loop \<open>Parser_check p TT_IDENTIFIER\<close> by (simp add: Let_def)
        have c: "kind_of (current_token ?p1) = (TT_COMMA, lexeme (current_token ?p1))"
          using True by (simp add: kind_of_def Parser_check_def)
        from Suc.IH [OF e] have m: "reports_more (Parser_advance ?p1) q"
          and ih: "p_errors q = p_errors p \<longrightarrow>
            (\<exists>vals ks. res = (acc @ [?v]) @ vals \<and> read_to (Parser_advance ?p1) ks q \<and>
               (ttype (current_token q) = TT_RBRACE \<longrightarrow>
                  vals = [] \<and> ks = [] \<or> values_tokens vals ks))"
          by simp_all
        have "reports_more p q"
          using m by (simp add: reports_more_def)
        moreover have "\<exists>vals ks. res = acc @ vals \<and> read_to p ks q \<and>
               (ttype (current_token q) = TT_RBRACE \<longrightarrow>
                  vals = [] \<and> ks = [] \<or> values_tokens vals ks)"
          if "p_errors q = p_errors p"
        proof -
          from ih that obtain vals ks where
            v: "res = (acc @ [?v]) @ vals" "read_to (Parser_advance ?p1) ks q"
            "ttype (current_token q) = TT_RBRACE \<longrightarrow> vals = [] \<and> ks = [] \<or> values_tokens vals ks"
            by blast
          have r: "read_to p ((TT_IDENTIFIER, ?v) # (TT_COMMA, lexeme (current_token ?p1)) # ks) q"
            using read_to_Cons [OF k read_to_Cons [OF c v(2)]] .
          have "values_tokens (?v # vals)
                  ((TT_IDENTIFIER, ?v) # (TT_COMMA, lexeme (current_token ?p1)) # ks)"
            if "ttype (current_token q) = TT_RBRACE"
            using v(3) that by (auto intro: values_tokens.intros)
          then show ?thesis using v(1) r by (intro exI [of _ "?v # vals"] exI) auto
        qed
        ultimately show ?thesis by blast
      next
        case False
        note no_comma = this
        show ?thesis
        proof (cases "Parser_check ?p1 TT_RBRACE")
          case False
          then have "res = acc @ [?v]" "q = ?p1"
            using Suc.prems loop \<open>Parser_check p TT_IDENTIFIER\<close> no_comma by (auto simp: Let_def)
          then show ?thesis
            using False read_to_one [of p] k
            by (auto simp: Parser_check_def intro!: exI [of _ "[?v]"])
        next
          case True
          then have e: "enum_loop n ?p1 (acc @ [?v]) = Some (res, q)"
            using Suc.prems loop \<open>Parser_check p TT_IDENTIFIER\<close> no_comma by (simp add: Let_def)
          then have "res = acc @ [?v]" "q = ?p1"
            using True by (cases n; simp)+
          then show ?thesis
            using read_to_one [of p] k
            by (auto intro!: exI [of _ "[?v]"] exI [of _ "[(TT_IDENTIFIER, ?v)]"]
                  values_tokens.intros)
        qed
      qed
    qed
  qed
qed

text \<open>
  What the parsing functions return: they may report, and if they do not, they have read
  tokens of the language and return the tree of those tokens.
\<close>

definition type_spec :: "Parser \<Rightarrow> TypeExprNode option \<times> Parser \<Rightarrow> bool" where
  "type_spec p res \<longleftrightarrow>
     reports_more p (snd res) \<and>
     (p_errors (snd res) = p_errors p \<longrightarrow>
        (\<exists>ty ks. fst res = Some ty \<and> type_tokens (shape ty) ks \<and> read_to p ks (snd res)))"

definition field_spec :: "Parser \<Rightarrow> FieldNode option \<times> Parser \<Rightarrow> bool" where
  "field_spec p res \<longleftrightarrow>
     reports_more p (snd res) \<and>
     (p_errors (snd res) = p_errors p \<longrightarrow>
        (\<exists>f name a ty ks. fst res = Some f \<and> shape_field f = FieldNode name 0 0 ty \<and>
           type_tokens ty ks \<and>
           read_to p ((TT_IDENTIFIER, name) # (TT_COLON, a) # ks) (snd res)))"

definition alternative_spec :: "Parser \<Rightarrow> AlternativeNode option \<times> Parser \<Rightarrow> bool" where
  "alternative_spec p res \<longleftrightarrow>
     reports_more p (snd res) \<and>
     (p_errors (snd res) = p_errors p \<longrightarrow>
        (\<exists>alt name. fst res = Some alt \<and>
           (shape_alternative alt = AlternativeNode name 0 0 None \<and>
            read_to p [(TT_IDENTIFIER, name)] (snd res) \<and>
            ttype (current_token (snd res)) \<noteq> TT_COLON \<or>
            (\<exists>a ty ks. shape_alternative alt = AlternativeNode name 0 0 (Some ty) \<and>
               type_tokens ty ks \<and>
               read_to p ((TT_IDENTIFIER, name) # (TT_COLON, a) # ks) (snd res)))))"

lemma skip_newlines_errors [simp]: "p_errors (skip_newlines p) = p_errors p"
proof (induction p rule: skip_newlines.induct)
  case (1 p)
  then show ?case by (subst skip_newlines.simps) simp
qed

lemma reports_more_skip_newlines [simp]: "reports_more p (skip_newlines p)"
  by (simp add: reports_more_def)

lemma type_spec_loud:
  assumes "reports_more p s" and "p_errors s \<noteq> p_errors p" and "reports_more s q"
  shows "type_spec p (r, q)"
proof -
  have "p_errors q \<noteq> p_errors p"
    using quiet_between [OF assms(1) assms(3)] assms(2) by blast
  then show ?thesis using reports_more_trans [OF assms(1) assms(3)] by (simp add: type_spec_def)
qed

text \<open>A body between braces, after the keyword \<open>t\<close>: what \<^verbatim>\<open>parse_enum_type\<close>, \<^verbatim>\<open>parse_struct_type\<close>
  and \<^verbatim>\<open>parse_variant_type\<close> have in common.\<close>

lemma braces_complete:
  assumes loop: "reports_more (skip_newlines (Parser_expect (Parser_expect p t m1) TT_LBRACE m2)) p4"
    and body: "p_errors p4 =
                 p_errors (skip_newlines (Parser_expect (Parser_expect p t m1) TT_LBRACE m2)) \<Longrightarrow>
               ttype (current_token p4) = TT_RBRACE \<Longrightarrow>
               \<exists>ks. read_to (skip_newlines (Parser_expect (Parser_expect p t m1) TT_LBRACE m2))
                      ks p4 \<and>
                    (\<forall>a b c. type_tokens (shape ty) ((t, a) # (TT_LBRACE, b) # ks @ [(TT_RBRACE, c)]))"
  shows "type_spec p (Some ty, Parser_expect p4 TT_RBRACE m3)"
proof -
  let ?p1 = "Parser_expect p t m1"
  let ?p2 = "Parser_expect ?p1 TT_LBRACE m2"
  let ?p3 = "skip_newlines ?p2"
  let ?q = "Parser_expect p4 TT_RBRACE m3"
  have m: "reports_more p ?p1" "reports_more ?p1 ?p2" "reports_more ?p2 ?p3" "reports_more p4 ?q"
    by simp_all
  have all: "reports_more p ?q"
    using m loop by (blast intro: reports_more_trans)
  have "\<exists>ty' ks. Some ty = Some ty' \<and> type_tokens (shape ty') ks \<and> read_to p ks ?q"
    if quiet: "p_errors ?q = p_errors p"
  proof -
    have q1: "p_errors ?p1 = p_errors p"
      using quiet_between [OF m(1) _ quiet] m loop by (blast intro: reports_more_trans)
    then have p1: "ttype (current_token p) = t" "?p1 = Parser_advance p"
      using expect_quiet by blast+
    have q2: "p_errors ?p2 = p_errors p"
      using quiet_between [of p ?p2 ?q] quiet m loop by (blast intro: reports_more_trans)
    then have p2: "ttype (current_token (Parser_advance p)) = TT_LBRACE"
      "?p2 = Parser_advance (Parser_advance p)"
      using expect_quiet [of ?p1 TT_LBRACE m2] q1 p1(2) by simp_all
    have p3: "?p3 = Parser_advance (Parser_advance p)" using p2(2) by simp
    have q4: "p_errors p4 = p_errors p"
      using quiet_between [of p p4 ?q] quiet m loop by (blast intro: reports_more_trans)
    then have p4: "ttype (current_token p4) = TT_RBRACE" "?q = Parser_advance p4"
      using expect_quiet [of p4 TT_RBRACE m3] quiet by simp_all
    have "p_errors p4 = p_errors ?p3" using q4 q2 by simp
    from body [OF this p4(1)] p3 obtain ks where
      ks: "read_to (Parser_advance (Parser_advance p)) ks p4"
      "\<And>a b c. type_tokens (shape ty) ((t, a) # (TT_LBRACE, b) # ks @ [(TT_RBRACE, c)])"
      by auto
    let ?a = "lexeme (current_token p)"
    let ?b = "lexeme (current_token (Parser_advance p))"
    let ?c = "lexeme (current_token p4)"
    have "read_to p ((t, ?a) # (TT_LBRACE, ?b) # ks @ [(TT_RBRACE, ?c)]) ?q"
      unfolding p4(2)
      using p1(1) p2(1) p4(1) ks(1) read_to_one [of p4]
      by (intro read_to_Cons read_to_trans [of _ ks p4]) (simp_all add: kind_of_def)
    then show ?thesis using ks(2) by blast
  qed
  then show ?thesis using all by (simp add: type_spec_def)
qed

lemma parse_enum_type_complete:
  assumes "parse_enum_type n p = Some res"
  shows "type_spec p res"
proof -
  let ?p3 = "skip_newlines (Parser_expect (Parser_expect p TT_ENUM
               (''Expected '' @ quoted ''enum'')) TT_LBRACE
               (''Expected '' @ quoted ''{'' @ '' after '' @ quoted ''enum''))"
  obtain vals p4 where
    l: "enum_loop n ?p3 [] = Some (vals, p4)"
    and r: "res = (Some (EnumTypeNode (line (current_token p)) (column (current_token p)) vals),
                   Parser_expect p4 TT_RBRACE
                     (''Expected '' @ quoted ''}'' @ '' after enum values''))"
    using assms by (auto simp: parse_enum_type_def Let_def split: option.splits)
  note c = enum_loop_complete [OF l]
  show ?thesis
    unfolding r
  proof (rule braces_complete)
    show "reports_more ?p3 p4" using c by simp
  next
    assume q: "p_errors p4 = p_errors ?p3"
      and b: "ttype (current_token p4) = TT_RBRACE"
    from c q b obtain ks where
      ks: "read_to ?p3 ks p4" "vals = [] \<and> ks = [] \<or> values_tokens vals ks"
      by auto
    have "type_tokens (EnumTypeNode 0 0 vals) ((TT_ENUM, a) # (TT_LBRACE, b) # ks @ [(TT_RBRACE, c)])"
      for a b c
      using ks(2) by (auto intro: empty_enum enum)
    then show "\<exists>ks. read_to ?p3 ks p4 \<and>
            (\<forall>a b c. type_tokens
               (shape (EnumTypeNode (line (current_token p)) (column (current_token p)) vals))
               ((TT_ENUM, a) # (TT_LBRACE, b) # ks @ [(TT_RBRACE, c)]))"
      using ks(1) by auto
  qed
qed

text \<open>One level of calls more: each function at bound \<open>Suc n\<close>, from those it calls at bound \<open>n\<close>.\<close>

lemma named_type_complete:
  assumes ih: "\<And>p res. parse_type_expr n p = Some res \<Longrightarrow> type_spec p res"
    and id: "Parser_check p TT_IDENTIFIER"
    and ty: "parse_type_expr n
               (Parser_expect (Parser_advance p) TT_COLON m) = Some (r, q)"
  shows "reports_more p q \<and>
         (p_errors q = p_errors p \<longrightarrow>
            (\<exists>a ty ks. r = Some ty \<and> type_tokens (shape ty) ks \<and>
               read_to p ((TT_IDENTIFIER, lexeme (current_token p)) # (TT_COLON, a) # ks) q))"
proof -
  let ?p1 = "Parser_advance p"
  let ?p2 = "Parser_expect ?p1 TT_COLON m"
  have s: "type_spec ?p2 (r, q)" using ih [OF ty] .
  have m: "reports_more p ?p2" "reports_more ?p2 q"
    using s by (simp_all add: type_spec_def reports_more_def Parser_expect_def Parser_report_error_def)
  have "\<exists>a ty ks. r = Some ty \<and> type_tokens (shape ty) ks \<and>
           read_to p ((TT_IDENTIFIER, lexeme (current_token p)) # (TT_COLON, a) # ks) q"
    if quiet: "p_errors q = p_errors p"
  proof -
    have q2: "p_errors ?p2 = p_errors p" using quiet_between [OF m quiet] .
    then have p2: "ttype (current_token ?p1) = TT_COLON" "?p2 = Parser_advance ?p1"
      using expect_quiet [of ?p1 TT_COLON m] by simp_all
    from s quiet q2 obtain ty ks where
      t: "r = Some ty" "type_tokens (shape ty) ks" "read_to ?p2 ks q"
      by (auto simp: type_spec_def)
    have "read_to p ((TT_IDENTIFIER, lexeme (current_token p)) #
                     (TT_COLON, lexeme (current_token ?p1)) # ks) q"
      using id p2 t(3)
      by (intro read_to_Cons) (simp_all add: kind_of_def Parser_check_def)
    then show ?thesis using t by blast
  qed
  then show ?thesis using reports_more_trans [OF m] by blast
qed

lemma parse_field_complete:
  assumes ih: "\<And>p res. parse_type_expr n p = Some res \<Longrightarrow> type_spec p res"
    and f: "parse_field (Suc n) p = Some res"
  shows "field_spec p res"
proof (cases "Parser_check p TT_IDENTIFIER")
  case False
  then show ?thesis using f by (auto simp: field_spec_def)
next
  case True
  let ?m = "''Expected '' @ quoted '':'' @ '' after field name''"
  obtain r q where
    ty: "parse_type_expr n (Parser_expect (Parser_advance p) TT_COLON ?m) = Some (r, q)"
    using f True by (auto simp: Let_def split: option.splits)
  note c = named_type_complete [OF ih True ty]
  have res: "snd res = q"
    "\<And>ty. r = Some ty \<Longrightarrow>
       fst res = Some (FieldNode (lexeme (current_token p)) (line (current_token p))
                         (column (current_token p)) ty)"
    using f True ty by (auto simp: Let_def split: option.splits)
  show ?thesis
    unfolding field_spec_def res(1)
  proof (intro conjI impI)
    show "reports_more p q" using c by simp
  next
    assume "p_errors q = p_errors p"
    then obtain a ty ks where
      t: "r = Some ty" "type_tokens (shape ty) ks"
      "read_to p ((TT_IDENTIFIER, lexeme (current_token p)) # (TT_COLON, a) # ks) q"
      using c by blast
    show "\<exists>f name a ty ks. fst res = Some f \<and> shape_field f = FieldNode name 0 0 ty \<and>
            type_tokens ty ks \<and> read_to p ((TT_IDENTIFIER, name) # (TT_COLON, a) # ks) q"
      using res(2) [OF t(1)] t(2,3)
      by (intro exI [of _ "FieldNode (lexeme (current_token p)) (line (current_token p))
                         (column (current_token p)) ty"]
                exI [of _ "lexeme (current_token p)"] exI [of _ a] exI [of _ "shape ty"]
                exI [of _ ks]) simp
  qed
qed

lemma parse_alternative_complete:
  assumes ih: "\<And>p res. parse_type_expr n p = Some res \<Longrightarrow> type_spec p res"
    and f: "parse_alternative (Suc n) p = Some res"
  shows "alternative_spec p res"
proof (cases "Parser_check p TT_IDENTIFIER")
  case False
  then show ?thesis using f by (auto simp: alternative_spec_def)
next
  case True
  note id = this
  let ?name = "lexeme (current_token p)"
  let ?p1 = "Parser_advance p"
  have k: "kind_of (current_token p) = (TT_IDENTIFIER, ?name)"
    using id by (simp add: kind_of_def Parser_check_def)
  show ?thesis
  proof (cases "Parser_check ?p1 TT_COLON")
    case False
    then have "res = (Some (AlternativeNode ?name (line (current_token p))
                             (column (current_token p)) None), ?p1)"
      using f id by (simp add: Let_def)
    then show ?thesis
      using False read_to_one [of p] k
      by (auto simp: alternative_spec_def Parser_check_def)
  next
    case True
    then have e: "Parser_expect ?p1 TT_COLON m = Parser_advance ?p1" for m
      by (simp add: Parser_expect_def)
    obtain r q where
      ty: "parse_type_expr n (Parser_advance ?p1) = Some (r, q)"
      and res: "res = (Some (AlternativeNode ?name (line (current_token p))
                               (column (current_token p)) r), q)"
      using f id True by (auto simp: Let_def split: option.splits)
    have "parse_type_expr n (Parser_expect ?p1 TT_COLON []) = Some (r, q)"
      using ty e by simp
    note c = named_type_complete [OF ih id this]
    show ?thesis
      unfolding alternative_spec_def res
    proof (intro conjI impI)
      show "reports_more p (snd (Some (AlternativeNode ?name (line (current_token p))
                               (column (current_token p)) r), q))"
        using c by simp
    next
      assume "p_errors (snd (Some (AlternativeNode ?name (line (current_token p))
                               (column (current_token p)) r), q)) = p_errors p"
      then obtain a ty ks where
        t: "r = Some ty" "type_tokens (shape ty) ks"
        "read_to p ((TT_IDENTIFIER, ?name) # (TT_COLON, a) # ks) q"
        using c by auto
      then show "\<exists>alt name.
         fst (Some (AlternativeNode ?name (line (current_token p)) (column (current_token p)) r), q) =
           Some alt \<and>
         (shape_alternative alt = AlternativeNode name 0 0 None \<and>
          read_to p [(TT_IDENTIFIER, name)]
            (snd (Some (AlternativeNode ?name (line (current_token p))
                          (column (current_token p)) r), q)) \<and>
          ttype (current_token
            (snd (Some (AlternativeNode ?name (line (current_token p))
                          (column (current_token p)) r), q))) \<noteq> TT_COLON \<or>
          (\<exists>a ty ks. shape_alternative alt = AlternativeNode name 0 0 (Some ty) \<and>
             type_tokens ty ks \<and>
             read_to p ((TT_IDENTIFIER, name) # (TT_COLON, a) # ks)
               (snd (Some (AlternativeNode ?name (line (current_token p))
                             (column (current_token p)) r), q))))"
        by auto
    qed
  qed
qed

text \<open>
  The loops of \<^verbatim>\<open>parse_struct_type\<close> and \<^verbatim>\<open>parse_variant_type\<close> are one loop \<open>L\<close> over two item
  parsers \<open>I\<close>. \<open>IT x ks\<close>: the tokens \<open>ks\<close> are the item \<open>x\<close>; \<open>B xs ks\<close>: the tokens \<open>ks\<close> are
  a body of the items \<open>xs\<close>, given without their positions by \<open>sh\<close>.
\<close>

definition item_spec ::
  "('a \<Rightarrow> (TokenType \<times> string) list \<Rightarrow> bool) \<Rightarrow> Parser \<Rightarrow> 'a option \<times> Parser \<Rightarrow> bool" where
  "item_spec IT p res \<longleftrightarrow>
     reports_more p (snd res) \<and>
     (p_errors (snd res) = p_errors p \<longrightarrow>
        (\<exists>x ks. fst res = Some x \<and> IT x ks \<and> ks \<noteq> [] \<and> read_to p ks (snd res)))"

definition body_spec ::
  "('a \<Rightarrow> 'b) \<Rightarrow> ('b list \<Rightarrow> (TokenType \<times> string) list \<Rightarrow> bool) \<Rightarrow>
   Parser \<Rightarrow> 'a list \<Rightarrow> 'a list \<times> Parser \<Rightarrow> bool" where
  "body_spec sh B p acc res \<longleftrightarrow>
     reports_more p (snd res) \<and>
     (p_errors (snd res) = p_errors p \<longrightarrow>
        (\<exists>xs ks. fst res = acc @ xs \<and> read_to p ks (snd res) \<and>
           (ttype (current_token (snd res)) = TT_RBRACE \<longrightarrow>
              xs = [] \<and> ks = [] \<or> B (map sh xs) ks)))"

lemma body_loop_complete:
  fixes L :: "nat \<Rightarrow> Parser \<Rightarrow> 'a list \<Rightarrow> ('a list \<times> Parser) option"
    and I :: "nat \<Rightarrow> Parser \<Rightarrow> ('a option \<times> Parser) option"
  assumes L0: "\<And>p acc. L 0 p acc = None"
    and LS: "\<And>m p acc. L (Suc m) p acc =
       (if \<not> Parser_check p TT_RBRACE \<and> \<not> Parser_check p TT_END_OF_FILE then
          (case I m p of
             None \<Rightarrow> None
           | Some (item, p1) \<Rightarrow>
               (let acc1 = (case item of Some x \<Rightarrow> acc @ [x] | None \<Rightarrow> acc);
                    p2 = skip_newlines p1
                in if Parser_check p2 TT_COMMA
                   then L m (skip_newlines (Parser_advance p2)) acc1
                   else if \<not> Parser_check p2 TT_RBRACE then Some (acc1, p2)
                   else L m p2 acc1))
        else Some (acc, p))"
    and item: "\<And>p res. I n p = Some res \<Longrightarrow> item_spec IT p res"
    and ih: "\<And>p acc res. L n p acc = Some res \<Longrightarrow> body_spec sh B p acc res"
    and last_item: "\<And>x ks. IT x ks \<Longrightarrow> B [sh x] ks"
    and last_item_comma: "\<And>x ks c. IT x ks \<Longrightarrow> B [sh x] (ks @ [(TT_COMMA, c)])"
    and more_items: "\<And>x ks ys ks' c. IT x ks \<Longrightarrow> B ys ks' \<Longrightarrow> B (sh x # ys) (ks @ (TT_COMMA, c) # ks')"
    and run: "L (Suc n) p acc = Some res"
  shows "body_spec sh B p acc res"
proof (cases "\<not> Parser_check p TT_RBRACE \<and> \<not> Parser_check p TT_END_OF_FILE")
  case False
  then have "res = (acc, p)" using run by (auto simp: LS)
  then show ?thesis by (auto simp: body_spec_def intro!: exI [of _ "[]"])
next
  case True
  then obtain it p1 where i: "I n p = Some (it, p1)"
    using run by (auto simp: LS split: option.splits)
  let ?acc1 = "case it of Some x \<Rightarrow> acc @ [x] | None \<Rightarrow> acc"
  let ?p2 = "skip_newlines p1"
  note s = item [OF i, unfolded item_spec_def, simplified]
  have m1: "reports_more p p1" using s by simp
  have info: "\<exists>x ks. it = Some x \<and> IT x ks \<and> ks \<noteq> [] \<and> read_to p ks p1 \<and> ?p2 = p1"
    if "p_errors p1 = p_errors p"
    using s that read_to_significant by blast
  show ?thesis
  proof (cases "Parser_check ?p2 TT_COMMA")
    case True
    note comma = this
    have l: "L n (Parser_advance ?p2) ?acc1 = Some res"
      using run \<open>\<not> Parser_check p TT_RBRACE \<and> \<not> Parser_check p TT_END_OF_FILE\<close> i comma
      by (simp add: LS Let_def)
    note b = ih [OF l, unfolded body_spec_def]
    have m2: "reports_more p1 (snd res)"
      using b by (simp add: reports_more_def)
    show ?thesis
      unfolding body_spec_def
    proof (intro conjI impI)
      show "reports_more p (snd res)" using reports_more_trans [OF m1 m2] .
    next
      assume quiet: "p_errors (snd res) = p_errors p"
      have q1: "p_errors p1 = p_errors p" using quiet_between [OF m1 m2 quiet] .
      from info [OF q1] obtain x ks where
        x: "it = Some x" "IT x ks" "ks \<noteq> []" "read_to p ks p1" "?p2 = p1"
        by blast
      from b quiet q1 obtain xs ks' where
        xs: "fst res = ?acc1 @ xs" "read_to (Parser_advance ?p2) ks' (snd res)"
        "ttype (current_token (snd res)) = TT_RBRACE \<longrightarrow> xs = [] \<and> ks' = [] \<or> B (map sh xs) ks'"
        by auto
      let ?c = "lexeme (current_token p1)"
      have c: "kind_of (current_token p1) = (TT_COMMA, ?c)"
        using comma x(5) by (simp add: kind_of_def Parser_check_def)
      have r: "read_to p (ks @ (TT_COMMA, ?c) # ks') (snd res)"
        using read_to_trans [OF x(4) read_to_Cons [OF c]] xs(2) x(5) by simp
      have "B (map sh (x # xs)) (ks @ (TT_COMMA, ?c) # ks')"
        if "ttype (current_token (snd res)) = TT_RBRACE"
        using xs(3) that last_item_comma [OF x(2), of ?c] more_items [OF x(2), of "map sh xs" ks' ?c]
        by auto
      then show "\<exists>xs ks. fst res = acc @ xs \<and> read_to p ks (snd res) \<and>
           (ttype (current_token (snd res)) = TT_RBRACE \<longrightarrow>
              xs = [] \<and> ks = [] \<or> B (map sh xs) ks)"
        using xs(1) x(1) r
        by (intro exI [of _ "x # xs"] exI [of _ "ks @ (TT_COMMA, ?c) # ks'"]) simp
    qed
  next
    case False
    note no_comma = this
    have "res = (?acc1, ?p2)"
    proof (cases "Parser_check ?p2 TT_RBRACE")
      case False
      then show ?thesis
        using run \<open>\<not> Parser_check p TT_RBRACE \<and> \<not> Parser_check p TT_END_OF_FILE\<close> i no_comma
        by (simp add: LS Let_def)
    next
      case True
      then have "L n ?p2 ?acc1 = Some res"
        using run \<open>\<not> Parser_check p TT_RBRACE \<and> \<not> Parser_check p TT_END_OF_FILE\<close> i no_comma
        by (simp add: LS Let_def)
      then show ?thesis using True by (cases n) (simp_all add: L0 LS)
    qed
    then have res: "fst res = ?acc1" "snd res = ?p2" by simp_all
    show ?thesis
      unfolding body_spec_def res
    proof (intro conjI impI)
      show "reports_more p ?p2" using m1 by (simp add: reports_more_def)
    next
      assume "p_errors ?p2 = p_errors p"
      then have "p_errors p1 = p_errors p" by simp
      from info [OF this] obtain x ks where
        x: "it = Some x" "IT x ks" "ks \<noteq> []" "read_to p ks p1" "?p2 = p1"
        by blast
      show "\<exists>xs ks. ?acc1 = acc @ xs \<and> read_to p ks ?p2 \<and>
           (ttype (current_token ?p2) = TT_RBRACE \<longrightarrow> xs = [] \<and> ks = [] \<or> B (map sh xs) ks)"
        using x last_item [OF x(2)]
        by (intro exI [of _ "[x]"] exI [of _ ks]) simp
    qed
  qed
qed

definition field_tokens :: "FieldNode \<Rightarrow> (TokenType \<times> string) list \<Rightarrow> bool" where
  "field_tokens f ks \<longleftrightarrow>
     (\<exists>name a ty ks'. shape_field f = FieldNode name 0 0 ty \<and>
        ks = (TT_IDENTIFIER, name) # (TT_COLON, a) # ks' \<and> type_tokens ty ks')"

definition alternative_tokens :: "AlternativeNode \<Rightarrow> (TokenType \<times> string) list \<Rightarrow> bool" where
  "alternative_tokens alt ks \<longleftrightarrow>
     (\<exists>name. shape_alternative alt = AlternativeNode name 0 0 None \<and>
             ks = [(TT_IDENTIFIER, name)] \<or>
             (\<exists>a ty ks'. shape_alternative alt = AlternativeNode name 0 0 (Some ty) \<and>
                ks = (TT_IDENTIFIER, name) # (TT_COLON, a) # ks' \<and> type_tokens ty ks'))"

lemma field_item: "field_spec p res \<Longrightarrow> item_spec field_tokens p res"
  unfolding field_spec_def item_spec_def field_tokens_def by blast

lemma alternative_item: "alternative_spec p res \<Longrightarrow> item_spec alternative_tokens p res"
  unfolding alternative_spec_def item_spec_def alternative_tokens_def by blast

lemma struct_loop_complete:
  assumes "\<And>p res. parse_field n p = Some res \<Longrightarrow> field_spec p res"
    and "\<And>p acc res. struct_loop n p acc = Some res \<Longrightarrow> body_spec shape_field fields_tokens p acc res"
    and "struct_loop (Suc n) p acc = Some res"
  shows "body_spec shape_field fields_tokens p acc res"
proof (rule body_loop_complete [where L = struct_loop and I = parse_field and IT = field_tokens
      and n = n])
  show "struct_loop 0 p acc = None" for p acc by simp
  show "parse_field n p = Some res \<Longrightarrow> item_spec field_tokens p res" for p res
    using assms(1) field_item by blast
  show "struct_loop n p acc = Some res \<Longrightarrow> body_spec shape_field fields_tokens p acc res"
    for p acc res
    using assms(2) .
  show "field_tokens x ks \<Longrightarrow> fields_tokens [shape_field x] ks" for x ks
    by (auto simp: field_tokens_def intro: last_field)
  show "field_tokens x ks \<Longrightarrow> fields_tokens [shape_field x] (ks @ [(TT_COMMA, c)])" for x ks c
    using last_field_comma by (fastforce simp: field_tokens_def)
  show "field_tokens x ks \<Longrightarrow> fields_tokens ys ks' \<Longrightarrow>
        fields_tokens (shape_field x # ys) (ks @ (TT_COMMA, c) # ks')" for x ks ys ks' c
    using more_fields by (fastforce simp: field_tokens_def)
  show "struct_loop (Suc n) p acc = Some res" using assms(3) .
qed simp

lemma variant_loop_complete:
  assumes "\<And>p res. parse_alternative n p = Some res \<Longrightarrow> alternative_spec p res"
    and "\<And>p acc res. variant_loop n p acc = Some res \<Longrightarrow>
           body_spec shape_alternative alternatives_tokens p acc res"
    and "variant_loop (Suc n) p acc = Some res"
  shows "body_spec shape_alternative alternatives_tokens p acc res"
proof (rule body_loop_complete [where L = variant_loop and I = parse_alternative
      and IT = alternative_tokens and n = n])
  show "variant_loop 0 p acc = None" for p acc by simp
  show "parse_alternative n p = Some res \<Longrightarrow> item_spec alternative_tokens p res" for p res
    using assms(1) alternative_item by blast
  show "variant_loop n p acc = Some res \<Longrightarrow>
        body_spec shape_alternative alternatives_tokens p acc res" for p acc res
    using assms(2) .
  show "alternative_tokens x ks \<Longrightarrow> alternatives_tokens [shape_alternative x] ks" for x ks
    by (auto simp: alternative_tokens_def intro: last_unit last_alternative)
  show "alternative_tokens x ks \<Longrightarrow>
        alternatives_tokens [shape_alternative x] (ks @ [(TT_COMMA, c)])" for x ks c
    using last_unit_comma last_alternative_comma by (fastforce simp: alternative_tokens_def)
  show "alternative_tokens x ks \<Longrightarrow> alternatives_tokens ys ks' \<Longrightarrow>
        alternatives_tokens (shape_alternative x # ys) (ks @ (TT_COMMA, c) # ks')"
    for x ks ys ks' c
    using more_after_unit more_alternatives by (fastforce simp: alternative_tokens_def)
  show "variant_loop (Suc n) p acc = Some res" using assms(3) .
qed simp

lemma parse_struct_type_complete:
  assumes ih: "\<And>p acc res. struct_loop n p acc = Some res \<Longrightarrow>
                 body_spec shape_field fields_tokens p acc res"
    and run: "parse_struct_type (Suc n) p = Some res"
  shows "type_spec p res"
proof -
  let ?p3 = "skip_newlines (Parser_expect (Parser_expect p TT_STRUCT
               (''Expected '' @ quoted ''struct'')) TT_LBRACE
               (''Expected '' @ quoted ''{'' @ '' after '' @ quoted ''struct''))"
  obtain flds p4 where
    l: "struct_loop n ?p3 [] = Some (flds, p4)"
    and r: "res = (Some (StructTypeNode (line (current_token p)) (column (current_token p)) flds),
                   Parser_expect p4 TT_RBRACE
                     (''Expected '' @ quoted ''}'' @ '' after struct fields''))"
    using run by (auto simp: Let_def split: option.splits)
  note c = ih [OF l, unfolded body_spec_def, simplified]
  show ?thesis
    unfolding r
  proof (rule braces_complete)
    show "reports_more ?p3 p4" using c by simp
  next
    assume q: "p_errors p4 = p_errors ?p3"
      and b: "ttype (current_token p4) = TT_RBRACE"
    from c q b obtain ks where
      ks: "read_to ?p3 ks p4" "flds = [] \<and> ks = [] \<or> fields_tokens (map shape_field flds) ks"
      by auto
    have "type_tokens (StructTypeNode 0 0 (map shape_field flds))
            ((TT_STRUCT, a) # (TT_LBRACE, b) # ks @ [(TT_RBRACE, c)])"
      for a b c
      using ks(2) by (auto intro: empty_struct struct)
    then show "\<exists>ks. read_to ?p3 ks p4 \<and>
            (\<forall>a b c. type_tokens
               (shape (StructTypeNode (line (current_token p)) (column (current_token p)) flds))
               ((TT_STRUCT, a) # (TT_LBRACE, b) # ks @ [(TT_RBRACE, c)]))"
      using ks(1) by auto
  qed
qed

lemma parse_variant_type_complete:
  assumes ih: "\<And>p acc res. variant_loop n p acc = Some res \<Longrightarrow>
                 body_spec shape_alternative alternatives_tokens p acc res"
    and run: "parse_variant_type (Suc n) p = Some res"
  shows "type_spec p res"
proof -
  let ?p3 = "skip_newlines (Parser_expect (Parser_expect p TT_VARIANT
               (''Expected '' @ quoted ''variant'')) TT_LBRACE
               (''Expected '' @ quoted ''{'' @ '' after '' @ quoted ''variant''))"
  obtain alts p4 where
    l: "variant_loop n ?p3 [] = Some (alts, p4)"
    and r: "res = (Some (VariantTypeNode (line (current_token p)) (column (current_token p)) alts),
                   Parser_expect p4 TT_RBRACE
                     (''Expected '' @ quoted ''}'' @ '' after variant alternatives''))"
    using run by (auto simp: Let_def split: option.splits)
  note c = ih [OF l, unfolded body_spec_def, simplified]
  show ?thesis
    unfolding r
  proof (rule braces_complete)
    show "reports_more ?p3 p4" using c by simp
  next
    assume q: "p_errors p4 = p_errors ?p3"
      and b: "ttype (current_token p4) = TT_RBRACE"
    from c q b obtain ks where
      ks: "read_to ?p3 ks p4"
      "alts = [] \<and> ks = [] \<or> alternatives_tokens (map shape_alternative alts) ks"
      by auto
    have "type_tokens (VariantTypeNode 0 0 (map shape_alternative alts))
            ((TT_VARIANT, a) # (TT_LBRACE, b) # ks @ [(TT_RBRACE, c)])"
      for a b c
      using ks(2) by (auto intro: empty_variant variant)
    then show "\<exists>ks. read_to ?p3 ks p4 \<and>
            (\<forall>a b c. type_tokens
               (shape (VariantTypeNode (line (current_token p)) (column (current_token p)) alts))
               ((TT_VARIANT, a) # (TT_LBRACE, b) # ks @ [(TT_RBRACE, c)]))"
      using ks(1) by auto
  qed
qed

text \<open>A type, then the token \<open>t\<close>: the parameters of a container.\<close>

lemma parameter_complete:
  assumes ih: "\<And>p res. parse_type_expr n p = Some res \<Longrightarrow> type_spec p res"
    and ty: "parse_type_expr n p = Some (r, p1)"
    and after: "reports_more (Parser_expect p1 t m) q"
    and quiet: "p_errors q = p_errors p"
  shows "\<exists>ty ks a. r = Some ty \<and> type_tokens (shape ty) ks \<and>
           read_to p (ks @ [(t, a)]) (Parser_expect p1 t m) \<and>
           p_errors (Parser_expect p1 t m) = p_errors p"
proof -
  let ?p2 = "Parser_expect p1 t m"
  note s = ih [OF ty, unfolded type_spec_def, simplified]
  have m: "reports_more p p1" "reports_more p1 ?p2" using s by simp_all
  have q2: "p_errors ?p2 = p_errors p"
    using quiet_between [OF reports_more_trans [OF m] after quiet] .
  have q1: "p_errors p1 = p_errors p" using quiet_between [OF m q2] .
  then have e: "ttype (current_token p1) = t" "?p2 = Parser_advance p1"
    using expect_quiet [of p1 t m] q2 by simp_all
  from s q1 obtain ty ks where t: "r = Some ty" "type_tokens (shape ty) ks" "read_to p ks p1"
    by auto
  have "read_to p (ks @ [(t, lexeme (current_token p1))]) ?p2"
    unfolding e(2) using read_to_trans [OF t(3) read_to_one [of p1]] e(1)
    by (simp add: kind_of_def)
  then show ?thesis using t q2 by blast
qed

lemma element_container_complete:
  assumes ih: "\<And>p res. parse_type_expr n p = Some res \<Longrightarrow> type_spec p res"
    and kind: "ttype (current_token p) = TT_ARRAY \<and> kind = CK_ARRAY \<or>
               ttype (current_token p) = TT_OPTIONAL \<and> kind = CK_OPTIONAL"
    and ty: "parse_type_expr n (Parser_expect (Parser_advance p) TT_LANGLE m1) = Some (et, p3)"
  shows "type_spec p (Some (ContainerTypeNode kind l c et None None), Parser_expect p3 TT_RANGLE m2)"
proof -
  let ?p1 = "Parser_advance p"
  let ?p2 = "Parser_expect ?p1 TT_LANGLE m1"
  let ?q = "Parser_expect p3 TT_RANGLE m2"
  have m2: "reports_more p ?p2"
    using reports_more_trans [OF reports_more_advance reports_more_expect] .
  note s = ih [OF ty, unfolded type_spec_def, simplified]
  have m: "reports_more ?p2 ?q"
    using s reports_more_trans [of ?p2 p3 ?q] by simp
  have "\<exists>ty' ks. Some (ContainerTypeNode kind l c et None None) = Some ty' \<and>
          type_tokens (shape ty') ks \<and> read_to p ks ?q"
    if quiet: "p_errors ?q = p_errors p"
  proof -
    have q2: "p_errors ?p2 = p_errors p" using quiet_between [OF m2 m quiet] .
    have o: "ttype (current_token ?p1) = TT_LANGLE" "?p2 = Parser_advance ?p1"
      using expect_quiet [of ?p1 TT_LANGLE m1] q2 by simp_all
    have "p_errors ?q = p_errors ?p2" using quiet q2 by simp
    from parameter_complete [OF ih ty reports_more_refl this] obtain ty ks a where
      t: "et = Some ty" "type_tokens (shape ty) ks" "read_to ?p2 (ks @ [(TT_RANGLE, a)]) ?q"
      by blast
    let ?ks = "(ttype (current_token p), lexeme (current_token p)) #
               (TT_LANGLE, lexeme (current_token ?p1)) # ks @ [(TT_RANGLE, a)]"
    have r: "read_to p ?ks ?q"
      using o t(3) by (intro read_to_Cons) (simp_all add: kind_of_def)
    have "type_tokens (ContainerTypeNode kind 0 0 (Some (shape ty)) None None) ?ks"
      using kind t(2) by (auto intro: array optional)
    then show ?thesis using r t(1) by auto
  qed
  then show ?thesis using reports_more_trans [OF m2 m] by (simp add: type_spec_def)
qed

lemma map_container_complete:
  assumes ih: "\<And>p res. parse_type_expr n p = Some res \<Longrightarrow> type_spec p res"
    and kind: "ttype (current_token p) = TT_MAP"
    and ty1: "parse_type_expr n (Parser_expect (Parser_advance p) TT_LANGLE m1) = Some (kt, p3)"
    and ty2: "parse_type_expr n (Parser_expect p3 TT_COMMA m2) = Some (vt, p4)"
  shows "type_spec p (Some (ContainerTypeNode CK_MAP l c None kt vt), Parser_expect p4 TT_RANGLE m3)"
proof -
  let ?p1 = "Parser_advance p"
  let ?p2 = "Parser_expect ?p1 TT_LANGLE m1"
  let ?p3' = "Parser_expect p3 TT_COMMA m2"
  let ?q = "Parser_expect p4 TT_RANGLE m3"
  have m2: "reports_more p ?p2"
    using reports_more_trans [OF reports_more_advance reports_more_expect] .
  note s1 = ih [OF ty1, unfolded type_spec_def, simplified]
  note s2 = ih [OF ty2, unfolded type_spec_def, simplified]
  have m3: "reports_more ?p3' ?q" using s2 reports_more_trans [of ?p3' p4 ?q] by simp
  have m: "reports_more ?p2 ?q"
    using s1 m3 reports_more_trans [of ?p2 p3 ?p3'] reports_more_trans [of ?p2 ?p3' ?q] by simp
  have "\<exists>ty' ks. Some (ContainerTypeNode CK_MAP l c None kt vt) = Some ty' \<and>
          type_tokens (shape ty') ks \<and> read_to p ks ?q"
    if quiet: "p_errors ?q = p_errors p"
  proof -
    have q2: "p_errors ?p2 = p_errors p" using quiet_between [OF m2 m quiet] .
    have o: "ttype (current_token ?p1) = TT_LANGLE" "?p2 = Parser_advance ?p1"
      using expect_quiet [of ?p1 TT_LANGLE m1] q2 by simp_all
    have "p_errors ?q = p_errors ?p2" using quiet q2 by simp
    from parameter_complete [OF ih ty1 m3 this] obtain ty1 ks1 a where
      t1: "kt = Some ty1" "type_tokens (shape ty1) ks1"
      "read_to ?p2 (ks1 @ [(TT_COMMA, a)]) ?p3'" "p_errors ?p3' = p_errors ?p2"
      by blast
    have "p_errors ?q = p_errors ?p3'" using quiet q2 t1(4) by simp
    from parameter_complete [OF ih ty2 reports_more_refl this] obtain ty2 ks2 b where
      t2: "vt = Some ty2" "type_tokens (shape ty2) ks2"
      "read_to ?p3' (ks2 @ [(TT_RANGLE, b)]) ?q"
      by blast
    let ?ks = "(TT_MAP, lexeme (current_token p)) # (TT_LANGLE, lexeme (current_token ?p1)) #
               ks1 @ (TT_COMMA, a) # ks2 @ [(TT_RANGLE, b)]"
    have "read_to ?p2 ((ks1 @ [(TT_COMMA, a)]) @ ks2 @ [(TT_RANGLE, b)]) ?q"
      using read_to_trans [OF t1(3) t2(3)] .
    then have r: "read_to p ?ks ?q"
      using o kind by (intro read_to_Cons) (simp_all add: kind_of_def)
    have "type_tokens (ContainerTypeNode CK_MAP 0 0 None (Some (shape ty1)) (Some (shape ty2))) ?ks"
      using t1(2) t2(2) by (intro map_of)
    then show ?thesis using r t1(1) t2(1) by auto
  qed
  then show ?thesis using reports_more_trans [OF m2 m] by (simp add: type_spec_def)
qed

lemma parse_container_type_complete:
  assumes ih: "\<And>p res. parse_type_expr n p = Some res \<Longrightarrow> type_spec p res"
    and run: "parse_container_type (Suc n) p = Some res"
  shows "type_spec p res"
proof (cases "Parser_check p TT_ARRAY \<or> Parser_check p TT_MAP \<or> Parser_check p TT_OPTIONAL")
  case False
  then show ?thesis using run by (auto simp: type_spec_def Let_def)
next
  case True
  note container = this
  show ?thesis
  proof (cases "Parser_check p TT_MAP")
    case False
    then show ?thesis
      using run container
      by (auto simp: Let_def Parser_check_def split: option.splits
            intro!: element_container_complete [OF ih])
  next
    case True
    then show ?thesis
      using run
      by (auto simp: Let_def Parser_check_def split: option.splits
            intro!: map_container_complete [OF ih])
  qed
qed

lemma reference_complete:
  "type_spec p
     (Some (RefTypeNode l c),
      Parser_expect (Parser_expect (Parser_expect (Parser_expect p TT_REF m1) TT_LANGLE m2)
                       TT_ENTITY m3) TT_RANGLE m4)"
proof -
  let ?p1 = "Parser_expect p TT_REF m1"
  let ?p2 = "Parser_expect ?p1 TT_LANGLE m2"
  let ?p3 = "Parser_expect ?p2 TT_ENTITY m3"
  let ?p4 = "Parser_expect ?p3 TT_RANGLE m4"
  have m: "reports_more p ?p1" "reports_more ?p1 ?p2" "reports_more ?p2 ?p3" "reports_more ?p3 ?p4"
    by simp_all
  have m12: "reports_more p ?p2" using reports_more_trans [OF m(1) m(2)] .
  have m13: "reports_more p ?p3" using reports_more_trans [OF m12 m(3)] .
  have m14: "reports_more p ?p4" using reports_more_trans [OF m13 m(4)] .
  have "\<exists>ks. type_tokens (RefTypeNode 0 0) ks \<and> read_to p ks ?p4"
    if quiet: "p_errors ?p4 = p_errors p"
  proof -
    have q3: "p_errors ?p3 = p_errors p" using quiet_between [OF m13 m(4) quiet] .
    have q2: "p_errors ?p2 = p_errors p" using quiet_between [OF m12 m(3) q3] .
    have q1: "p_errors ?p1 = p_errors p" using quiet_between [OF m(1) m(2) q2] .
    have e1: "ttype (current_token p) = TT_REF" "?p1 = Parser_advance p"
      using expect_quiet [OF q1] by simp_all
    have e2: "ttype (current_token ?p1) = TT_LANGLE" "?p2 = Parser_advance ?p1"
      using expect_quiet [of ?p1 TT_LANGLE m2] q2 q1 by simp_all
    have e3: "ttype (current_token ?p2) = TT_ENTITY" "?p3 = Parser_advance ?p2"
      using expect_quiet [of ?p2 TT_ENTITY m3] q3 q2 by simp_all
    have e4: "ttype (current_token ?p3) = TT_RANGLE" "?p4 = Parser_advance ?p3"
      using expect_quiet [of ?p3 TT_RANGLE m4] quiet q3 by simp_all
    let ?a1 = "Parser_advance p"
    let ?a2 = "Parser_advance ?a1"
    let ?a3 = "Parser_advance ?a2"
    have s1: "?p1 = ?a1" using e1 by simp
    have s2: "?p2 = ?a2" using e2 s1 by simp
    have s3: "?p3 = ?a3" using e3 s2 by simp
    have s4: "?p4 = Parser_advance ?a3" using e4 s3 by simp
    have t: "ttype (current_token ?a1) = TT_LANGLE" "ttype (current_token ?a2) = TT_ENTITY"
      "ttype (current_token ?a3) = TT_RANGLE"
      using e2(1) e3(1) e4(1) s1 s2 s3 by simp_all
    have "read_to p [(TT_REF, lexeme (current_token p)), (TT_LANGLE, lexeme (current_token ?a1)),
                (TT_ENTITY, lexeme (current_token ?a2)), (TT_RANGLE, lexeme (current_token ?a3))]
            ?p4"
      unfolding s4 using e1(1) t by (simp add: read_to_def kind_of_def)
    then show ?thesis using reference by blast
  qed
  then show ?thesis using m14 by (simp add: type_spec_def)
qed

lemma parse_ref_type_complete: "type_spec p (parse_ref_type p)"
  by (simp add: parse_ref_type_def Let_def reference_complete)

lemma parse_type_expr_complete:
  assumes st: "\<And>p res. parse_struct_type n p = Some res \<Longrightarrow> type_spec p res"
    and vt: "\<And>p res. parse_variant_type n p = Some res \<Longrightarrow> type_spec p res"
    and ct: "\<And>p res. parse_container_type n p = Some res \<Longrightarrow> type_spec p res"
    and run: "parse_type_expr (Suc n) p = Some res"
  shows "type_spec p res"
proof -
  let ?t = "ttype (current_token p)"
  have one: "read_to p [(?t, lexeme (current_token p))] (Parser_advance p)"
    using read_to_one [of p] by (simp add: kind_of_def)
  consider
    (struct) "?t = TT_STRUCT" | (variant) "?t = TT_VARIANT" | (enum) "?t = TT_ENUM"
    | (container) "?t = TT_ARRAY \<or> ?t = TT_MAP \<or> ?t = TT_OPTIONAL"
    | (ref) "?t = TT_REF" | (primitive) "primitive_token ?t" | (name) "?t = TT_IDENTIFIER"
    | (other) "?t \<noteq> TT_STRUCT" "?t \<noteq> TT_VARIANT" "?t \<noteq> TT_ENUM" "?t \<noteq> TT_ARRAY"
        "?t \<noteq> TT_MAP" "?t \<noteq> TT_OPTIONAL" "?t \<noteq> TT_REF" "\<not> primitive_token ?t"
        "?t \<noteq> TT_IDENTIFIER"
    by blast
  then show ?thesis
  proof cases
    case struct
    then show ?thesis using run st by (simp add: Parser_check_def)
  next
    case variant
    then show ?thesis using run vt by (simp add: Parser_check_def)
  next
    case enum
    then show ?thesis using run parse_enum_type_complete by (simp add: Parser_check_def)
  next
    case container
    then have "parse_container_type n p = Some res"
      using run by (auto simp: Parser_check_def)
    then show ?thesis by (rule ct)
  next
    case ref
    then show ?thesis using run parse_ref_type_complete [of p] by (simp add: Parser_check_def)
  next
    case primitive
    then have "res = (Some (PrimitiveTypeNode (token_to_primitive_type ?t)
                              (line (current_token p)) (column (current_token p))),
                      Parser_advance p)"
      using run
      by (auto simp: Parser_check_def is_primitive_type_token parse_primitive_type_def
            primitive_token_def)
    then show ?thesis
      using one type_tokens_fields_tokens_alternatives_tokens.primitive [OF primitive]
      by (auto simp: type_spec_def)
  next
    case name
    then have "res = (Some (IdentifierTypeNode (lexeme (current_token p))
                              (line (current_token p)) (column (current_token p))),
                      Parser_advance p)"
      using run by (auto simp: Parser_check_def is_primitive_type_token primitive_token_def)
    then show ?thesis
      using one name type_name [of "lexeme (current_token p)"] by (auto simp: type_spec_def)
  next
    case other
    then have "res = (None, Parser_report_error p ''Expected type expression'')"
      using run by (simp add: Parser_check_def is_primitive_type_token)
    then show ?thesis by (simp add: type_spec_def)
  qed
qed

text \<open>
  The parsing functions under every bound: what they return without a diagnostic is the tree
  of the tokens that they have read, and these are tokens of the language.
\<close>

lemma parser_complete:
  "(\<forall>p res. parse_type_expr n p = Some res \<longrightarrow> type_spec p res) \<and>
   (\<forall>p res. parse_struct_type n p = Some res \<longrightarrow> type_spec p res) \<and>
   (\<forall>p acc res. struct_loop n p acc = Some res \<longrightarrow>
      body_spec shape_field fields_tokens p acc res) \<and>
   (\<forall>p res. parse_variant_type n p = Some res \<longrightarrow> type_spec p res) \<and>
   (\<forall>p acc res. variant_loop n p acc = Some res \<longrightarrow>
      body_spec shape_alternative alternatives_tokens p acc res) \<and>
   (\<forall>p res. parse_field n p = Some res \<longrightarrow> field_spec p res) \<and>
   (\<forall>p res. parse_alternative n p = Some res \<longrightarrow> alternative_spec p res) \<and>
   (\<forall>p res. parse_container_type n p = Some res \<longrightarrow> type_spec p res)"
proof (induction n)
  case 0
  show ?case by simp
next
  case (Suc n)
  then have
    te: "\<And>p res. parse_type_expr n p = Some res \<Longrightarrow> type_spec p res" and
    st: "\<And>p res. parse_struct_type n p = Some res \<Longrightarrow> type_spec p res" and
    sl: "\<And>p acc res. struct_loop n p acc = Some res \<Longrightarrow>
           body_spec shape_field fields_tokens p acc res" and
    vt: "\<And>p res. parse_variant_type n p = Some res \<Longrightarrow> type_spec p res" and
    vl: "\<And>p acc res. variant_loop n p acc = Some res \<Longrightarrow>
           body_spec shape_alternative alternatives_tokens p acc res" and
    fd: "\<And>p res. parse_field n p = Some res \<Longrightarrow> field_spec p res" and
    al: "\<And>p res. parse_alternative n p = Some res \<Longrightarrow> alternative_spec p res" and
    ct: "\<And>p res. parse_container_type n p = Some res \<Longrightarrow> type_spec p res"
    by blast+
  show ?case
    using parse_type_expr_complete [OF st vt ct]
      parse_struct_type_complete [OF sl]
      struct_loop_complete [OF fd sl]
      parse_variant_type_complete [OF vl]
      variant_loop_complete [OF al vl]
      parse_field_complete [OF te]
      parse_alternative_complete [OF te]
      parse_container_type_complete [OF te]
    by (intro conjI allI impI) blast+
qed

lemma synchronize_errors [simp]: "p_errors (synchronize p) = p_errors p"
proof -
  have "ttype (current_token (Parser_advance p)) \<noteq> TT_NEWLINE"
    using Parser_advance_significant by blast
  from synchronize_loop_stops [OF this] obtain k where
    "fst (synchronize_loop (Parser_advance p)) = (Parser_advance ^^ k) (Parser_advance p)"
    by blast
  then show ?thesis by (simp add: synchronize_def)
qed

lemma parse_type_definition_complete:
  assumes "parse_type_definition n p = Some (r, q)"
  shows "reports_more p q \<and>
         (p_errors q = p_errors p \<longrightarrow>
            (\<exists>d name a ty ks. r = Some d \<and> shape_definition d = TypeDefinitionNode name 0 0 ty \<and>
               type_tokens ty ks \<and> ks \<noteq> [] \<and>
               read_to p ((TT_IDENTIFIER, name) # (TT_COLON, a) # ks) q))"
proof (cases "Parser_check p TT_IDENTIFIER")
  case False
  then show ?thesis using assms by (auto simp: parse_type_definition_def)
next
  case True
  let ?m = "''Expected '' @ quoted '':'' @ '' after type name''"
  obtain r' where
    ty: "parse_type_expr n (Parser_expect (Parser_advance p) TT_COLON ?m) = Some (r', q)"
    and r: "r = map_option (TypeDefinitionNode (lexeme (current_token p)) (line (current_token p))
                             (column (current_token p))) r'"
    using assms True by (auto simp: parse_type_definition_def Let_def split: option.splits)
  have ih: "\<And>p res. parse_type_expr n p = Some res \<Longrightarrow> type_spec p res"
    using parser_complete [of n] by blast
  note c = named_type_complete [OF ih True ty]
  show ?thesis
  proof (intro conjI impI)
    show "reports_more p q" using c by simp
  next
    assume "p_errors q = p_errors p"
    then obtain a ty ks where
      t: "r' = Some ty" "type_tokens (shape ty) ks"
      "read_to p ((TT_IDENTIFIER, lexeme (current_token p)) # (TT_COLON, a) # ks) q"
      using c by blast
    have "ks \<noteq> []" using type_tokens_first(1) [OF t(2)] by auto
    then show "\<exists>d name a ty ks. r = Some d \<and> shape_definition d = TypeDefinitionNode name 0 0 ty \<and>
               type_tokens ty ks \<and> ks \<noteq> [] \<and>
               read_to p ((TT_IDENTIFIER, name) # (TT_COLON, a) # ks) q"
      using t r by auto
  qed
qed

lemma schema_loop_complete:
  "schema_loop n p acc = Some (res, q) \<Longrightarrow>
   reports_more p q \<and>
   (p_errors q = p_errors p \<longrightarrow>
      (\<exists>defs ks. res = acc @ defs \<and> schema_tokens (map shape_definition defs) ks \<and> reads p ks))"
proof (induction n arbitrary: p acc)
  case 0
  then show ?case by simp
next
  case (Suc n)
  show ?case
  proof (cases "Parser_check p TT_END_OF_FILE")
    case True
    then have "res = acc" "q = p" using Suc.prems by simp_all
    moreover have "schema_tokens [] [(TT_END_OF_FILE, lexeme (current_token p))]"
      by (rule end_of_file)
    moreover have "reads p [(TT_END_OF_FILE, lexeme (current_token p))]"
      using True by (simp add: kind_of_def Parser_check_def)
    ultimately show ?thesis
      by (intro conjI impI exI [of _ "[]"]
            exI [of _ "[(TT_END_OF_FILE, lexeme (current_token p))]"]) simp_all
  next
    case False
    then obtain r p1 where d: "parse_type_definition n p = Some (r, p1)"
      using Suc.prems by (auto split: option.splits)
    note c = parse_type_definition_complete [OF d]
    have m1: "reports_more p p1" using c by simp
    show ?thesis
    proof (cases r)
      case None
      then have l: "schema_loop n (skip_newlines (synchronize p1)) acc = Some (res, q)"
        using Suc.prems False d by simp
      have loud: "p_errors p1 \<noteq> p_errors p" using c None by auto
      have "reports_more p1 q"
        using Suc.IH [OF l] by (simp add: reports_more_def)
      then have "reports_more p q" "p_errors q \<noteq> p_errors p"
        using reports_more_trans [OF m1] quiet_between [OF m1 _] loud by blast+
      then show ?thesis by simp
    next
      case (Some d')
      then have l: "schema_loop n (skip_newlines p1) (acc @ [d']) = Some (res, q)"
        using Suc.prems False d by simp
      note ih = Suc.IH [OF l]
      have m2: "reports_more p1 q" using ih by (simp add: reports_more_def)
      show ?thesis
      proof (intro conjI impI)
        show "reports_more p q" using reports_more_trans [OF m1 m2] .
      next
        assume quiet: "p_errors q = p_errors p"
        have q1: "p_errors p1 = p_errors p" using quiet_between [OF m1 m2 quiet] .
        from c q1 Some obtain name a ty ks where
          t: "shape_definition d' = TypeDefinitionNode name 0 0 ty" "type_tokens ty ks"
          "read_to p ((TT_IDENTIFIER, name) # (TT_COLON, a) # ks) p1"
          by auto
        have s: "skip_newlines p1 = p1" using read_to_significant [OF t(3)] by simp
        from ih quiet q1 s obtain defs ks' where
          ds: "res = (acc @ [d']) @ defs" "schema_tokens (map shape_definition defs) ks'"
          "reads p1 ks'"
          by auto
        have "reads p (((TT_IDENTIFIER, name) # (TT_COLON, a) # ks) @ ks')"
          using read_to_reads [OF t(3) ds(3)] .
        moreover have "schema_tokens (map shape_definition (d' # defs))
                         ((TT_IDENTIFIER, name) # (TT_COLON, a) # ks @ ks')"
          using type_definition [OF t(2) ds(2), of name a] t(1) by simp
        ultimately show "\<exists>defs ks. res = acc @ defs \<and>
            schema_tokens (map shape_definition defs) ks \<and> reads p ks"
          using ds(1) by (intro exI [of _ "d' # defs"] exI) auto
      qed
    qed
  qed
qed

text \<open>
  \<^verbatim>\<open>Parser::parse()\<close> of a new parser without a diagnostic: the tokens of the source are a
  schema of the language, the one returned.
\<close>

lemma parse_complete:
  assumes "Parser_parse n (Parser_ctor lx) = Some (sch, q)" and "p_errors q = []"
  shows "\<exists>defs ks. shape_schema sch = SchemaNode 0 0 defs \<and> schema_tokens defs ks \<and>
           reads (Parser_ctor lx) ks"
proof -
  let ?p = "Parser_ctor lx"
  have s: "skip_newlines ?p = ?p" by (simp add: Parser_ctor_def)
  have e: "p_errors ?p = []" by (simp add: Parser_ctor_def)
  obtain res where
    l: "schema_loop n ?p [] = Some (res, q)"
    and sch: "sch = SchemaNode (line (current_token ?p)) (column (current_token ?p)) res"
    using assms(1) s by (auto simp: Parser_parse_def parse_schema_def split: option.splits)
  from schema_loop_complete [OF l] assms(2) e obtain defs ks where
    "res = defs" "schema_tokens (map shape_definition defs) ks" "reads ?p ks"
    by auto
  then show ?thesis using sch by auto
qed

text \<open>The tokens of a source as the parser gets them: up to and with the first \<^verbatim>\<open>END_OF_FILE\<close>.\<close>

function all_tokens :: "Parser \<Rightarrow> (TokenType \<times> string) list" where
  "all_tokens p =
     (if ttype (current_token p) = TT_END_OF_FILE then [kind_of (current_token p)]
      else kind_of (current_token p) # all_tokens (Parser_advance p))"
  by pat_completeness auto
termination
  by (relation "measure parser_measure") (auto simp: Parser_advance_decreases)

declare all_tokens.simps [simp del]

definition source_tokens :: "string \<Rightarrow> (TokenType \<times> string) list" where
  "source_tokens src = all_tokens (Parser_ctor (Lexer_ctor src))"

lemma reads_all_tokens: "reads p (all_tokens p)"
proof (induction p rule: all_tokens.induct)
  case (1 p)
  then show ?case by (subst all_tokens.simps) simp
qed

lemma values_tokens_no_eof: "values_tokens vals ks \<Longrightarrow> TT_END_OF_FILE \<notin> fst ` set ks"
  by (induction rule: values_tokens.induct) auto

lemma type_tokens_no_eof:
  shows "type_tokens ty ks \<Longrightarrow> TT_END_OF_FILE \<notin> fst ` set ks"
    and "fields_tokens flds ks \<Longrightarrow> TT_END_OF_FILE \<notin> fst ` set ks"
    and "alternatives_tokens alts ks \<Longrightarrow> TT_END_OF_FILE \<notin> fst ` set ks"
proof (induction rule: type_tokens_fields_tokens_alternatives_tokens.inducts)
  case (primitive t a)
  then show ?case by (auto simp: primitive_token_def)
next
  case (enum vals ks a b c)
  then show ?case using values_tokens_no_eof by fastforce
qed auto

lemma schema_tokens_eof:
  "schema_tokens defs ks \<Longrightarrow>
   \<exists>ks' a. ks = ks' @ [(TT_END_OF_FILE, a)] \<and> TT_END_OF_FILE \<notin> fst ` set ks'"
proof (induction rule: schema_tokens.induct)
  case (end_of_file a)
  show ?case by simp
next
  case (type_definition ty ks defs ks' name a)
  then obtain ks'' e where k: "ks' = ks'' @ [(TT_END_OF_FILE, e)]"
    "TT_END_OF_FILE \<notin> fst ` set ks''"
    by blast
  have "TT_END_OF_FILE \<notin> fst ` set ((TT_IDENTIFIER, name) # (TT_COLON, a) # ks @ ks'')"
    using type_tokens_no_eof(1) [OF type_definition.hyps(1)] k(2) by auto
  then show ?case
    using k(1) by (intro exI [of _ "(TT_IDENTIFIER, name) # (TT_COLON, a) # ks @ ks''"] exI [of _ e]) simp
qed

lemma all_tokens_reads:
  "reads p (ks @ [(TT_END_OF_FILE, a)]) \<Longrightarrow> TT_END_OF_FILE \<notin> fst ` set ks \<Longrightarrow>
   all_tokens p = ks @ [(TT_END_OF_FILE, a)]"
proof (induction ks arbitrary: p)
  case Nil
  then show ?case by (subst all_tokens.simps) (auto simp: kind_of_def)
next
  case (Cons k ks)
  then have "ttype (current_token p) \<noteq> TT_END_OF_FILE" "kind_of (current_token p) = k"
    by (auto simp: kind_of_def)
  then show ?case using Cons by (subst all_tokens.simps) simp
qed

lemma all_tokens_schema:
  assumes "schema_tokens defs ks" and "reads p ks"
  shows "all_tokens p = ks"
  using schema_tokens_eof [OF assms(1)] assms(2) all_tokens_reads by blast

subsection \<open>Trailing-comma equivalence\<close>

text \<open>
  The source \<^verbatim>\<open>S : struct { e: enum { }, y: u32 }\<close>, whose enum has an empty body, and the
  source with a comma in that body, under every bound from 8 on.
\<close>

lemma comma_in_empty_body_any_bound:
  "parse_source (8 + n) ''S : struct { e: enum { }, y: u32 }'' =
      Some (SchemaNode 1 1
              [TypeDefinitionNode ''S'' 1 1
                 (StructTypeNode 1 5
                    [FieldNode ''e'' 1 14 (EnumTypeNode 1 17 []),
                     FieldNode ''y'' 1 27 (PrimitiveTypeNode PT_U32 1 30)])],
            []) \<and>
   parse_source (8 + n) ''S : struct { e: enum { , }, y: u32 }'' =
      Some (SchemaNode 1 1
              [TypeDefinitionNode ''S'' 1 1
                 (StructTypeNode 1 5 [FieldNode ''e'' 1 14 (EnumTypeNode 1 17 [])]),
               TypeDefinitionNode ''y'' 1 29 (PrimitiveTypeNode PT_U32 1 32)],
            [''Line 1, Column 24: Expected enum value'',
             ''Line 1, Column 24: Expected '' @ quoted ''}'' @ '' after enum values'',
             ''Line 1, Column 27: Expected type name'',
             ''Line 1, Column 36: Expected type name''])"
proof -
  have a: "parse_source 8 ''S : struct { e: enum { }, y: u32 }'' =
      Some (SchemaNode 1 1
              [TypeDefinitionNode ''S'' 1 1
                 (StructTypeNode 1 5
                    [FieldNode ''e'' 1 14 (EnumTypeNode 1 17 []),
                     FieldNode ''y'' 1 27 (PrimitiveTypeNode PT_U32 1 30)])],
            [])"
    by code_simp
  have b: "parse_source 8 ''S : struct { e: enum { , }, y: u32 }'' =
      Some (SchemaNode 1 1
              [TypeDefinitionNode ''S'' 1 1
                 (StructTypeNode 1 5 [FieldNode ''e'' 1 14 (EnumTypeNode 1 17 [])]),
               TypeDefinitionNode ''y'' 1 29 (PrimitiveTypeNode PT_U32 1 32)],
            [''Line 1, Column 24: Expected enum value'',
             ''Line 1, Column 24: Expected '' @ quoted ''}'' @ '' after enum values'',
             ''Line 1, Column 27: Expected type name'',
             ''Line 1, Column 36: Expected type name''])"
    by code_simp
  show ?thesis using parse_source_more [OF a, of n] parse_source_more [OF b, of n] by simp
qed

text \<open>
  Claim C8 as stated fails for a body that is empty: such a body parses without diagnostics,
  and a comma in front of its closing brace is no trailing comma but a syntax error.
  \<^verbatim>\<open>S : struct { e: enum { }, y: u32 }\<close> parses, without diagnostics, to one definition with the
  two fields \<open>e\<close> and \<open>y\<close>; with a comma in the body of the enum the parser reports four
  errors and returns two definitions, \<open>S\<close> with the one field \<open>e\<close>, and \<open>y\<close>.
\<close>

theorem comma_in_empty_body_changes_the_schema:
  "parse_source 8 ''S : struct { e: enum { }, y: u32 }'' =
      Some (SchemaNode 1 1
              [TypeDefinitionNode ''S'' 1 1
                 (StructTypeNode 1 5
                    [FieldNode ''e'' 1 14 (EnumTypeNode 1 17 []),
                     FieldNode ''y'' 1 27 (PrimitiveTypeNode PT_U32 1 30)])],
            []) \<and>
   parse_source 8 ''S : struct { e: enum { , }, y: u32 }'' =
      Some (SchemaNode 1 1
              [TypeDefinitionNode ''S'' 1 1
                 (StructTypeNode 1 5 [FieldNode ''e'' 1 14 (EnumTypeNode 1 17 [])]),
               TypeDefinitionNode ''y'' 1 29 (PrimitiveTypeNode PT_U32 1 32)],
            [''Line 1, Column 24: Expected enum value'',
             ''Line 1, Column 24: Expected '' @ quoted ''}'' @ '' after enum values'',
             ''Line 1, Column 27: Expected type name'',
             ''Line 1, Column 36: Expected type name''])"
  using comma_in_empty_body_any_bound [of 0] by simp

text \<open>
  Claim C8, amended. Take a source that parses without diagnostics, and in its tokens a
  closing brace \<open>}\<close> after a token \<open>k\<close> that is neither a comma nor an opening brace: the
  brace closes a body that is not empty and does not end in a comma. Every source with the
  same tokens and one comma in front of that brace parses without diagnostics as well, to the
  same schema: the same definitions, fields, alternatives and enum values in the same order.
  (The positions of the nodes are left out of the comparison: the comma moves what follows it
  on its line. \<open>m\<close> bounds the nested calls and the iterations of the parser; every bound
  from the number of tokens on will do.)
\<close>

theorem trailing_comma_keeps_the_schema:
  assumes "parse_source n src = Some (sch, [])"
    and "source_tokens src = us @ k # (TT_RBRACE, r) # vs"
    and "fst k \<noteq> TT_COMMA" and "fst k \<noteq> TT_LBRACE"
    and "source_tokens src' = us @ k # (TT_COMMA, c) # (TT_RBRACE, r) # vs"
    and "length (source_tokens src') \<le> m"
  shows "\<exists>sch'. parse_source m src' = Some (sch', []) \<and> shape_schema sch' = shape_schema sch"
proof -
  let ?p = "Parser_ctor (Lexer_ctor src)"
  let ?p' = "Parser_ctor (Lexer_ctor src')"
  obtain q where q: "Parser_parse n ?p = Some (sch, q)" "p_errors q = []"
    using assms(1) by (auto simp: parse_source_def)
  from parse_complete [OF q] obtain defs ks where
    d: "shape_schema sch = SchemaNode 0 0 defs" "schema_tokens defs ks" "reads ?p ks"
    by blast
  have "ks = us @ k # (TT_RBRACE, r) # vs"
    using all_tokens_schema [OF d(2,3)] assms(2) by (simp add: source_tokens_def)
  then have "schema_tokens defs (us @ k # (TT_COMMA, c) # (TT_RBRACE, r) # vs)"
    using takes_commaD [OF schema_takes_comma [OF d(2)] _ assms(3,4)] by simp
  then have s': "schema_tokens defs (source_tokens src')" using assms(5) by simp
  have "reads ?p' (source_tokens src')"
    using reads_all_tokens by (simp add: source_tokens_def)
  from parse_reads_the_language [OF s' this assms(6)] obtain sch' q' where
    "Parser_parse m ?p' = Some (sch', q')" "shape_schema sch' = SchemaNode 0 0 defs"
    "p_errors q' = p_errors ?p'"
    by blast
  then show ?thesis using d(1) by (simp add: parse_source_def Parser_ctor_def)
qed

text \<open>
  For instance, a comma after the last value of the enum in
  \<^verbatim>\<open>S : struct { e: enum { A, B }, v: variant { x, y: u32 } }\<close>.
\<close>

definition comma_example :: string where
  "comma_example = ''S : struct { e: enum { A, B }, v: variant { x, y: u32 } }''"

definition comma_example_with_comma :: string where
  "comma_example_with_comma = ''S : struct { e: enum { A, B, }, v: variant { x, y: u32 } }''"

definition comma_example_schema :: SchemaNode where
  "comma_example_schema =
     SchemaNode 1 1
       [TypeDefinitionNode ''S'' 1 1
          (StructTypeNode 1 5
             [FieldNode ''e'' 1 14 (EnumTypeNode 1 17 [''A'', ''B'']),
              FieldNode ''v'' 1 32
                (VariantTypeNode 1 35
                   [AlternativeNode ''x'' 1 45 None,
                    AlternativeNode ''y'' 1 48 (Some (PrimitiveTypeNode PT_U32 1 51))])])]"

theorem trailing_comma_keeps_the_schema_witness:
  "parse_source 30 comma_example = Some (comma_example_schema, []) \<and>
   (\<exists>sch'. parse_source 30 comma_example_with_comma = Some (sch', []) \<and>
           shape_schema sch' = shape_schema comma_example_schema)"
proof -
  let ?us = "[(TT_IDENTIFIER, ''S''), (TT_COLON, '':''), (TT_STRUCT, ''struct''),
              (TT_LBRACE, ''{''), (TT_IDENTIFIER, ''e''), (TT_COLON, '':''),
              (TT_ENUM, ''enum''), (TT_LBRACE, ''{''), (TT_IDENTIFIER, ''A''),
              (TT_COMMA, '','')]"
  let ?k = "(TT_IDENTIFIER, ''B'')"
  let ?vs = "[(TT_COMMA, '',''), (TT_IDENTIFIER, ''v''), (TT_COLON, '':''),
              (TT_VARIANT, ''variant''), (TT_LBRACE, ''{''), (TT_IDENTIFIER, ''x''),
              (TT_COMMA, '',''), (TT_IDENTIFIER, ''y''), (TT_COLON, '':''),
              (TT_U32, ''u32''), (TT_RBRACE, ''}''), (TT_RBRACE, ''}''),
              (TT_END_OF_FILE, [])]"
  have p: "parse_source 30 comma_example = Some (comma_example_schema, [])"
    by code_simp
  have t: "source_tokens comma_example = ?us @ ?k # (TT_RBRACE, ''}'') # ?vs"
    by code_simp
  have t': "source_tokens comma_example_with_comma =
              ?us @ ?k # (TT_COMMA, '','') # (TT_RBRACE, ''}'') # ?vs"
    by code_simp
  have n: "length (source_tokens comma_example_with_comma) \<le> 30"
    unfolding t' by simp
  have k: "fst ?k \<noteq> TT_COMMA" "fst ?k \<noteq> TT_LBRACE" by simp_all
  from trailing_comma_keeps_the_schema [OF p t k t' n] show ?thesis
    using p by simp
qed

section \<open>The schemas that reach the semantic analyzer\<close>

text \<open>
  The drivers run the semantic analyzer only on a schema that was parsed without a
  diagnostic. Such a schema is a tree of the language, so its containers are complete and
  carry only the members of their kind.
\<close>

lemma well_formed_shape:
  "well_formed (shape e) = well_formed e"
  "well_formed_fields (map shape_field flds) = well_formed_fields flds"
  "well_formed_alternatives (map shape_alternative alts) = well_formed_alternatives alts"
proof (induction e and flds and alts
       rule: well_formed_well_formed_fields_well_formed_alternatives.induct)
  case (5 kind ln col e k v)
  then show ?case by (cases e; cases k; cases v) auto
next
  case (11 name ln col ty alts)
  then show ?case by (cases ty) auto
qed simp_all

lemma language_well_formed:
  "type_tokens ty ks \<Longrightarrow> well_formed ty"
  "fields_tokens flds ks \<Longrightarrow> well_formed_fields flds"
  "alternatives_tokens alts ks \<Longrightarrow> well_formed_alternatives alts"
  by (induction rule: type_tokens_fields_tokens_alternatives_tokens.inducts) simp_all

lemma schema_well_formed:
  "schema_tokens defs ks \<Longrightarrow> \<forall>d \<in> set defs. well_formed (def_type d)"
  by (induction rule: schema_tokens.induct) (simp_all add: language_well_formed(1))

lemma parsed_schema_well_formed:
  assumes "parse_source n src = Some (sch, [])"
  shows "\<forall>d \<in> set (definitions sch). well_formed (def_type d)"
proof -
  obtain q where q: "Parser_parse n (Parser_ctor (Lexer_ctor src)) = Some (sch, q)"
    "p_errors q = []"
    using assms by (auto simp: parse_source_def)
  from parse_complete [OF q] obtain defs ks where
    d: "shape_schema sch = SchemaNode 0 0 defs" "schema_tokens defs ks"
    by blast
  have m: "defs = map shape_definition (definitions sch)" using d(1) by (cases sch) simp
  show ?thesis
  proof
    fix x assume "x \<in> set (definitions sch)"
    then have "well_formed (def_type (shape_definition x))"
      using schema_well_formed [OF d(2)] m by simp
    then show "well_formed (def_type x)" by (cases x) (simp add: well_formed_shape(1))
  qed
qed

text \<open>The schemas of the examples are what the parser builds from their sources.\<close>

lemma example_schemas_parsed:
  "parse_source 30
     (''First : struct { a: Missing, b: Second }'' @ [CHR 0x0A] @
      ''Second : struct { value: u32 }'' @ [CHR 0x0A] @
      ''Third : struct { s: Second }'') = Some (resolution_schema, [])"
  "parse_source 30
     (''First : struct { second: Second }'' @ [CHR 0x0A] @ ''Second : struct { value: u32 }'') =
     Some (forward_reference_schema, [])"
  "parse_source 20 ''Node : struct { child: Node }'' = Some (self_reference_schema, [])"
  "parse_source 20 ''Node : struct { child: ref<entity> }'' = Some (entity_reference_schema, [])"
  "parse_source 20 ''Bad : struct { field: optional<optional<u32>> }'' =
     Some (nested_optional_schema, [])"
  "parse_source 20 ''Bad : struct { field: optional<array<optional<u32>>> }'' =
     Some (optional_array_optional_schema, [])"
  "parse_source 20 (''A : optional<optional<u32>>'' @ [CHR 0x0A] @ ''A : u32'') =
     Some (duplicate_nested_schema, [])"
  "parse_source 20 (''Node : struct { child: Node }'' @ [CHR 0x0A] @
                    ''Bad : optional<optional<u32>>'') =
     Some (self_reference_nested_schema, [])"
  "parse_source 20 ''M : map<, optional<optional<u32>>>'' =
     Some (map_without_key_schema, [''Line 1, Column 9: Expected type expression''])"
  by code_simp+

end
